(* ===== verification/Prelude.thy ===== *)
theory Prelude
  imports "HOL-Library.Word" "HOL-Library.Finite_Map"
begin

text \<open>
  The vocabulary every component shares.

  Machine types: \<open>uint32_t\<close> is \<open>32 word\<close>, \<open>uint8_t\<close> is an 8-bit word,
  \<open>size_t\<close> and \<open>time_t\<close> are 64-bit words (the LP64 data model).
  A \<open>std::map\<close> is a finite map and a \<open>std::set\<close> of integers a finite set;
  both are iterated in ascending key order, which \<open>map_keys\<close> and
  \<open>set_elems\<close> make explicit. A C++ exception is a value of \<open>exn\<close> in the left
  summand of the result. What the program reads from its environment (the clock, the
  allocator's addresses, the file system) is an oracle, an arbitrary sequence of answers.

  The second half states what a safety argument is: the reachable states of a step
  relation and the locale of inductive invariants that the stateful components interpret.
\<close>

section \<open>Machine types, exceptions and oracles\<close>

type_synonym u8 = "8 word"
type_synonym u32 = "32 word"
type_synonym u64 = "64 word"
type_synonym bytes = "u8 list"
type_synonym time_point = int

datatype exn = Invalid_argument | Out_of_range

type_synonym 'a oracle_seq = "nat \<Rightarrow> 'a"

definition draw :: "'a oracle_seq \<Rightarrow> 'a" where
  "draw f = f 0"

definition rest :: "'a oracle_seq \<Rightarrow> 'a oracle_seq" where
  "rest f = (\<lambda>n. f (Suc n))"

section \<open>Ordered containers\<close>

definition map_keys :: "('k::linorder, 'v) fmap \<Rightarrow> 'k list" where
  "map_keys m = sorted_list_of_fset (fmdom m)"

definition set_elems :: "('k::linorder) fset \<Rightarrow> 'k list" where
  "set_elems s = sorted_list_of_fset s"

definition map_size :: "('k, 'v) fmap \<Rightarrow> nat" where
  "map_size m = fcard (fmdom m)"

lemma set_set_elems [simp]: "set (set_elems s) = fset s"
  by (simp add: set_elems_def)

lemma sorted_set_elems [simp]: "sorted (set_elems s)"
  by (simp add: set_elems_def sorted_list_of_fset.rep_eq)

lemma distinct_set_elems [simp]: "distinct (set_elems s)"
  by (simp add: set_elems_def sorted_list_of_fset.rep_eq)

lemma length_set_elems [simp]: "length (set_elems s) = fcard s"
  by (simp add: set_elems_def sorted_list_of_fset.rep_eq fcard.rep_eq)

lemma set_elems_empty [simp]: "set_elems {||} = []"
  by (simp add: set_elems_def sorted_list_of_fset.rep_eq)

lemma map_keys_elems: "map_keys m = set_elems (fmdom m)"
  by (simp add: map_keys_def set_elems_def)

lemma set_map_keys [simp]: "set (map_keys m) = fset (fmdom m)"
  and sorted_map_keys [simp]: "sorted (map_keys m)"
  and distinct_map_keys [simp]: "distinct (map_keys m)"
  and length_map_keys [simp]: "length (map_keys m) = map_size m"
  by (simp_all add: map_keys_elems map_size_def)

lemma map_keys_empty [simp]: "map_keys fmempty = []"
  by (simp add: map_keys_elems)

lemma strict_sorted_set_elems: "sorted_wrt (<) (set_elems s)"
  by (simp add: strict_sorted_iff)

lemma map_size_upd:
  "map_size (fmupd k v m) = (if k |\<in>| fmdom m then map_size m else Suc (map_size m))"
  by (auto simp: map_size_def finsert_absorb fcard_finsert_disjoint)

lemma map_size_drop:
  "map_size (fmdrop k m) = (if k |\<in>| fmdom m then map_size m - 1 else map_size m)"
  by (auto simp: map_size_def fcard.rep_eq fmdrop_idle)

lemma map_size_empty [simp]: "map_size fmempty = 0"
  by (simp add: map_size_def)

lemma in_fmdom_iff: "k |\<in>| fmdom m \<longleftrightarrow> (\<exists>v. fmlookup m k = Some v)"
  by (auto simp: fmlookup_dom_iff)

text \<open>The lvalue \<^verbatim>\<open>m[k]\<close> of a \<^verbatim>\<open>std::map\<close> with default value \<open>d\<close>: reading it inserts the default.\<close>

definition map_at :: "'v \<Rightarrow> ('k, 'v) fmap \<Rightarrow> 'k \<Rightarrow> 'v" where
  "map_at d m k = (case fmlookup m k of Some v \<Rightarrow> v | None \<Rightarrow> d)"

lemma map_at_upd [simp]: "map_at d (fmupd k v m) j = (if j = k then v else map_at d m j)"
  and map_at_drop [simp]: "map_at d (fmdrop k m) j = (if j = k then d else map_at d m j)"
  and map_at_empty [simp]: "map_at d fmempty j = d"
  by (simp_all add: map_at_def)

section \<open>Counters\<close>

lemma unat_add_one: "x \<noteq> -1 \<Longrightarrow> unat (x + 1) = Suc (unat x)" for x :: "'a::len word"
proof -
  assume "x \<noteq> -1"
  then have "1 + x \<noteq> 0" by (metis add.commute add_eq_0_iff)
  then show ?thesis using unatSuc [of x] by (simp add: add.commute)
qed

lemma less_add_one: "x \<noteq> -1 \<Longrightarrow> y < x + 1 \<longleftrightarrow> y \<le> x" for x y :: "'a::len word"
  by (simp add: word_less_nat_alt word_le_nat_alt unat_add_one less_Suc_eq_le)

lemma unat_less_max: "unat x + k < 2 ^ LENGTH('a) - 1 \<Longrightarrow> x \<noteq> -1" for x :: "'a::len word"
  by (auto simp: unsigned_minus_1_eq_mask mask_eq_exp_minus_1)

lemma takeWhile_shorter: "x \<in> set xs \<Longrightarrow> \<not> P x \<Longrightarrow> length (takeWhile P xs) < length xs"
  by (induction xs) auto

section \<open>Reachable states and inductive invariants\<close>

text \<open>
  The states a component can reach from its constructor through any sequence of its
  operations: \<open>I\<close> holds of the initial states, \<open>T\<close> relates the states before and
  after one operation.
\<close>

inductive reach :: "('s \<Rightarrow> bool) \<Rightarrow> ('s \<Rightarrow> 's \<Rightarrow> bool) \<Rightarrow> 's \<Rightarrow> bool"
  for I :: "'s \<Rightarrow> bool" and T :: "'s \<Rightarrow> 's \<Rightarrow> bool" where
  reach_init: "I s \<Longrightarrow> reach I T s"
| reach_step: "reach I T s \<Longrightarrow> T s t \<Longrightarrow> reach I T t"

text \<open>Runs of a relation whose steps each contribute a list of events to a trace.\<close>

inductive trace :: "('s \<Rightarrow> 'e list \<Rightarrow> 's \<Rightarrow> bool) \<Rightarrow> 's \<Rightarrow> 'e list \<Rightarrow> 's \<Rightarrow> bool"
  for T :: "'s \<Rightarrow> 'e list \<Rightarrow> 's \<Rightarrow> bool" where
  trace_nil: "trace T s [] s"
| trace_cons: "T s es u \<Longrightarrow> trace T u fs t \<Longrightarrow> trace T s (es @ fs) t"

lemma trace_single: "T s es t \<Longrightarrow> trace T s es t"
  using trace_cons [of T s es t "[]" t] trace_nil [of T t] by simp

lemma trace_append: "trace T s es u \<Longrightarrow> trace T u fs t \<Longrightarrow> trace T s (es @ fs) t"
  by (induction rule: trace.induct) (auto intro: trace_cons)

lemma trace_silent: "T s [] u \<Longrightarrow> trace T u es t \<Longrightarrow> trace T s es t"
  using trace_cons [of T s "[]" u es t] by simp

lemma trace_map: "trace T s es t \<Longrightarrow> trace (\<lambda>s fs t. \<exists>es. fs = map f es \<and> T s es t) s (map f es) t"
  by (induction rule: trace.induct) (auto intro: trace_nil trace_cons)

text \<open>An invariant that every operation keeps holds in every reachable state.\<close>

locale safety =
  fixes I :: "'s \<Rightarrow> bool" and T :: "'s \<Rightarrow> 's \<Rightarrow> bool" and inv :: "'s \<Rightarrow> bool"
  assumes inv_init: "I s \<Longrightarrow> inv s"
    and inv_step: "inv s \<Longrightarrow> T s t \<Longrightarrow> inv t"
begin

lemma reach_inv: "reach I T s \<Longrightarrow> inv s"
  by (induction rule: reach.induct) (auto intro: inv_init inv_step)

lemma steps_inv: "T\<^sup>*\<^sup>* s t \<Longrightarrow> inv s \<Longrightarrow> inv t"
  by (induction rule: rtranclp_induct) (auto intro: inv_step)

lemma steps_reach: "T\<^sup>*\<^sup>* s t \<Longrightarrow> reach I T s \<Longrightarrow> reach I T t"
  by (induction rule: rtranclp_induct) (auto intro: reach_step)

end

text \<open>
  A stable property is one that, once true of a state satisfying the invariant, no
  operation makes false: what has been committed stays committed, a lock once held stays
  held, a byte once on disk stays on disk.
\<close>

locale stability = safety +
  fixes P :: "'s \<Rightarrow> bool"
  assumes stable_step: "inv s \<Longrightarrow> T s t \<Longrightarrow> P s \<Longrightarrow> P t"
begin

lemma stable_steps: "T\<^sup>*\<^sup>* s t \<Longrightarrow> inv s \<Longrightarrow> P s \<Longrightarrow> P t"
proof (induction rule: rtranclp_induct)
  case base
  then show ?case by simp
next
  case (step u v)
  then show ?case using steps_inv stable_step by blast
qed

lemma stable_reach: "reach I T s \<Longrightarrow> T\<^sup>*\<^sup>* s t \<Longrightarrow> P s \<Longrightarrow> P t"
  using stable_steps reach_inv by blast

end

end
