(* ===== verification/Utils.thy ===== *)
theory Utils
  imports Prelude
begin

text \<open>
  The shared enumerations of \<^verbatim>\<open>include/utils/enums.h\<close> and the constants of
  \<^verbatim>\<open>include/utils/constants.h\<close>. Enumerators keep their
  names with a prefix where two enumerations use the same one. The declaration order of
  \<open>RecoveryState\<close> (\<open>enum class\<close> values are ordered by it) is its linear order.
\<close>

section \<open>Enumerations\<close>

datatype TransactionState = ACTIVE | COMMITTED | ABORTED | WAITING

datatype LockType = NONE | SHARED | EXCLUSIVE | INTENTION_SHARED | INTENTION_EXCLUSIVE

datatype LogOperationType = OP_BEGIN | OP_WRITE | OP_COMMIT | OP_ABORT | OP_END | OP_CHECKPOINT

datatype RecoveryState = ANALYSIS | REDO | UNDO | COMPLETE

fun recovery_rank :: "RecoveryState \<Rightarrow> nat" where
  "recovery_rank ANALYSIS = 0"
| "recovery_rank REDO = 1"
| "recovery_rank UNDO = 2"
| "recovery_rank COMPLETE = 3"

lemma recovery_rank_inject: "recovery_rank a = recovery_rank b \<longleftrightarrow> a = b"
  by (cases a; cases b) simp_all

instantiation RecoveryState :: linorder
begin

definition less_eq_RecoveryState :: "RecoveryState \<Rightarrow> RecoveryState \<Rightarrow> bool" where
  "less_eq_RecoveryState a b = (recovery_rank a \<le> recovery_rank b)"

definition less_RecoveryState :: "RecoveryState \<Rightarrow> RecoveryState \<Rightarrow> bool" where
  "less_RecoveryState a b = (recovery_rank a < recovery_rank b)"

instance
  by standard
    (auto simp: less_eq_RecoveryState_def less_RecoveryState_def simp flip: recovery_rank_inject)

end

section \<open>Constants\<close>

text \<open>
  \<^verbatim>\<open>size_t\<close> constants are natural numbers below \<open>2 ^ 64\<close>. Of all these only
  \<open>INITIAL_TXN_ID\<close>, \<open>MAX_RECORD_SIZE\<close> and, by its value, \<open>LOG_FILE_PATH\<close> take part in
  what the program does; the limits and intervals are read by no code.
\<close>

definition PAGE_SIZE :: nat where
  "PAGE_SIZE = 4096"

definition BUFFER_POOL_SIZE :: nat where
  "BUFFER_POOL_SIZE = 1024"

definition BUFFER_POOL_BYTES :: nat where
  "BUFFER_POOL_BYTES = BUFFER_POOL_SIZE * PAGE_SIZE"

definition MAX_TRANSACTIONS :: u32 where
  "MAX_TRANSACTIONS = 1000"

definition DEFAULT_TIMEOUT_MS :: u32 where
  "DEFAULT_TIMEOUT_MS = 5000"

definition LOCK_WAIT_TIMEOUT_MS :: u32 where
  "LOCK_WAIT_TIMEOUT_MS = 10000"

definition INITIAL_TXN_ID :: u32 where
  "INITIAL_TXN_ID = 1"

definition LOG_BUFFER_SIZE :: nat where
  "LOG_BUFFER_SIZE = 8192"

definition LOG_FILE_PATH :: string where
  "LOG_FILE_PATH = ''transaction.log''"

definition CHECKPOINT_FILE_PATH :: string where
  "CHECKPOINT_FILE_PATH = ''checkpoint.dat''"

definition MAX_LOG_FILE_SIZE :: nat where
  "MAX_LOG_FILE_SIZE = 100 * 1024 * 1024"

definition CHECKPOINT_INTERVAL :: u32 where
  "CHECKPOINT_INTERVAL = 10000"

definition MAX_LOCKS :: u32 where
  "MAX_LOCKS = 5000"

definition DEADLOCK_CHECK_INTERVAL_MS :: u32 where
  "DEADLOCK_CHECK_INTERVAL_MS = 1000"

definition INITIAL_RECORD_ID :: u32 where
  "INITIAL_RECORD_ID = 1"

definition MAX_RECORD_SIZE :: nat where
  "MAX_RECORD_SIZE = 1024 * 1024"

text \<open>The sizes their comments give: 4 MB, 8 KB, 100 MB and 1 MB, all representable.\<close>

lemma documented_sizes:
  "BUFFER_POOL_BYTES = 4 * 2 ^ 20 \<and> LOG_BUFFER_SIZE = 8 * 2 ^ 10 \<and> MAX_LOG_FILE_SIZE = 100 * 2 ^ 20 \<and>
   MAX_RECORD_SIZE = 2 ^ 20 \<and> BUFFER_POOL_BYTES < 2 ^ 32 \<and> MAX_LOG_FILE_SIZE < 2 ^ 32"
  by (simp add: BUFFER_POOL_BYTES_def BUFFER_POOL_SIZE_def PAGE_SIZE_def LOG_BUFFER_SIZE_def
      MAX_LOG_FILE_SIZE_def MAX_RECORD_SIZE_def)

end
