(* ===== verification/LockTable.thy ===== *)
theory LockTable
  imports Utils
begin

text \<open>
  The lock manager, \<^verbatim>\<open>src/concurrency/Lock.cpp\<close> and
  \<^verbatim>\<open>src/concurrency/LockManager.cpp\<close>, operation by operation.

  The locks on a resource are a \<^verbatim>\<open>std::set<std::shared_ptr<Lock>>\<close>: every
  \<^verbatim>\<open>make_shared<Lock>\<close> adds a new element, equal contents or not, and iteration
  follows the addresses the allocator happened to return. The model keeps the set as the
  list of its elements in iteration order, and takes the position at which each new lock
  lands from the oracle \<open>alloc_order\<close>: every theorem holds for every such sequence,
  that is for every allocator.
\<close>

section \<open>Lock\<close>

record Lock =
  lock_txn :: u32
  lock_type :: LockType

definition new_Lock :: "u32 \<Rightarrow> LockType \<Rightarrow> Lock" where
  "new_Lock tid ty = \<lparr>lock_txn = tid, lock_type = ty\<rparr>"

lemma new_Lock_sel [simp]: "lock_txn (new_Lock tid ty) = tid" "lock_type (new_Lock tid ty) = ty"
  by (simp_all add: new_Lock_def)

section \<open>State\<close>

record LockRequest =
  req_txn :: u32
  req_type :: LockType

record LockManager =
  resource_locks :: "(u32, Lock list) fmap"
  wait_queues :: "(u32, LockRequest list) fmap"
  txn_locks :: "(u32, u32 fset) fmap"
  completed_txns :: "u32 fset"
  resource_parent :: "(u32, u32) fmap"
  alloc_order :: "nat oracle_seq"

definition new_LockManager :: "nat oracle_seq \<Rightarrow> LockManager" where
  "new_LockManager order =
     \<lparr>resource_locks = fmempty, wait_queues = fmempty, txn_locks = fmempty,
      completed_txns = {||}, resource_parent = fmempty, alloc_order = order\<rparr>"

definition setResourceParent :: "u32 \<Rightarrow> u32 \<Rightarrow> LockManager \<Rightarrow> LockManager" where
  "setResourceParent child parent lm =
     lm\<lparr>resource_parent := fmupd child parent (resource_parent lm)\<rparr>"

section \<open>Compatibility\<close>

definition isCompatible :: "LockType \<Rightarrow> LockType \<Rightarrow> bool" where
  "isCompatible existing requested =
     (if existing = EXCLUSIVE \<or> requested = EXCLUSIVE then False
      else if existing = SHARED \<and> requested = INTENTION_EXCLUSIVE then False
      else if existing = INTENTION_EXCLUSIVE \<and> requested = SHARED then False
      else True)"

definition getAncestorIntentionType :: "LockType \<Rightarrow> LockType" where
  "getAncestorIntentionType requested =
     (if requested = EXCLUSIVE \<or> requested = INTENTION_EXCLUSIVE then INTENTION_EXCLUSIVE
      else if requested = SHARED \<or> requested = INTENTION_SHARED then INTENTION_SHARED
      else NONE)"

definition compatible_with :: "Lock list \<Rightarrow> LockType \<Rightarrow> bool" where
  "compatible_with locks ty =
     list_all (\<lambda>l. isCompatible (lock_type l) ty \<and> isCompatible ty (lock_type l)) locks"

definition upgrade_compatible :: "u32 \<Rightarrow> Lock list \<Rightarrow> LockType \<Rightarrow> bool" where
  "upgrade_compatible tid locks ty =
     list_all (\<lambda>l. lock_txn l = tid \<or>
       (isCompatible (lock_type l) ty \<and> isCompatible ty (lock_type l))) locks"

section \<open>Granting and queueing\<close>

definition insert_lock :: "nat \<Rightarrow> Lock \<Rightarrow> Lock list \<Rightarrow> Lock list" where
  "insert_lock pos l locks = take pos locks @ l # drop pos locks"

text \<open>
  \<^verbatim>\<open>locks.insert(std::make_shared<Lock>(tid, ty)); txn_locks_[tid].insert(rid);\<close>
\<close>

definition grant_lock :: "u32 \<Rightarrow> u32 \<Rightarrow> LockType \<Rightarrow> Lock list \<Rightarrow> LockManager \<Rightarrow> LockManager" where
  "grant_lock tid rid ty locks lm =
     lm\<lparr>resource_locks :=
           fmupd rid (insert_lock (draw (alloc_order lm)) (new_Lock tid ty) locks) (resource_locks lm),
        alloc_order := rest (alloc_order lm),
        txn_locks := fmupd tid (finsert rid (map_at {||} (txn_locks lm) tid)) (txn_locks lm)\<rparr>"

definition enqueue_request :: "u32 \<Rightarrow> u32 \<Rightarrow> LockType \<Rightarrow> LockManager \<Rightarrow> LockManager" where
  "enqueue_request tid rid ty lm =
     (let queue = map_at [] (wait_queues lm) rid;
          already_waiting = list_ex (\<lambda>q. req_txn q = tid) queue;
          queue' = (if \<not> already_waiting then queue @ [\<lparr>req_txn = tid, req_type = ty\<rparr>] else queue)
      in lm\<lparr>wait_queues := fmupd rid queue' (wait_queues lm)\<rparr>)"

definition requestLockOnResource ::
  "u32 \<Rightarrow> u32 \<Rightarrow> LockType \<Rightarrow> LockManager \<Rightarrow> bool \<times> LockManager" where
  "requestLockOnResource tid rid ty lm =
     (if tid |\<in>| completed_txns lm then (False, lm)
      else
        let locks = map_at [] (resource_locks lm) rid;
            lm1 = lm\<lparr>resource_locks := fmupd rid locks (resource_locks lm)\<rparr>
        in case find (\<lambda>l. lock_txn l = tid) locks of
             Some existing \<Rightarrow>
               if lock_type existing = ty \<or> lock_type existing = EXCLUSIVE then (True, lm1)
               else if upgrade_compatible tid locks ty
                 then (True, grant_lock tid rid ty (remove1 existing locks) lm1)
               else (False, enqueue_request tid rid ty lm1)
           | None \<Rightarrow>
               if compatible_with locks ty then (True, grant_lock tid rid ty locks lm1)
               else (False, enqueue_request tid rid ty lm1))"

section \<open>Hierarchical requests\<close>

function collect_ancestors :: "(u32, u32) fmap \<Rightarrow> u32 \<Rightarrow> u32 list \<Rightarrow> u32 list" where
  "collect_ancestors parents rid acc =
     (case fmlookup parents rid of
        None \<Rightarrow> acc
      | Some p \<Rightarrow> if p \<in> set acc then acc else collect_ancestors parents p (acc @ [p]))"
  by pat_completeness auto
termination
proof (relation "measure (\<lambda>(parents, rid, acc). card (fset (fmran parents) - set acc))")
  fix parents :: "(u32, u32) fmap" and rid acc p
  assume "fmlookup parents rid = Some p" and "p \<notin> set acc"
  then have "p \<in> fset (fmran parents) - set acc"
    by (auto intro: fmranI)
  then have "card (fset (fmran parents) - set (acc @ [p])) < card (fset (fmran parents) - set acc)"
    by (intro psubset_card_mono) auto
  then show "((parents, p, acc @ [p]), parents, rid, acc) \<in>
      measure (\<lambda>(parents, rid, acc). card (fset (fmran parents) - set acc))"
    by simp
qed simp

declare collect_ancestors.simps [simp del]

fun request_ancestors ::
  "u32 \<Rightarrow> u32 list \<Rightarrow> LockType \<Rightarrow> LockManager \<Rightarrow> bool \<times> LockManager" where
  "request_ancestors tid [] ty lm = (True, lm)"
| "request_ancestors tid (a # as) ty lm =
     (case requestLockOnResource tid a ty lm of
        (False, lm') \<Rightarrow> (False, lm')
      | (True, lm') \<Rightarrow> request_ancestors tid as ty lm')"

definition ensureAncestorIntentionLocks ::
  "u32 \<Rightarrow> u32 \<Rightarrow> LockType \<Rightarrow> LockManager \<Rightarrow> bool \<times> LockManager" where
  "ensureAncestorIntentionLocks tid rid ty lm =
     (let intention_type = getAncestorIntentionType ty
      in if intention_type = NONE then (True, lm)
         else request_ancestors tid (rev (collect_ancestors (resource_parent lm) rid []))
                intention_type lm)"

definition requestLock :: "u32 \<Rightarrow> u32 \<Rightarrow> LockType \<Rightarrow> LockManager \<Rightarrow> bool \<times> LockManager" where
  "requestLock tid rid ty lm =
     (if tid |\<in>| completed_txns lm then (False, lm)
      else case ensureAncestorIntentionLocks tid rid ty lm of
             (False, lm') \<Rightarrow> (False, lm')
           | (True, lm') \<Rightarrow> requestLockOnResource tid rid ty lm')"

section \<open>Releasing\<close>

fun grant_queue :: "u32 \<Rightarrow> LockRequest list \<Rightarrow> LockManager \<Rightarrow> LockRequest list \<times> LockManager" where
  "grant_queue rid [] lm = ([], lm)"
| "grant_queue rid (q # qs) lm =
     (let locks = map_at [] (resource_locks lm) rid
      in if \<not> compatible_with locks (req_type q) then (q # qs, lm)
         else grant_queue rid qs (grant_lock (req_txn q) rid (req_type q) locks lm))"

definition processWaitQueue :: "u32 \<Rightarrow> LockManager \<Rightarrow> LockManager" where
  "processWaitQueue rid lm =
     (case fmlookup (wait_queues lm) rid of
        None \<Rightarrow> lm
      | Some queue \<Rightarrow>
          (let lm1 = lm\<lparr>resource_locks :=
                 fmupd rid (map_at [] (resource_locks lm) rid) (resource_locks lm)\<rparr>;
               (queue', lm2) = grant_queue rid queue lm1
           in lm2\<lparr>wait_queues := fmupd rid queue' (wait_queues lm2)\<rparr>))"

definition forget_txn_lock :: "u32 \<Rightarrow> u32 \<Rightarrow> LockManager \<Rightarrow> LockManager" where
  "forget_txn_lock tid rid lm =
     (case fmlookup (txn_locks lm) tid of
        None \<Rightarrow> lm
      | Some held \<Rightarrow>
          (let held' = held |-| {|rid|}
           in if held' = {||} then lm\<lparr>txn_locks := fmdrop tid (txn_locks lm)\<rparr>
              else lm\<lparr>txn_locks := fmupd tid held' (txn_locks lm)\<rparr>))"

definition drop_if_empty :: "('k, 'v list) fmap \<Rightarrow> 'k \<Rightarrow> ('k, 'v list) fmap" where
  "drop_if_empty m k = (if map_at [] m k = [] then fmdrop k m else m)"

definition releaseLock :: "u32 \<Rightarrow> u32 \<Rightarrow> LockManager \<Rightarrow> bool \<times> LockManager" where
  "releaseLock tid rid lm =
     (if tid |\<notin>| completed_txns lm then (False, lm)
      else case fmlookup (resource_locks lm) rid of
             None \<Rightarrow> (False, lm)
           | Some locks \<Rightarrow>
               (let kept = filter (\<lambda>l. lock_txn l \<noteq> tid) locks;
                    removed = (\<exists>l\<in>set locks. lock_txn l = tid)
                in if \<not> removed then (False, lm)
                   else
                     let lm1 = lm\<lparr>resource_locks := fmupd rid kept (resource_locks lm)\<rparr>;
                         lm2 = forget_txn_lock tid rid lm1;
                         lm3 = processWaitQueue rid lm2
                     in (True, lm3\<lparr>resource_locks := drop_if_empty (resource_locks lm3) rid,
                                  wait_queues := drop_if_empty (wait_queues lm3) rid\<rparr>)))"

fun release_loop :: "u32 \<Rightarrow> u32 list \<Rightarrow> bool \<Rightarrow> LockManager \<Rightarrow> bool \<times> LockManager" where
  "release_loop tid [] released_any lm = (released_any, lm)"
| "release_loop tid (rid # rids) released_any lm =
     (case releaseLock tid rid lm of
        (b, lm') \<Rightarrow> release_loop tid rids (released_any \<or> b) lm')"

definition completeTransaction :: "u32 \<Rightarrow> LockManager \<Rightarrow> bool \<times> LockManager" where
  "completeTransaction tid lm =
     (let lm1 = lm\<lparr>completed_txns := finsert tid (completed_txns lm)\<rparr>
      in case fmlookup (txn_locks lm1) tid of
           None \<Rightarrow> (True, lm1)
         | Some held \<Rightarrow>
             (case release_loop tid (set_elems held) False lm1 of
                (released_any, lm2) \<Rightarrow>
                  (released_any, lm2\<lparr>txn_locks := fmdrop tid (txn_locks lm2)\<rparr>)))"

section \<open>Observers\<close>

definition hasLock :: "u32 \<Rightarrow> u32 \<Rightarrow> LockManager \<Rightarrow> bool" where
  "hasLock tid rid lm =
     (case fmlookup (resource_locks lm) rid of
        Some locks \<Rightarrow> list_ex (\<lambda>l. lock_txn l = tid) locks
      | None \<Rightarrow> False)"

fun lock_type_loop :: "Lock list \<Rightarrow> bool \<Rightarrow> bool \<Rightarrow> LockType" where
  "lock_type_loop [] has_ix has_is =
     (if has_ix then INTENTION_EXCLUSIVE else if has_is then INTENTION_SHARED else NONE)"
| "lock_type_loop (l # ls) has_ix has_is =
     (if lock_type l = EXCLUSIVE then EXCLUSIVE
      else if lock_type l = SHARED then SHARED
      else lock_type_loop ls (has_ix \<or> lock_type l = INTENTION_EXCLUSIVE)
             (has_is \<or> lock_type l = INTENTION_SHARED))"

definition getLockType :: "u32 \<Rightarrow> LockManager \<Rightarrow> LockType" where
  "getLockType rid lm =
     (case fmlookup (resource_locks lm) rid of
        None \<Rightarrow> NONE
      | Some locks \<Rightarrow> if locks = [] then NONE else lock_type_loop locks False False)"

end
