(* ===== verification/LockSafety.thy ===== *)
theory LockSafety
  imports LockTable "HOL-Library.Multiset"
begin

text \<open>
  What the lock table guarantees. The first part gives the observers the proofs speak
  about (the locks on a resource, its queue, the index of a transaction) and the case
  rule of a single request; the second part the invariant: locks of different
  transactions on a resource are compatible, the per-transaction index agrees with the
  table, a nonempty queue waits behind a lock. Every operation keeps it, for every order
  in which the allocator places the lock objects.
\<close>

section \<open>Observers\<close>

named_theorems lock_obs

definition locks_on :: "LockManager \<Rightarrow> u32 \<Rightarrow> Lock list" where
  "locks_on lm rid = map_at [] (resource_locks lm) rid"

definition queue_on :: "LockManager \<Rightarrow> u32 \<Rightarrow> LockRequest list" where
  "queue_on lm rid = map_at [] (wait_queues lm) rid"

definition index_of :: "LockManager \<Rightarrow> u32 \<Rightarrow> u32 fset" where
  "index_of lm tid = map_at {||} (txn_locks lm) tid"

definition holds_lock :: "LockManager \<Rightarrow> u32 \<Rightarrow> u32 \<Rightarrow> LockType \<Rightarrow> bool" where
  "holds_lock lm tid rid ty \<longleftrightarrow> (\<exists>l\<in>set (locks_on lm rid). lock_txn l = tid \<and> lock_type l = ty)"

definition touch :: "u32 \<Rightarrow> LockManager \<Rightarrow> LockManager" where
  "touch rid lm = lm\<lparr>resource_locks := fmupd rid (locks_on lm rid) (resource_locks lm)\<rparr>"

lemma hasLock_locks_on: "hasLock tid rid lm \<longleftrightarrow> (\<exists>l\<in>set (locks_on lm rid). lock_txn l = tid)"
  by (auto simp: hasLock_def locks_on_def map_at_def list_ex_iff split: option.split)

lemma hasLock_holds: "hasLock tid rid lm \<longleftrightarrow> (\<exists>ty. holds_lock lm tid rid ty)"
  by (auto simp: hasLock_locks_on holds_lock_def)

lemma set_insert_lock [simp]: "set (insert_lock pos l ls) = insert l (set ls)"
proof -
  have "set (take pos ls) \<union> set (drop pos ls) = set ls"
    by (metis append_take_drop_id set_append)
  then show ?thesis by (auto simp: insert_lock_def)
qed

lemma insert_lock_not_Nil [simp]: "insert_lock pos l ls \<noteq> []"
  by (simp add: insert_lock_def)

lemma mset_insert_lock: "mset (insert_lock pos l ls) = add_mset l (mset ls)"
proof -
  have "mset (take pos ls) + mset (drop pos ls) = mset ls"
    by (simp flip: mset_append)
  then show ?thesis by (simp add: insert_lock_def)
qed

lemma touch_obs [lock_obs]:
  "locks_on (touch rid lm) = locks_on lm" "queue_on (touch rid lm) = queue_on lm"
  "index_of (touch rid lm) = index_of lm" "completed_txns (touch rid lm) = completed_txns lm"
  "resource_parent (touch rid lm) = resource_parent lm"
  by (auto simp: touch_def locks_on_def queue_on_def index_of_def fun_eq_iff)

lemma grant_lock_obs [lock_obs]:
  "locks_on (grant_lock tid rid ty ls lm) =
     (locks_on lm)(rid := insert_lock (draw (alloc_order lm)) (new_Lock tid ty) ls)"
  "queue_on (grant_lock tid rid ty ls lm) = queue_on lm"
  "index_of (grant_lock tid rid ty ls lm) = (index_of lm)(tid := finsert rid (index_of lm tid))"
  "completed_txns (grant_lock tid rid ty ls lm) = completed_txns lm"
  "resource_parent (grant_lock tid rid ty ls lm) = resource_parent lm"
  by (auto simp: grant_lock_def locks_on_def queue_on_def index_of_def fun_eq_iff)

lemma enqueue_obs [lock_obs]:
  "locks_on (enqueue_request tid rid ty lm) = locks_on lm"
  "queue_on (enqueue_request tid rid ty lm) =
     (queue_on lm)(rid := (if \<exists>q\<in>set (queue_on lm rid). req_txn q = tid then queue_on lm rid
        else queue_on lm rid @ [\<lparr>req_txn = tid, req_type = ty\<rparr>]))"
  "index_of (enqueue_request tid rid ty lm) = index_of lm"
  "completed_txns (enqueue_request tid rid ty lm) = completed_txns lm"
  "resource_parent (enqueue_request tid rid ty lm) = resource_parent lm"
  by (auto simp: enqueue_request_def locks_on_def queue_on_def index_of_def fun_eq_iff
      Let_def list_ex_iff)

lemma setParent_obs [lock_obs]:
  "locks_on (setResourceParent c p lm) = locks_on lm"
  "queue_on (setResourceParent c p lm) = queue_on lm"
  "index_of (setResourceParent c p lm) = index_of lm"
  "completed_txns (setResourceParent c p lm) = completed_txns lm"
  by (auto simp: setResourceParent_def locks_on_def queue_on_def index_of_def)

section \<open>Compatibility is symmetric\<close>

lemma isCompatible_sym: "isCompatible a b = isCompatible b a"
  by (auto simp: isCompatible_def)

lemma exclusive_conflicts [simp]: "\<not> isCompatible EXCLUSIVE b" "\<not> isCompatible a EXCLUSIVE"
  by (simp_all add: isCompatible_def)

lemma compatible_with_iff: "compatible_with ls ty \<longleftrightarrow> (\<forall>l\<in>set ls. isCompatible (lock_type l) ty)"
  using isCompatible_sym by (auto simp: compatible_with_def list_all_iff)

lemma upgrade_compatible_iff:
  "upgrade_compatible tid ls ty \<longleftrightarrow>
     (\<forall>l\<in>set ls. lock_txn l = tid \<or> isCompatible (lock_type l) ty)"
  using isCompatible_sym by (auto simp: upgrade_compatible_def list_all_iff)

section \<open>The outcomes of one request\<close>

lemma requestLockOnResource_unfold:
  "requestLockOnResource tid rid ty lm =
     (if tid |\<in>| completed_txns lm then (False, lm)
      else case find (\<lambda>l. lock_txn l = tid) (locks_on lm rid) of
             Some existing \<Rightarrow>
               if lock_type existing = ty \<or> lock_type existing = EXCLUSIVE then (True, touch rid lm)
               else if upgrade_compatible tid (locks_on lm rid) ty
                 then (True, grant_lock tid rid ty (remove1 existing (locks_on lm rid)) (touch rid lm))
               else (False, enqueue_request tid rid ty (touch rid lm))
           | None \<Rightarrow>
               if compatible_with (locks_on lm rid) ty
                 then (True, grant_lock tid rid ty (locks_on lm rid) (touch rid lm))
               else (False, enqueue_request tid rid ty (touch rid lm)))"
  unfolding requestLockOnResource_def touch_def locks_on_def Let_def by (rule refl)

lemma requestLockOnResource_cases:
  assumes "requestLockOnResource tid rid ty lm = (b, lm')"
  obtains
    (refused) "tid |\<in>| completed_txns lm" "\<not> b" "lm' = lm"
  | (held) l where "tid |\<notin>| completed_txns lm" "b" "l \<in> set (locks_on lm rid)"
      "lock_txn l = tid" "lock_type l = ty \<or> lock_type l = EXCLUSIVE" "lm' = touch rid lm"
  | (upgraded) l where "tid |\<notin>| completed_txns lm" "b" "l \<in> set (locks_on lm rid)"
      "lock_txn l = tid" "lock_type l \<noteq> EXCLUSIVE" "lock_type l \<noteq> ty"
      "\<And>l'. l' \<in> set (locks_on lm rid) \<Longrightarrow> lock_txn l' \<noteq> tid \<Longrightarrow> isCompatible (lock_type l') ty"
      "lm' = grant_lock tid rid ty (remove1 l (locks_on lm rid)) (touch rid lm)"
  | (granted) "tid |\<notin>| completed_txns lm" "b"
      "\<And>l. l \<in> set (locks_on lm rid) \<Longrightarrow> lock_txn l \<noteq> tid \<and> isCompatible (lock_type l) ty"
      "lm' = grant_lock tid rid ty (locks_on lm rid) (touch rid lm)"
  | (queued) l where "tid |\<notin>| completed_txns lm" "\<not> b" "l \<in> set (locks_on lm rid)"
      "lock_txn l \<noteq> tid" "\<not> isCompatible (lock_type l) ty"
      "lm' = enqueue_request tid rid ty (touch rid lm)"
proof (cases "tid |\<in>| completed_txns lm")
  case True
  then have "\<not> b" "lm' = lm" using assms by (simp_all add: requestLockOnResource_unfold)
  with True show ?thesis by (rule refused)
next
  case live: False
  show ?thesis
  proof (cases "find (\<lambda>l. lock_txn l = tid) (locks_on lm rid)")
    case None
    then have no: "\<And>l. l \<in> set (locks_on lm rid) \<Longrightarrow> lock_txn l \<noteq> tid"
      by (auto simp: find_None_iff)
    show ?thesis
    proof (cases "compatible_with (locks_on lm rid) ty")
      case True
      then have "b" "lm' = grant_lock tid rid ty (locks_on lm rid) (touch rid lm)"
        using assms live None by (simp_all add: requestLockOnResource_unfold)
      moreover have "lock_txn l \<noteq> tid \<and> isCompatible (lock_type l) ty"
        if "l \<in> set (locks_on lm rid)" for l
        using that no True by (simp add: compatible_with_iff)
      ultimately show ?thesis using granted live by blast
    next
      case False
      then obtain l where l: "l \<in> set (locks_on lm rid)" "\<not> isCompatible (lock_type l) ty"
        by (auto simp: compatible_with_iff)
      have "\<not> b" "lm' = enqueue_request tid rid ty (touch rid lm)"
        using assms live None False by (simp_all add: requestLockOnResource_unfold)
      then show ?thesis using queued [OF live _ l(1) no [OF l(1)] l(2)] by blast
    qed
  next
    case (Some l)
    then have l: "l \<in> set (locks_on lm rid)" "lock_txn l = tid"
      by (auto simp: find_Some_iff)
    consider "lock_type l = ty \<or> lock_type l = EXCLUSIVE"
      | (up) "lock_type l \<noteq> ty" "lock_type l \<noteq> EXCLUSIVE" "upgrade_compatible tid (locks_on lm rid) ty"
      | (no) "lock_type l \<noteq> ty" "lock_type l \<noteq> EXCLUSIVE" "\<not> upgrade_compatible tid (locks_on lm rid) ty"
      by blast
    then show ?thesis
    proof cases
      case 1
      show ?thesis
        by (rule held [of l]) (use assms live Some l 1 in \<open>auto simp: requestLockOnResource_unfold\<close>)
    next
      case up
      show ?thesis
        by (rule upgraded [of l])
          (use assms live Some l up in \<open>auto simp: requestLockOnResource_unfold upgrade_compatible_iff\<close>)
    next
      case no
      then obtain l' where "l' \<in> set (locks_on lm rid)" "lock_txn l' \<noteq> tid" "\<not> isCompatible (lock_type l') ty"
        by (auto simp: upgrade_compatible_iff)
      then show ?thesis
        by (rule queued [of l', rotated 2])
          (use assms live Some l no in \<open>auto simp: requestLockOnResource_unfold\<close>)
    qed
  qed
qed

section \<open>The invariant\<close>

definition compat_ok :: "LockManager \<Rightarrow> bool" where
  "compat_ok lm \<longleftrightarrow>
     (\<forall>rid. \<forall>l\<in>set (locks_on lm rid). \<forall>l'\<in>set (locks_on lm rid).
        lock_txn l \<noteq> lock_txn l' \<longrightarrow> isCompatible (lock_type l) (lock_type l'))"

definition index_ok :: "LockManager \<Rightarrow> bool" where
  "index_ok lm \<longleftrightarrow>
     (\<forall>tid rid. tid |\<notin>| completed_txns lm \<longrightarrow>
        (rid |\<in>| index_of lm tid \<longleftrightarrow> hasLock tid rid lm))"

definition queue_ok :: "LockManager \<Rightarrow> bool" where
  "queue_ok lm \<longleftrightarrow>
     (\<forall>rid. (queue_on lm rid \<noteq> [] \<longrightarrow> locks_on lm rid \<noteq> []) \<and>
        distinct (map req_txn (queue_on lm rid)))"

definition lm_inv :: "LockManager \<Rightarrow> bool" where
  "lm_inv lm \<longleftrightarrow> compat_ok lm \<and> index_ok lm \<and> queue_ok lm"

subsection \<open>Requests\<close>

lemma hasLock_grant:
  "hasLock t r (grant_lock tid rid ty ls lm) \<longleftrightarrow>
     (if r = rid then t = tid \<or> (\<exists>l\<in>set ls. lock_txn l = t) else hasLock t r lm)"
  by (auto simp: hasLock_locks_on lock_obs)

lemma hasLock_obs [lock_obs]:
  "hasLock t r (touch rid lm) = hasLock t r lm"
  "hasLock t r (enqueue_request tid rid ty lm) = hasLock t r lm"
  "hasLock t r (setResourceParent c p lm) = hasLock t r lm"
  by (simp_all add: hasLock_locks_on lock_obs)

lemma bex_remove1: "\<exists>k\<in>set ls. P k \<Longrightarrow> \<not> P l \<Longrightarrow> \<exists>k\<in>set (remove1 l ls). P k"
  by (metis in_set_remove1)

lemma remove1_other:
  "lock_txn l = tid \<Longrightarrow> t \<noteq> tid \<Longrightarrow>
   (\<exists>k\<in>set (remove1 l ls). lock_txn k = t) \<longleftrightarrow> (\<exists>k\<in>set ls. lock_txn k = t)"
  by (metis in_set_remove1)

lemma compat_ok_grant:
  assumes "compat_ok lm" and "set ls \<subseteq> set (locks_on lm rid)"
    and "\<And>l. l \<in> set ls \<Longrightarrow> lock_txn l \<noteq> tid \<Longrightarrow> isCompatible (lock_type l) ty"
  shows "compat_ok (grant_lock tid rid ty ls lm)"
  using assms isCompatible_sym unfolding compat_ok_def lock_obs
  by (simp add: subset_iff) blast

lemma compat_ok_touch [simp]: "compat_ok (touch rid lm) \<longleftrightarrow> compat_ok lm"
  and index_ok_touch [simp]: "index_ok (touch rid lm) \<longleftrightarrow> index_ok lm"
  and queue_ok_touch [simp]: "queue_ok (touch rid lm) \<longleftrightarrow> queue_ok lm"
  by (simp_all add: compat_ok_def index_ok_def queue_ok_def lock_obs)

lemma compat_ok_enqueue [simp]: "compat_ok (enqueue_request tid rid ty lm) \<longleftrightarrow> compat_ok lm"
  and index_ok_enqueue [simp]: "index_ok (enqueue_request tid rid ty lm) \<longleftrightarrow> index_ok lm"
  by (simp_all add: compat_ok_def index_ok_def lock_obs)

lemma queue_ok_enqueue:
  "queue_ok lm \<Longrightarrow> locks_on lm rid \<noteq> [] \<Longrightarrow> queue_ok (enqueue_request tid rid ty lm)"
  by (auto simp: queue_ok_def lock_obs)

lemma queue_ok_grant: "queue_ok lm \<Longrightarrow> queue_ok (grant_lock tid rid ty ls lm)"
  by (auto simp: queue_ok_def lock_obs)

lemma index_ok_grant:
  assumes "index_ok lm"
    and "\<And>t. t \<noteq> tid \<Longrightarrow> (\<exists>l\<in>set ls. lock_txn l = t) \<longleftrightarrow> (\<exists>l\<in>set (locks_on lm rid). lock_txn l = t)"
  shows "index_ok (grant_lock tid rid ty ls lm)"
  using assms unfolding index_ok_def hasLock_grant
  by (auto simp: lock_obs hasLock_locks_on)

lemma lm_inv_requestLockOnResource:
  assumes "lm_inv lm" and "requestLockOnResource tid rid ty lm = (b, lm')"
  shows "lm_inv lm'"
  using assms(2)
proof (cases rule: requestLockOnResource_cases)
  case refused
  then show ?thesis using assms(1) by simp
next
  case (held l)
  then show ?thesis using assms(1) by (simp add: lm_inv_def)
next
  case (upgraded l)
  have "compat_ok lm'"
    unfolding upgraded(8) using assms(1) upgraded(7)
    by (intro compat_ok_grant) (auto simp: lm_inv_def lock_obs dest: subsetD [OF set_remove1_subset])
  moreover have "index_ok lm'"
    unfolding upgraded(8) using assms(1) remove1_other [OF upgraded(4)]
    by (intro index_ok_grant) (auto simp: lm_inv_def lock_obs)
  ultimately show ?thesis
    using assms(1) by (simp add: upgraded(8) lm_inv_def queue_ok_grant)
next
  case granted
  then show ?thesis
    using assms(1) by (simp add: lm_inv_def lock_obs compat_ok_grant index_ok_grant queue_ok_grant)
next
  case (queued l)
  then have "locks_on (touch rid lm) rid \<noteq> []" by (auto simp: lock_obs)
  then show ?thesis
    using assms(1) queued(6) by (simp add: lm_inv_def queue_ok_enqueue)
qed

text \<open>A property every single request keeps is kept by the walk down the ancestors.\<close>

lemma request_ancestors_keeps:
  assumes step: "\<And>a lm b lm'. P lm \<Longrightarrow> requestLockOnResource tid a ty lm = (b, lm') \<Longrightarrow> P lm'"
  shows "P lm \<Longrightarrow> request_ancestors tid as ty lm = (b, lm') \<Longrightarrow> P lm'"
proof (induction as arbitrary: lm)
  case Nil
  then show ?case by simp
next
  case (Cons a as)
  obtain c lm1 where c: "requestLockOnResource tid a ty lm = (c, lm1)" by fastforce
  note P1 = step [OF Cons.prems(1) c]
  show ?case
  proof (cases c)
    case True
    with Cons.prems(2) c have "request_ancestors tid as ty lm1 = (b, lm')" by simp
    with P1 show ?thesis by (rule Cons.IH)
  next
    case False
    with Cons.prems(2) c P1 show ?thesis by simp
  qed
qed

lemma requestLock_cases:
  assumes "requestLock tid rid ty lm = (b, lm')"
  obtains
    (refused) "tid |\<in>| completed_txns lm" "\<not> b" "lm' = lm"
  | (blocked) "tid |\<notin>| completed_txns lm" "\<not> b" "getAncestorIntentionType ty \<noteq> NONE"
      "request_ancestors tid (rev (collect_ancestors (resource_parent lm) rid []))
         (getAncestorIntentionType ty) lm = (False, lm')"
  | (passed) lm1 where "tid |\<notin>| completed_txns lm" "getAncestorIntentionType ty \<noteq> NONE"
      "request_ancestors tid (rev (collect_ancestors (resource_parent lm) rid []))
         (getAncestorIntentionType ty) lm = (True, lm1)"
      "requestLockOnResource tid rid ty lm1 = (b, lm')"
  | (plain) "tid |\<notin>| completed_txns lm" "getAncestorIntentionType ty = NONE"
      "requestLockOnResource tid rid ty lm = (b, lm')"
proof (cases "tid |\<in>| completed_txns lm")
  case True
  then have "\<not> b" "lm' = lm" using assms by (simp_all add: requestLock_def)
  with True show ?thesis by (rule refused)
next
  case live: False
  show ?thesis
  proof (cases "getAncestorIntentionType ty = NONE")
    case True
    then have "requestLockOnResource tid rid ty lm = (b, lm')"
      using assms live by (simp add: requestLock_def ensureAncestorIntentionLocks_def)
    with live True show ?thesis by (rule plain)
  next
    case False
    obtain c lm1 where c: "request_ancestors tid (rev (collect_ancestors (resource_parent lm) rid []))
        (getAncestorIntentionType ty) lm = (c, lm1)" by fastforce
    then have e: "ensureAncestorIntentionLocks tid rid ty lm = (c, lm1)"
      using False by (simp add: ensureAncestorIntentionLocks_def)
    show ?thesis
    proof (cases c)
      case True
      then have "requestLockOnResource tid rid ty lm1 = (b, lm')"
        using assms live e by (simp add: requestLock_def)
      then show ?thesis using passed [OF live False] c True by simp
    next
      case no: False
      then have "\<not> b" "lm' = lm1" using assms live e by (simp_all add: requestLock_def)
      then show ?thesis using blocked [OF live _ False] c no by simp
    qed
  qed
qed

lemma requestLock_keeps:
  assumes step: "\<And>a y lm b lm'. P lm \<Longrightarrow> requestLockOnResource tid a y lm = (b, lm') \<Longrightarrow> P lm'"
    and P: "P lm" and req: "requestLock tid rid ty lm = (b, lm')"
  shows "P lm'"
proof -
  have walk: "P lm2" if "request_ancestors tid as y lm = (c, lm2)" for as y c lm2
    using request_ancestors_keeps [of P tid y lm as c lm2] step P that by blast
  from req show ?thesis
  proof (cases rule: requestLock_cases)
    case (passed lm1)
    then show ?thesis using walk step by blast
  next
    case plain
    then show ?thesis using step P by blast
  qed (use P walk in auto)
qed

lemma lm_inv_requestLock:
  "lm_inv lm \<Longrightarrow> requestLock tid rid ty lm = (b, lm') \<Longrightarrow> lm_inv lm'"
  by (rule requestLock_keeps [of lm_inv]) (rule lm_inv_requestLockOnResource)

subsection \<open>Releases\<close>

definition drop_locks :: "u32 \<Rightarrow> u32 \<Rightarrow> LockManager \<Rightarrow> LockManager" where
  "drop_locks tid rid lm =
     forget_txn_lock tid rid (lm\<lparr>resource_locks :=
       fmupd rid (filter (\<lambda>l. lock_txn l \<noteq> tid) (locks_on lm rid)) (resource_locks lm)\<rparr>)"

lemma forget_txn_lock_obs:
  "resource_locks (forget_txn_lock tid rid lm) = resource_locks lm"
  "wait_queues (forget_txn_lock tid rid lm) = wait_queues lm"
  "completed_txns (forget_txn_lock tid rid lm) = completed_txns lm"
  "resource_parent (forget_txn_lock tid rid lm) = resource_parent lm"
  "index_of (forget_txn_lock tid rid lm) t = (if t = tid then index_of lm tid |-| {|rid|} else index_of lm t)"
  by (auto simp: forget_txn_lock_def Let_def index_of_def map_at_def split: option.split)

lemma drop_locks_obs [lock_obs]:
  "locks_on (drop_locks tid rid lm) =
     (locks_on lm)(rid := filter (\<lambda>l. lock_txn l \<noteq> tid) (locks_on lm rid))"
  "queue_on (drop_locks tid rid lm) = queue_on lm"
  "index_of (drop_locks tid rid lm) = (index_of lm)(tid := index_of lm tid |-| {|rid|})"
  "completed_txns (drop_locks tid rid lm) = completed_txns lm"
  "resource_parent (drop_locks tid rid lm) = resource_parent lm"
  by (simp_all add: drop_locks_def locks_on_def queue_on_def forget_txn_lock_obs fun_eq_iff)
    (simp_all add: index_of_def)

lemma grant_queue_step:
  "grant_queue rid (q # qs) lm =
     (if compatible_with (locks_on lm rid) (req_type q)
      then grant_queue rid qs (grant_lock (req_txn q) rid (req_type q) (locks_on lm rid) lm)
      else (q # qs, lm))"
  by (simp add: Let_def locks_on_def)

declare grant_queue.simps(2) [simp del]

lemma grant_queue_frame:
  "grant_queue rid qs lm = (qs', lm') \<Longrightarrow>
   queue_on lm' = queue_on lm \<and> completed_txns lm' = completed_txns lm \<and>
   resource_parent lm' = resource_parent lm \<and> (\<forall>r. r \<noteq> rid \<longrightarrow> locks_on lm' r = locks_on lm r)"
  by (induction qs arbitrary: lm) (auto simp: grant_queue_step lock_obs split: if_splits)

lemma grant_queue_spec:
  "grant_queue rid qs lm = (qs', lm') \<Longrightarrow>
   \<exists>gs. qs = gs @ qs' \<and>
      mset (locks_on lm' rid) =
        mset (locks_on lm rid) + mset (map (\<lambda>q. new_Lock (req_txn q) (req_type q)) gs) \<and>
      (\<forall>t. index_of lm' t = (if t \<in> req_txn ` set gs then finsert rid (index_of lm t) else index_of lm t)) \<and>
      (qs' \<noteq> [] \<longrightarrow> \<not> compatible_with (locks_on lm' rid) (req_type (hd qs')))"
proof (induction qs arbitrary: lm)
  case Nil
  then show ?case by simp
next
  case (Cons q qs)
  let ?lm = "grant_lock (req_txn q) rid (req_type q) (locks_on lm rid) lm"
  show ?case
  proof (cases "compatible_with (locks_on lm rid) (req_type q)")
    case True
    then have "grant_queue rid qs ?lm = (qs', lm')" using Cons.prems by (simp add: grant_queue_step)
    from Cons.IH [OF this] obtain gs where gs: "qs = gs @ qs'"
      "mset (locks_on lm' rid) = mset (locks_on ?lm rid) +
         mset (map (\<lambda>q. new_Lock (req_txn q) (req_type q)) gs)"
      "\<forall>t. index_of lm' t = (if t \<in> req_txn ` set gs then finsert rid (index_of ?lm t) else index_of ?lm t)"
      "qs' \<noteq> [] \<longrightarrow> \<not> compatible_with (locks_on lm' rid) (req_type (hd qs'))"
      by blast
    then show ?thesis
      by (intro exI [of _ "q # gs"]) (auto simp: lock_obs mset_insert_lock)
  next
    case False
    then show ?thesis using Cons.prems by (auto simp: grant_queue_step)
  qed
qed

lemma compat_ok_grant_queue:
  "compat_ok lm \<Longrightarrow> grant_queue rid qs lm = (qs', lm') \<Longrightarrow> compat_ok lm'"
proof (induction qs arbitrary: lm)
  case Nil
  then show ?case by simp
next
  case (Cons q qs)
  show ?case
  proof (cases "compatible_with (locks_on lm rid) (req_type q)")
    case True
    then have "compat_ok (grant_lock (req_txn q) rid (req_type q) (locks_on lm rid) lm)"
      using Cons.prems(1) by (intro compat_ok_grant) (auto simp: compatible_with_iff)
    then show ?thesis using Cons True by (simp add: grant_queue_step)
  next
    case False
    then show ?thesis using Cons.prems by (simp add: grant_queue_step)
  qed
qed

lemma index_ok_grant_queue:
  "index_ok lm \<Longrightarrow> grant_queue rid qs lm = (qs', lm') \<Longrightarrow> index_ok lm'"
proof (induction qs arbitrary: lm)
  case Nil
  then show ?case by simp
next
  case (Cons q qs)
  then show ?case
    using index_ok_grant [OF Cons.prems(1), of _ "locks_on lm rid" rid]
    by (auto simp: grant_queue_step split: if_splits)
qed

lemma drop_if_empty_obs: "map_at [] (drop_if_empty m k) = map_at [] m"
  by (auto simp: drop_if_empty_def fun_eq_iff)

lemma processWaitQueue_obs:
  obtains lm2 qs' where "grant_queue rid (queue_on lm rid) (touch rid lm) = (qs', lm2)"
    "locks_on (processWaitQueue rid lm) = locks_on lm2"
    "queue_on (processWaitQueue rid lm) = (queue_on lm)(rid := qs')"
    "index_of (processWaitQueue rid lm) = index_of lm2"
    "completed_txns (processWaitQueue rid lm) = completed_txns lm"
    "resource_parent (processWaitQueue rid lm) = resource_parent lm"
proof (cases "fmlookup (wait_queues lm) rid")
  case None
  then have "queue_on lm rid = []" by (simp add: queue_on_def map_at_def)
  with None that [of "[]" "touch rid lm"] show ?thesis
    by (simp add: processWaitQueue_def lock_obs fun_upd_idem)
next
  case (Some queue)
  then have q: "queue_on lm rid = queue" by (simp add: queue_on_def map_at_def)
  obtain qs' lm2 where g: "grant_queue rid queue (touch rid lm) = (qs', lm2)" by fastforce
  have "processWaitQueue rid lm = lm2\<lparr>wait_queues := fmupd rid qs' (wait_queues lm2)\<rparr>"
    using Some g by (simp add: processWaitQueue_def touch_def locks_on_def)
  moreover have "queue_on lm2 = queue_on lm" "completed_txns lm2 = completed_txns lm"
    "resource_parent lm2 = resource_parent lm"
    using grant_queue_frame [OF g] by (simp_all add: lock_obs)
  ultimately show ?thesis
    using that [of qs' lm2] g q
    by (simp add: locks_on_def index_of_def queue_on_def fun_eq_iff)
qed

lemma releaseLock_cases:
  assumes "releaseLock tid rid lm = (b, lm')"
  obtains
    (rejected) "\<not> b" "lm' = lm" "tid |\<in>| completed_txns lm \<Longrightarrow> \<not> hasLock tid rid lm"
  | (released) qs' lm2 where "tid |\<in>| completed_txns lm" "b" "hasLock tid rid lm"
      "grant_queue rid (queue_on lm rid) (touch rid (drop_locks tid rid lm)) = (qs', lm2)"
      "locks_on lm' = locks_on lm2" "queue_on lm' = (queue_on lm)(rid := qs')"
      "index_of lm' = index_of lm2" "completed_txns lm' = completed_txns lm"
      "resource_parent lm' = resource_parent lm"
proof (cases "tid |\<in>| completed_txns lm \<and> hasLock tid rid lm")
  case False
  have "\<not> b \<and> lm' = lm"
    using assms False
    by (auto simp: releaseLock_def hasLock_locks_on locks_on_def map_at_def Let_def
        split: option.splits if_splits)
  with False show ?thesis by (intro rejected) auto
next
  case True
  then obtain locks where l: "fmlookup (resource_locks lm) rid = Some locks"
    and ex: "\<exists>l\<in>set locks. lock_txn l = tid"
    by (auto simp: hasLock_def list_ex_iff split: option.splits)
  let ?d = "drop_locks tid rid lm"
  have d: "?d = forget_txn_lock tid rid (lm\<lparr>resource_locks :=
      fmupd rid (filter (\<lambda>l. lock_txn l \<noteq> tid) locks) (resource_locks lm)\<rparr>)"
    using l by (simp add: drop_locks_def locks_on_def map_at_def)
  obtain lm2 qs' where g: "grant_queue rid (queue_on ?d rid) (touch rid ?d) = (qs', lm2)"
    "locks_on (processWaitQueue rid ?d) = locks_on lm2"
    "queue_on (processWaitQueue rid ?d) = (queue_on ?d)(rid := qs')"
    "index_of (processWaitQueue rid ?d) = index_of lm2"
    "completed_txns (processWaitQueue rid ?d) = completed_txns ?d"
    "resource_parent (processWaitQueue rid ?d) = resource_parent ?d"
    by (rule processWaitQueue_obs)
  let ?p = "processWaitQueue rid ?d"
  have "b" and lm': "lm' = ?p\<lparr>resource_locks := drop_if_empty (resource_locks ?p) rid,
      wait_queues := drop_if_empty (wait_queues ?p) rid\<rparr>"
    using assms True l ex by (simp_all add: releaseLock_def Let_def d)
  have "locks_on lm' = locks_on ?p" "queue_on lm' = queue_on ?p" "index_of lm' = index_of ?p"
    "completed_txns lm' = completed_txns ?p" "resource_parent lm' = resource_parent ?p"
    by (simp_all add: lm' locks_on_def queue_on_def index_of_def drop_if_empty_obs fun_eq_iff)
  then show ?thesis
    using released [of qs' lm2] \<open>b\<close> True g by (simp add: lock_obs)
qed

subsection \<open>Releases keep the invariant\<close>

lemma index_ok_drop:
  "index_ok lm \<Longrightarrow> tid |\<in>| completed_txns lm \<Longrightarrow> index_ok (drop_locks tid rid lm)"
  by (auto simp: index_ok_def lock_obs hasLock_locks_on)

lemma compat_ok_drop: "compat_ok lm \<Longrightarrow> compat_ok (drop_locks tid rid lm)"
  by (auto simp: compat_ok_def lock_obs)

lemma lm_inv_releaseLock:
  assumes "lm_inv lm" and "releaseLock tid rid lm = (b, lm')"
  shows "lm_inv lm'"
  using assms(2)
proof (cases rule: releaseLock_cases)
  case rejected
  then show ?thesis using assms(1) by simp
next
  case (released qs' lm2)
  note g = released(4)
  have "compat_ok lm2"
    using compat_ok_grant_queue [OF _ g] assms(1) by (simp add: compat_ok_drop lm_inv_def)
  moreover have "index_ok lm2"
    using index_ok_grant_queue [OF _ g] assms(1) released(1) by (simp add: index_ok_drop lm_inv_def)
  moreover have c: "completed_txns lm2 = completed_txns lm"
    and other: "\<And>r. r \<noteq> rid \<Longrightarrow> locks_on lm2 r = locks_on lm r"
    using grant_queue_frame [OF g] by (simp_all add: lock_obs)
  moreover have "queue_ok lm'"
  proof -
    obtain gs where gs: "queue_on lm rid = gs @ qs'"
      "qs' \<noteq> [] \<longrightarrow> \<not> compatible_with (locks_on lm2 rid) (req_type (hd qs'))"
      using grant_queue_spec [OF g] by blast
    then have "qs' \<noteq> [] \<longrightarrow> locks_on lm2 rid \<noteq> []" by (auto simp: compatible_with_iff)
    moreover have "distinct (map req_txn (queue_on lm rid))"
      using assms(1) unfolding lm_inv_def queue_ok_def by blast
    then have "distinct (map req_txn qs')" unfolding gs(1) by simp
    ultimately show ?thesis
      using assms(1) other by (simp add: lm_inv_def queue_ok_def released(5,6))
  qed
  ultimately show ?thesis
    by (simp add: lm_inv_def compat_ok_def index_ok_def hasLock_locks_on released)
qed

lemma lm_inv_release_loop:
  "lm_inv lm \<Longrightarrow> release_loop tid rids any lm = (b, lm') \<Longrightarrow> lm_inv lm'"
proof (induction rids arbitrary: any lm)
  case Nil
  then show ?case by simp
next
  case (Cons rid rids)
  obtain c lm1 where c: "releaseLock tid rid lm = (c, lm1)" by fastforce
  then show ?case using Cons lm_inv_releaseLock by (metis release_loop.simps(2) prod.case)
qed

lemma completed_releaseLock: "releaseLock tid rid lm = (b, lm') \<Longrightarrow> completed_txns lm' = completed_txns lm"
  by (erule releaseLock_cases) simp_all

lemma completed_release_loop:
  "release_loop tid rids any lm = (b, lm') \<Longrightarrow> completed_txns lm' = completed_txns lm"
proof (induction rids arbitrary: any lm)
  case (Cons rid rids)
  obtain c lm1 where "releaseLock tid rid lm = (c, lm1)" by fastforce
  then show ?case using Cons completed_releaseLock by fastforce
qed simp

text \<open>The two ways through \<open>completeTransaction\<close>, on the observers.\<close>

definition mark_completed :: "u32 \<Rightarrow> LockManager \<Rightarrow> LockManager" where
  "mark_completed tid lm = lm\<lparr>completed_txns := finsert tid (completed_txns lm)\<rparr>"

lemma mark_completed_obs [lock_obs]:
  "locks_on (mark_completed tid lm) = locks_on lm" "queue_on (mark_completed tid lm) = queue_on lm"
  "index_of (mark_completed tid lm) = index_of lm"
  "completed_txns (mark_completed tid lm) = finsert tid (completed_txns lm)"
  "resource_parent (mark_completed tid lm) = resource_parent lm"
  by (simp_all add: mark_completed_def locks_on_def queue_on_def index_of_def fun_eq_iff)

lemma completeTransaction_cases:
  assumes "completeTransaction tid lm = (b, lm')"
  obtains
    (idle) "b" "index_of lm tid = {||}" "lm' = mark_completed tid lm"
  | (held) lm2 where "release_loop tid (set_elems (index_of lm tid)) False (mark_completed tid lm) = (b, lm2)"
      "locks_on lm' = locks_on lm2" "queue_on lm' = queue_on lm2"
      "index_of lm' = (index_of lm2)(tid := {||})" "completed_txns lm' = completed_txns lm2"
      "resource_parent lm' = resource_parent lm2"
proof (cases "fmlookup (txn_locks lm) tid")
  case None
  then have "b" "lm' = mark_completed tid lm"
    using assms by (simp_all add: completeTransaction_def mark_completed_def)
  then show ?thesis using None idle by (simp add: index_of_def map_at_def)
next
  case (Some rids)
  then have i: "index_of lm tid = rids" by (simp add: index_of_def map_at_def)
  obtain lm2 where r: "release_loop tid (set_elems rids) False (mark_completed tid lm) = (b, lm2)"
    and "lm' = lm2\<lparr>txn_locks := fmdrop tid (txn_locks lm2)\<rparr>"
    using assms Some by (auto simp: completeTransaction_def mark_completed_def split: prod.splits)
  then show ?thesis
    using held [of lm2] i by (simp add: locks_on_def queue_on_def index_of_def fun_eq_iff)
qed

lemma lm_inv_mark_completed: "lm_inv lm \<Longrightarrow> lm_inv (mark_completed tid lm)"
  by (auto simp: lm_inv_def compat_ok_def index_ok_def queue_ok_def lock_obs hasLock_locks_on)

lemma lm_inv_completeTransaction:
  assumes "lm_inv lm" and "completeTransaction tid lm = (b, lm')"
  shows "lm_inv lm'"
  using assms(2)
proof (cases rule: completeTransaction_cases)
  case idle
  then show ?thesis using assms(1) by (simp add: lm_inv_mark_completed)
next
  case (held lm2)
  have "lm_inv lm2" by (rule lm_inv_release_loop [OF lm_inv_mark_completed [OF assms(1)] held(1)])
  moreover have "tid |\<in>| completed_txns lm2"
    using completed_release_loop [OF held(1)] by (simp add: lock_obs)
  ultimately show ?thesis
    by (auto simp: lm_inv_def compat_ok_def index_ok_def queue_ok_def hasLock_locks_on held)
qed

end
