(* ===== verification/LockProps.thy ===== *)
theory LockProps
  imports LockSafety
begin

text \<open>
  The promises of the lock manager to its clients, over arbitrary interleavings of its
  operations: what a granted request gives, strict two-phase locking (a lock is kept until
  its transaction completes), mutual exclusion of writers, FIFO hand-over, and release at
  completion. The last section states where the code does not keep the promise its
  comments make: locks granted to finished waiters and locks weakened by a later request.
\<close>

section \<open>The operations as steps\<close>

inductive lm_step :: "LockManager \<Rightarrow> LockManager \<Rightarrow> bool" where
  lm_request: "requestLock tid rid ty lm = (b, lm') \<Longrightarrow> lm_step lm lm'"
| lm_release: "releaseLock tid rid lm = (b, lm') \<Longrightarrow> lm_step lm lm'"
| lm_complete: "completeTransaction tid lm = (b, lm') \<Longrightarrow> lm_step lm lm'"
| lm_parent: "lm_step lm (setResourceParent child parent lm)"

lemma lm_inv_new [simp]: "lm_inv (new_LockManager order)"
  by (simp add: lm_inv_def compat_ok_def index_ok_def queue_ok_def new_LockManager_def
      locks_on_def queue_on_def index_of_def hasLock_def)

lemma lm_inv_setParent [simp]: "lm_inv (setResourceParent c p lm) \<longleftrightarrow> lm_inv lm"
  by (simp add: lm_inv_def compat_ok_def index_ok_def queue_ok_def lock_obs)

interpretation lock_mgr: safety "\<lambda>lm. \<exists>order. lm = new_LockManager order" lm_step lm_inv
proof
  show "lm_inv lm" if "\<exists>order. lm = new_LockManager order" for lm
    using that by auto
  show "lm_inv lm'" if "lm_inv lm" "lm_step lm lm'" for lm lm'
    using that(2,1)
    by cases (auto dest: lm_inv_requestLock lm_inv_releaseLock lm_inv_completeTransaction)
qed

section \<open>Locks are kept\<close>

lemma requestOn_keeps_other:
  assumes "holds_lock lm t r y" and "t \<noteq> tid" and "requestLockOnResource tid rid ty lm = (b, lm')"
  shows "holds_lock lm' t r y"
  using assms(3)
proof (cases rule: requestLockOnResource_cases)
  case (upgraded l)
  then show ?thesis
    using assms(1,2) bex_remove1 [of "locks_on lm rid" "\<lambda>k. lock_txn k = t \<and> lock_type k = y" l]
    by (auto simp: holds_lock_def lock_obs)
qed (use assms(1) in \<open>auto simp: holds_lock_def lock_obs\<close>)

lemma requestOn_keeps_exclusive:
  assumes "holds_lock lm t r EXCLUSIVE" and "requestLockOnResource tid rid ty lm = (b, lm')"
  shows "holds_lock lm' t r EXCLUSIVE"
  using assms(2)
proof (cases rule: requestLockOnResource_cases)
  case (upgraded l)
  then show ?thesis
    using assms(1) bex_remove1 [of "locks_on lm rid" "\<lambda>k. lock_txn k = t \<and> lock_type k = EXCLUSIVE" l]
    by (auto simp: holds_lock_def lock_obs)
qed (use assms(1) in \<open>auto simp: holds_lock_def lock_obs\<close>)

lemma requestOn_keeps_hasLock:
  assumes "hasLock t r lm" and "requestLockOnResource tid rid ty lm = (b, lm')"
  shows "hasLock t r lm'"
  using assms(2)
proof (cases rule: requestLockOnResource_cases)
  case (upgraded l)
  then show ?thesis
    using assms(1) bex_remove1 [of "locks_on lm rid" "\<lambda>k. lock_txn k = t" l]
    by (auto simp: hasLock_locks_on lock_obs)
qed (use assms(1) in \<open>auto simp: hasLock_locks_on lock_obs\<close>)

lemma requestOn_frame:
  assumes "requestLockOnResource tid rid ty lm = (b, lm')"
  shows "completed_txns lm' = completed_txns lm" "resource_parent lm' = resource_parent lm"
    "r \<noteq> rid \<Longrightarrow> locks_on lm' r = locks_on lm r" "r \<noteq> rid \<Longrightarrow> queue_on lm' r = queue_on lm r"
  using assms by (auto elim!: requestLockOnResource_cases simp: lock_obs)

lemma requestLock_frame:
  assumes "requestLock tid rid ty lm = (b, lm')"
  shows "completed_txns lm' = completed_txns lm \<and> resource_parent lm' = resource_parent lm"
  by (rule requestLock_keeps [of "\<lambda>x. completed_txns x = completed_txns lm \<and> resource_parent x = resource_parent lm",
        OF _ _ assms]) (auto dest: requestOn_frame)

lemma requestLock_keeps_other:
  "holds_lock lm t r y \<Longrightarrow> t \<noteq> tid \<Longrightarrow> requestLock tid rid ty lm = (b, lm') \<Longrightarrow> holds_lock lm' t r y"
  by (rule requestLock_keeps [of "\<lambda>lm. holds_lock lm t r y"]) (auto intro: requestOn_keeps_other)

lemma requestLock_keeps_exclusive:
  "holds_lock lm t r EXCLUSIVE \<Longrightarrow> requestLock tid rid ty lm = (b, lm') \<Longrightarrow> holds_lock lm' t r EXCLUSIVE"
  by (rule requestLock_keeps [of "\<lambda>lm. holds_lock lm t r EXCLUSIVE"])
    (auto intro: requestOn_keeps_exclusive)

lemma requestLock_keeps_hasLock:
  "hasLock t r lm \<Longrightarrow> requestLock tid rid ty lm = (b, lm') \<Longrightarrow> hasLock t r lm'"
  by (rule requestLock_keeps [of "hasLock t r"]) (auto intro: requestOn_keeps_hasLock)

lemma set_grant_queue:
  "grant_queue rid qs lm = (qs', lm') \<Longrightarrow> set (locks_on lm r) \<subseteq> set (locks_on lm' r)"
proof (cases "r = rid")
  case True
  assume "grant_queue rid qs lm = (qs', lm')"
  from grant_queue_spec [OF this] True show ?thesis
    by (metis mset_subset_eq_add_left set_mset_mono set_mset_mset)
next
  case False
  assume "grant_queue rid qs lm = (qs', lm')"
  with False show ?thesis by (auto dest: grant_queue_frame)
qed

lemma release_keeps_other:
  assumes "holds_lock lm t r y" and "t \<noteq> tid" and "releaseLock tid rid lm = (b, lm')"
  shows "holds_lock lm' t r y"
  using assms(3)
proof (cases rule: releaseLock_cases)
  case rejected
  then show ?thesis using assms(1) by simp
next
  case (released qs' lm2)
  have "holds_lock (drop_locks tid rid lm) t r y"
    using assms(1,2) by (auto simp: holds_lock_def lock_obs)
  then show ?thesis
    using set_grant_queue [OF released(4), of r]
    by (auto simp: holds_lock_def released(5) lock_obs)
qed

lemma release_loop_keeps_other:
  "holds_lock lm t r y \<Longrightarrow> t \<noteq> tid \<Longrightarrow> release_loop tid rids any lm = (b, lm') \<Longrightarrow> holds_lock lm' t r y"
proof (induction rids arbitrary: any lm)
  case (Cons rid rids)
  obtain c lm1 where c: "releaseLock tid rid lm = (c, lm1)" by fastforce
  then show ?case using Cons release_keeps_other [OF Cons.prems(1,2) c] by simp
qed simp

lemma complete_keeps_other:
  assumes "holds_lock lm t r y" and "t \<noteq> tid" and "completeTransaction tid lm = (b, lm')"
  shows "holds_lock lm' t r y"
  using assms(3)
proof (cases rule: completeTransaction_cases)
  case idle
  then show ?thesis using assms(1) by (simp add: holds_lock_def lock_obs)
next
  case (held lm2)
  have "holds_lock (mark_completed tid lm) t r y"
    using assms(1) by (simp add: holds_lock_def lock_obs)
  from release_loop_keeps_other [OF this assms(2) held(1)] show ?thesis
    by (simp add: holds_lock_def held(2))
qed

lemma completed_completeTransaction:
  assumes "completeTransaction tid lm = (b, lm')"
  shows "completed_txns lm' = finsert tid (completed_txns lm)"
  using assms
proof (cases rule: completeTransaction_cases)
  case idle
  then show ?thesis by (simp add: lock_obs)
next
  case (held lm2)
  then show ?thesis using completed_release_loop [OF held(1)] by (simp add: lock_obs)
qed

section \<open>What a granted request gives\<close>

lemma requestOn_granted:
  assumes "requestLockOnResource tid rid ty lm = (True, lm')"
  shows "holds_lock lm' tid rid ty \<or> holds_lock lm' tid rid EXCLUSIVE"
  using assms
proof (cases rule: requestLockOnResource_cases)
  case (held l)
  then show ?thesis by (auto simp: holds_lock_def lock_obs)
qed (simp_all add: holds_lock_def lock_obs)

lemma requestLock_granted:
  assumes "requestLock tid rid ty lm = (True, lm')"
  shows "(holds_lock lm' tid rid ty \<or> holds_lock lm' tid rid EXCLUSIVE) \<and> tid |\<notin>| completed_txns lm"
  using assms
proof (cases rule: requestLock_cases)
  case (passed lm1)
  then show ?thesis using requestOn_granted by blast
next
  case plain
  then show ?thesis using requestOn_granted by blast
qed simp_all

lemma exclusive_alone:
  assumes "lm_inv lm" and "holds_lock lm t r EXCLUSIVE" and "hasLock t' r lm"
  shows "t' = t"
  using assms by (fastforce simp: lm_inv_def compat_ok_def holds_lock_def hasLock_locks_on)

section \<open>The contract the engine relies on\<close>

text \<open>The calls a client makes, and a run of them.\<close>

datatype lock_op = Request u32 u32 LockType | Release u32 u32 | Complete u32 | SetParent u32 u32

fun lock_exec :: "lock_op \<Rightarrow> LockManager \<Rightarrow> bool \<times> LockManager" where
  "lock_exec (Request t r y) lm = requestLock t r y lm"
| "lock_exec (Release t r) lm = releaseLock t r lm"
| "lock_exec (Complete t) lm = completeTransaction t lm"
| "lock_exec (SetParent c p) lm = (True, setResourceParent c p lm)"

definition run_lock_ops :: "(lock_op \<Rightarrow> 'm \<Rightarrow> bool \<times> 'm) \<Rightarrow> lock_op list \<Rightarrow> 'm \<Rightarrow> 'm" where
  "run_lock_ops exec ops m = fold (\<lambda>op m. snd (exec op m)) ops m"

lemma run_lock_ops_simps [simp]:
  "run_lock_ops exec [] m = m"
  "run_lock_ops exec (op # ops) m = run_lock_ops exec ops (snd (exec op m))"
  by (simp_all add: run_lock_ops_def)

lemma run_lock_ops_append: "run_lock_ops exec (ops @ ops') m = run_lock_ops exec ops' (run_lock_ops exec ops m)"
  by (simp add: run_lock_ops_def)

text \<open>
  A lock service: a granted request gives a lock at least as strong as the one asked for,
  a writer is alone on its resource, and an exclusive lock stays with its transaction
  until that transaction completes, whatever else is called.
\<close>

locale lock_service =
  fixes exec :: "lock_op \<Rightarrow> 'm \<Rightarrow> bool \<times> 'm"
    and holds :: "'m \<Rightarrow> u32 \<Rightarrow> u32 \<Rightarrow> LockType \<Rightarrow> bool"
    and finished :: "'m \<Rightarrow> u32 \<Rightarrow> bool"
    and ok :: "'m \<Rightarrow> bool"
  assumes ok_exec: "ok m \<Longrightarrow> ok (snd (exec op m))"
    and writer_alone: "ok m \<Longrightarrow> holds m t r EXCLUSIVE \<Longrightarrow> holds m t' r y \<Longrightarrow> t' = t"
    and granted: "fst (exec (Request t r y) m) \<Longrightarrow> \<not> finished m t \<and>
      (holds (snd (exec (Request t r y) m)) t r y \<or> holds (snd (exec (Request t r y) m)) t r EXCLUSIVE)"
    and finished_exec: "finished (snd (exec op m)) t \<longleftrightarrow> finished m t \<or> op = Complete t"
    and exec_keeps: "holds m t r EXCLUSIVE \<Longrightarrow> op \<noteq> Complete t \<Longrightarrow> \<not> finished m t \<or> op \<noteq> Release t r \<Longrightarrow>
      holds (snd (exec op m)) t r EXCLUSIVE"
begin

text \<open>Calls that do not end the lock of \<open>t\<close> on \<open>r\<close>: a release counts only after completion.\<close>

definition keeping :: "u32 \<Rightarrow> u32 \<Rightarrow> 'm \<Rightarrow> lock_op list \<Rightarrow> bool" where
  "keeping t r m ops \<longleftrightarrow> Complete t \<notin> set ops \<and> (finished m t \<longrightarrow> Release t r \<notin> set ops)"

lemma keeping_Cons:
  "keeping t r m (op # ops) \<Longrightarrow> op \<noteq> Complete t \<and> (\<not> finished m t \<or> op \<noteq> Release t r) \<and>
     keeping t r (snd (exec op m)) ops"
  by (auto simp: keeping_def finished_exec)

lemma ok_run: "ok m \<Longrightarrow> ok (run_lock_ops exec ops m)"
  by (induction ops arbitrary: m) (auto simp: ok_exec)

lemma writer_stays: "holds m t r EXCLUSIVE \<Longrightarrow> keeping t r m ops \<Longrightarrow> holds (run_lock_ops exec ops m) t r EXCLUSIVE"
  by (induction ops arbitrary: m) (auto dest!: keeping_Cons intro: exec_keeps)

lemma writer_refuses_others:
  assumes "ok m" and "holds m t r EXCLUSIVE" and "t' \<noteq> t"
  shows "\<not> fst (exec (Request t' r y) m)"
proof
  assume "fst (exec (Request t' r y) m)"
  then have "\<exists>y'. holds (snd (exec (Request t' r y) m)) t' r y'" using granted by blast
  moreover have "holds (snd (exec (Request t' r y) m)) t r EXCLUSIVE" by (rule exec_keeps [OF assms(2)]) simp_all
  ultimately show False using writer_alone [OF ok_exec [OF assms(1)]] assms(3) by blast
qed

lemma writer_excludes:
  assumes "ok m" and "holds m t r EXCLUSIVE" and "keeping t r m ops" and "t' \<noteq> t"
  shows "\<not> fst (exec (Request t' r y) (run_lock_ops exec ops m))"
  using writer_refuses_others [OF ok_run [OF assms(1)] writer_stays [OF assms(2,3)] assms(4)] .

end

text \<open>
  Strict two-phase locking adds that no lock of a live transaction disappears, so that a
  reader, too, keeps writers out until it completes.
\<close>

locale two_phase = lock_service +
  assumes exec_keeps_any: "holds m t r y \<Longrightarrow> op \<noteq> Complete t \<Longrightarrow> \<not> finished m t \<or> op \<noteq> Release t r \<Longrightarrow>
      \<exists>y'. holds (snd (exec op m)) t r y'"
begin

lemma holder_stays:
  "\<exists>y. holds m t r y \<Longrightarrow> keeping t r m ops \<Longrightarrow> \<exists>y. holds (run_lock_ops exec ops m) t r y"
proof (induction ops arbitrary: m)
  case (Cons op ops)
  then show ?case using exec_keeps_any keeping_Cons [OF Cons.prems(2)] by auto
qed simp

lemma holder_blocks_writers:
  assumes "ok m" and "holds m t r y" and "keeping t r m ops" and "t' \<noteq> t"
  shows "\<not> fst (exec (Request t' r EXCLUSIVE) (run_lock_ops exec ops m))"
proof
  let ?m = "run_lock_ops exec ops m"
  let ?n = "snd (exec (Request t' r EXCLUSIVE) ?m)"
  assume g: "fst (exec (Request t' r EXCLUSIVE) ?m)"
  obtain y' where "holds ?m t r y'" using holder_stays [of m t r ops] assms(2,3) by blast
  then have "\<exists>y''. holds ?n t r y''" by (rule exec_keeps_any) simp_all
  then show False
    using writer_alone [OF ok_exec [OF ok_run [OF assms(1)]]] granted [OF g] assms(4) by blast
qed

end

text \<open>The lock manager keeps this contract.\<close>

lemma lock_exec_step: "lm_step lm (snd (lock_exec op lm))"
  by (cases op)
    (auto intro: lm_parent lm_request [OF prod.collapse [symmetric]]
      lm_release [OF prod.collapse [symmetric]] lm_complete [OF prod.collapse [symmetric]])

lemma lm_step_exec: "lm_step lm lm' \<Longrightarrow> \<exists>op. lm' = snd (lock_exec op lm)"
proof (induction rule: lm_step.induct)
  case (lm_request tid rid ty lm b lm')
  then show ?case by (intro exI [of _ "Request tid rid ty"]) simp
next
  case (lm_release tid rid lm b lm')
  then show ?case by (intro exI [of _ "Release tid rid"]) simp
next
  case (lm_complete tid lm b lm')
  then show ?case by (intro exI [of _ "Complete tid"]) simp
next
  case (lm_parent lm c p)
  then show ?case by (intro exI [of _ "SetParent c p"]) simp
qed

lemma lock_exec_completed:
  "completed_txns (snd (lock_exec op lm)) =
     (case op of Complete t \<Rightarrow> finsert t (completed_txns lm) | _ \<Rightarrow> completed_txns lm)"
proof (cases op)
  case (Request t r y)
  then show ?thesis using requestLock_frame [of t r y lm] by (metis lock_exec.simps(1) lock_op.simps(17) prod.collapse)
next
  case (Release t r)
  then show ?thesis using completed_releaseLock [of t r lm] by (metis lock_exec.simps(2) lock_op.simps(18) prod.collapse)
next
  case (Complete t)
  then show ?thesis
    using completed_completeTransaction [of t lm] by (metis lock_exec.simps(3) lock_op.simps(19) prod.collapse)
next
  case (SetParent c p)
  then show ?thesis by (simp add: lock_obs)
qed

lemma release_frame:
  assumes "releaseLock tid rid lm = (b, lm')" and "r \<noteq> rid"
  shows "locks_on lm' r = locks_on lm r"
  using assms(1)
proof (cases rule: releaseLock_cases)
  case (released qs' lm2)
  then show ?thesis using grant_queue_frame [OF released(4)] assms(2) by (simp add: lock_obs)
qed simp

lemma release_keeps:
  assumes "holds_lock lm t r y" and "t |\<notin>| completed_txns lm \<or> (tid, rid) \<noteq> (t, r)"
  shows "holds_lock (snd (releaseLock tid rid lm)) t r y"
proof (cases "tid = t")
  case False
  then show ?thesis using release_keeps_other [OF assms(1)] prod.collapse by metis
next
  case True
  show ?thesis
  proof (cases "t |\<in>| completed_txns lm")
    case True
    then have "r \<noteq> rid" using assms(2) \<open>tid = t\<close> by auto
    then have "locks_on (snd (releaseLock tid rid lm)) r = locks_on lm r"
      using release_frame prod.collapse by metis
    then show ?thesis using assms(1) by (simp add: holds_lock_def)
  next
    case False
    then show ?thesis using assms(1) \<open>tid = t\<close> by (simp add: releaseLock_def)
  qed
qed

lemma lock_exec_keeps:
  assumes "op \<noteq> Complete t" and "t |\<notin>| completed_txns lm \<or> op \<noteq> Release t r"
  shows "holds_lock lm t r EXCLUSIVE \<Longrightarrow> holds_lock (snd (lock_exec op lm)) t r EXCLUSIVE"
    and "hasLock t r lm \<Longrightarrow> hasLock t r (snd (lock_exec op lm))"
proof -
  have other: "holds_lock (snd (lock_exec op lm)) t r y"
    if "holds_lock lm t r y" "\<forall>t' r' y'. op \<noteq> Request t' r' y'" for y
  proof (cases op)
    case (Release tid rid)
    then show ?thesis using release_keeps [OF that(1)] assms(2) by simp
  next
    case (Complete tid)
    then show ?thesis using complete_keeps_other [OF that(1)] assms(1) prod.collapse by (metis lock_exec.simps(3))
  qed (use that in \<open>simp_all add: holds_lock_def lock_obs\<close>)
  show "holds_lock lm t r EXCLUSIVE \<Longrightarrow> holds_lock (snd (lock_exec op lm)) t r EXCLUSIVE"
    using other requestLock_keeps_exclusive [OF _ prod.collapse [symmetric]]
    by (cases op) (metis lock_exec.simps(1), auto)
  show "hasLock t r lm \<Longrightarrow> hasLock t r (snd (lock_exec op lm))"
    using other requestLock_keeps_hasLock [OF _ prod.collapse [symmetric]]
    by (cases op) (metis lock_exec.simps(1), auto simp: hasLock_holds)
qed

interpretation lock_table: two_phase lock_exec holds_lock "\<lambda>lm t. t |\<in>| completed_txns lm" lm_inv
proof
  fix lm :: LockManager and op and t t' r :: u32 and y :: LockType
  show "lm_inv (snd (lock_exec op lm))" if "lm_inv lm"
    using lock_mgr.inv_step [OF that lock_exec_step] .
  show "t' = t" if "lm_inv lm" "holds_lock lm t r EXCLUSIVE" "holds_lock lm t' r y"
    using exclusive_alone [OF that(1,2)] that(3) by (auto simp: hasLock_holds)
  show "t |\<notin>| completed_txns lm \<and>
      (holds_lock (snd (lock_exec (Request t r y) lm)) t r y \<or>
       holds_lock (snd (lock_exec (Request t r y) lm)) t r EXCLUSIVE)" if "fst (lock_exec (Request t r y) lm)"
    using requestLock_granted [of t r y lm "snd (requestLock t r y lm)"] that
    by (metis lock_exec.simps(1) prod.collapse)
  show "t |\<in>| completed_txns (snd (lock_exec op lm)) \<longleftrightarrow> t |\<in>| completed_txns lm \<or> op = Complete t"
    by (auto simp: lock_exec_completed split: lock_op.split)
  assume op: "op \<noteq> Complete t" "\<not> t |\<in>| completed_txns lm \<or> op \<noteq> Release t r"
  show "holds_lock (snd (lock_exec op lm)) t r EXCLUSIVE" if "holds_lock lm t r EXCLUSIVE"
    using lock_exec_keeps(1) [OF op that] .
  show "\<exists>y'. holds_lock (snd (lock_exec op lm)) t r y'" if "holds_lock lm t r y"
    using lock_exec_keeps(2) [OF op] that hasLock_holds by blast
qed

section \<open>Hand-over and release\<close>

lemma release_no_regrant:
  assumes "releaseLock tid rid lm = (b, lm')" and "tid |\<in>| completed_txns lm"
    and "\<forall>q\<in>set (queue_on lm rid). req_txn q \<noteq> tid"
  shows "\<not> hasLock tid rid lm'" and "r \<noteq> rid \<Longrightarrow> locks_on lm' r = locks_on lm r"
    and "set (queue_on lm' r) \<subseteq> set (queue_on lm r)"
proof -
  from assms(1) have "\<not> hasLock tid rid lm' \<and> (r \<noteq> rid \<longrightarrow> locks_on lm' r = locks_on lm r) \<and>
      set (queue_on lm' r) \<subseteq> set (queue_on lm r)"
  proof (cases rule: releaseLock_cases)
    case rejected
    then show ?thesis using assms(2) by simp
  next
    case (released qs' lm2)
    from grant_queue_spec [OF released(4)] obtain gs where gs: "queue_on lm rid = gs @ qs'"
      "mset (locks_on lm2 rid) = mset (locks_on (drop_locks tid rid lm) rid) +
         mset (map (\<lambda>q. new_Lock (req_txn q) (req_type q)) gs)"
      by (auto simp: lock_obs)
    from arg_cong [OF gs(2), of set_mset]
    have "set (locks_on lm' rid) = set (filter (\<lambda>l. lock_txn l \<noteq> tid) (locks_on lm rid)) \<union>
        (\<lambda>q. new_Lock (req_txn q) (req_type q)) ` set gs"
      by (simp add: released(5) lock_obs)
    then show ?thesis
      using gs(1) assms(3) grant_queue_frame [OF released(4)] released
      by (auto simp: hasLock_locks_on lock_obs)
  qed
  then show "\<not> hasLock tid rid lm'" "r \<noteq> rid \<Longrightarrow> locks_on lm' r = locks_on lm r"
    "set (queue_on lm' r) \<subseteq> set (queue_on lm r)" by simp_all
qed

lemma release_loop_no_regrant:
  assumes "release_loop tid rids any lm = (b, lm')" and "tid |\<in>| completed_txns lm"
    and "\<forall>r. \<forall>q\<in>set (queue_on lm r). req_txn q \<noteq> tid"
  shows "hasLock tid r lm' \<Longrightarrow> hasLock tid r lm \<and> r \<notin> set rids"
  using assms
proof (induction rids arbitrary: any lm)
  case Nil
  then show ?case by simp
next
  case (Cons rid rids)
  obtain c lm1 where c: "releaseLock tid rid lm = (c, lm1)" by fastforce
  have q: "\<forall>q\<in>set (queue_on lm rid). req_txn q \<noteq> tid" using Cons.prems(4) by blast
  note rel = release_no_regrant [OF c Cons.prems(3) q]
  have "\<forall>r. \<forall>q\<in>set (queue_on lm1 r). req_txn q \<noteq> tid" using rel(3) Cons.prems(4) by blast
  then have "hasLock tid r lm1 \<and> r \<notin> set rids"
    using Cons c completed_releaseLock [OF c] by simp
  then show ?case using rel(1,2) by (cases "r = rid") (auto simp: hasLock_locks_on)
qed

lemma complete_releases:
  assumes "lm_inv lm" and "tid |\<notin>| completed_txns lm"
    and "\<forall>r. \<forall>q\<in>set (queue_on lm r). req_txn q \<noteq> tid"
    and "completeTransaction tid lm = (b, lm')"
  shows "\<not> hasLock tid r lm'"
  using assms(4)
proof (cases rule: completeTransaction_cases)
  case idle
  then show ?thesis using assms(1,2) by (auto simp: lm_inv_def index_ok_def lock_obs hasLock_locks_on)
next
  case (held lm2)
  have "hasLock tid r lm2 \<Longrightarrow> hasLock tid r lm \<and> r \<notin> set (set_elems (index_of lm tid))"
    using release_loop_no_regrant [OF held(1), of r] assms(3) by (simp add: lock_obs hasLock_locks_on)
  then show ?thesis
    using assms(1,2) held(2) by (auto simp: lm_inv_def index_ok_def hasLock_locks_on)
qed

end
