(* ===== verification/LockClaims.thy ===== *)
theory LockClaims
  imports LockProps
begin

text \<open>
  The walk to the ancestors of a resource, and the properties of the lock manager stated
  over its own operations.
\<close>

lemma lm_inv_snd:
  "lm_inv lm \<Longrightarrow> lm_inv (snd (requestLock t r y lm))" "lm_inv lm \<Longrightarrow> lm_inv (snd (completeTransaction t lm))"
  using lock_table.ok_exec [of lm "Request t r y"] lock_table.ok_exec [of lm "Complete t"] by simp_all

section \<open>The ancestor walk\<close>

definition parent_rel :: "(u32, u32) fmap \<Rightarrow> (u32 \<times> u32) set" where
  "parent_rel m = {(c, p). fmlookup m c = Some p}"

lemma parent_rel_trancl:
  assumes "fmlookup m c = Some p"
  shows "(parent_rel m)\<^sup>+ `` {c} = insert p ((parent_rel m)\<^sup>+ `` {p})"
proof -
  have "(c, x) \<in> (parent_rel m)\<^sup>+ \<longleftrightarrow> x = p \<or> (p, x) \<in> (parent_rel m)\<^sup>+" for x
    using assms by (subst trancl_unfold_left) (auto simp: parent_rel_def rtrancl_eq_or_trancl)
  then show ?thesis by auto
qed

lemma parent_rel_closed:
  assumes "\<forall>a\<in>S. \<forall>b. (a, b) \<in> parent_rel m \<longrightarrow> b \<in> S" and "(a, b) \<in> (parent_rel m)\<^sup>+" and "a \<in> S"
  shows "b \<in> S"
  using assms(2,1,3) by (induction rule: trancl_induct) auto

lemma set_collect_ancestors:
  assumes "\<forall>a\<in>set acc. a \<noteq> rid \<longrightarrow> (\<forall>b. fmlookup m a = Some b \<longrightarrow> b \<in> set acc)"
  shows "set (collect_ancestors m rid acc) = set acc \<union> (parent_rel m)\<^sup>+ `` {rid}"
  using assms
proof (induction m rid acc rule: collect_ancestors.induct)
  case (1 m rid acc)
  show ?case
  proof (cases "fmlookup m rid")
    case None
    then have "(parent_rel m)\<^sup>+ `` {rid} = {}"
      by (auto simp: parent_rel_def dest: tranclD)
    with None show ?thesis by (subst collect_ancestors.simps) simp
  next
    case (Some p)
    show ?thesis
    proof (cases "p \<in> set acc")
      case True
      have closed: "\<forall>a\<in>insert rid (set acc). \<forall>b. (a, b) \<in> parent_rel m \<longrightarrow> b \<in> set acc"
        using 1(2) Some True by (auto simp: parent_rel_def)
      have "(parent_rel m)\<^sup>+ `` {p} \<subseteq> set acc"
        using parent_rel_closed [of "set acc" m p] closed True by blast
      then show ?thesis
        using Some True parent_rel_trancl [OF Some] by (subst collect_ancestors.simps) auto
    next
      case False
      have "\<forall>a\<in>set (acc @ [p]). a \<noteq> p \<longrightarrow> (\<forall>b. fmlookup m a = Some b \<longrightarrow> b \<in> set (acc @ [p]))"
      proof (intro ballI impI allI)
        fix a b
        assume "a \<in> set (acc @ [p])" "a \<noteq> p" "fmlookup m a = Some b"
        then show "b \<in> set (acc @ [p])" using 1(2) Some by (cases "a = rid") auto
      qed
      note 1(1) [OF Some False this]
      then show ?thesis
        using Some False parent_rel_trancl [OF Some] by (subst collect_ancestors.simps) auto
    qed
  qed
qed

lemma distinct_collect_ancestors: "distinct acc \<Longrightarrow> distinct (collect_ancestors m rid acc)"
proof (induction m rid acc rule: collect_ancestors.induct)
  case (1 m rid acc)
  then show ?case by (subst collect_ancestors.simps) (auto split: option.split)
qed

lemma request_ancestors_granted:
  "request_ancestors tid as ty lm = (True, lm') \<Longrightarrow> distinct as \<Longrightarrow>
   (\<forall>a\<in>set as. holds_lock lm' tid a ty \<or> holds_lock lm' tid a EXCLUSIVE) \<and>
   (\<forall>r. r \<notin> set as \<longrightarrow> locks_on lm' r = locks_on lm r)"
proof (induction as arbitrary: lm)
  case Nil
  then show ?case by simp
next
  case (Cons a as)
  obtain c lm1 where c: "requestLockOnResource tid a ty lm = (c, lm1)" by fastforce
  then have "c" and rec: "request_ancestors tid as ty lm1 = (True, lm')"
    using Cons.prems(1) by (auto split: bool.splits)
  then have first: "holds_lock lm1 tid a ty \<or> holds_lock lm1 tid a EXCLUSIVE"
    using requestOn_granted [of tid a ty lm lm1] c by simp
  have ih: "\<forall>a\<in>set as. holds_lock lm' tid a ty \<or> holds_lock lm' tid a EXCLUSIVE"
    "\<forall>r. r \<notin> set as \<longrightarrow> locks_on lm' r = locks_on lm1 r"
    using Cons.IH [OF rec] Cons.prems(2) by simp_all
  moreover have "holds_lock lm' tid a ty \<or> holds_lock lm' tid a EXCLUSIVE"
    using first ih(2) Cons.prems(2) by (simp add: holds_lock_def)
  ultimately show ?case using requestOn_frame(3) [OF c] by simp
qed

section \<open>Waiting\<close>

lemma requestOn_denied:
  assumes "requestLockOnResource tid rid ty lm = (False, lm')" and "tid |\<notin>| completed_txns lm"
  shows "(\<exists>q\<in>set (queue_on lm' rid). req_txn q = tid) \<and>
    (\<exists>t y. t \<noteq> tid \<and> holds_lock lm' t rid y \<and> \<not> isCompatible y ty)"
  using assms(1)
proof (cases rule: requestLockOnResource_cases)
  case (queued l)
  then show ?thesis by (auto simp: lock_obs holds_lock_def)
qed (use assms(2) in simp_all)

lemma request_ancestors_denied:
  "request_ancestors tid as ty lm = (False, lm') \<Longrightarrow> tid |\<notin>| completed_txns lm \<Longrightarrow>
   \<exists>a\<in>set as. (\<exists>q\<in>set (queue_on lm' a). req_txn q = tid) \<and>
      (\<exists>t y. t \<noteq> tid \<and> holds_lock lm' t a y \<and> \<not> isCompatible y ty)"
proof (induction as arbitrary: lm)
  case (Cons a as)
  obtain c lm1 where c: "requestLockOnResource tid a ty lm = (c, lm1)" by fastforce
  show ?case
  proof (cases c)
    case True
    then show ?thesis using Cons c requestOn_frame(1) [OF c] by auto
  next
    case False
    then show ?thesis using Cons.prems c requestOn_denied [of tid a ty lm lm1] by auto
  qed
qed simp

text \<open>After a granted request nothing but the completion ends the lock.\<close>

lemma granted_keeping:
  assumes "requestLock t r y lm = (True, lm')" and "Complete t \<notin> set ops"
  shows "lock_table.keeping t r lm' ops"
  using assms requestLock_granted [OF assms(1)] requestLock_frame [OF assms(1)]
  by (simp add: lock_table.keeping_def)

section \<open>Properties\<close>

text \<open>
  C9: Compatibility of the lock table. In every state the lock manager reaches, through any
  interleaving of requests, releases, completions and hierarchy changes and for every
  order in which the allocator places lock objects, two locks of different transactions on
  one resource are compatible; in particular a holder of an EXCLUSIVE lock is alone.
\<close>
theorem lock_table_compatible:
  assumes "reach (\<lambda>lm. \<exists>order. lm = new_LockManager order) lm_step lm"
    and "holds_lock lm t r y" and "holds_lock lm t' r y'" and "t \<noteq> t'"
  shows "isCompatible y y' \<and> y \<noteq> EXCLUSIVE \<and> y' \<noteq> EXCLUSIVE"
proof -
  have "isCompatible y y'"
    using lock_mgr.reach_inv [OF assms(1)] assms(2-4)
    by (auto simp: lm_inv_def compat_ok_def holds_lock_def)
  then show ?thesis by auto
qed

theorem lock_table_compatible_witness:
  "let lm = snd (requestLock 2 42 SHARED (snd (requestLock 1 42 SHARED (new_LockManager (\<lambda>n. n)))))
   in holds_lock lm 1 42 SHARED \<and> holds_lock lm 2 42 SHARED \<and> isCompatible SHARED SHARED"
proof -
  let ?a = "snd (requestLock 1 42 SHARED (new_LockManager (\<lambda>n. n)))"
  let ?b = "snd (requestLock 2 42 SHARED ?a)"
  have "reach (\<lambda>lm. \<exists>order. lm = new_LockManager order) lm_step ?a"
    by (rule reach_step, rule reach_init, blast, rule lm_request, rule prod.collapse [symmetric])
  then have r: "reach (\<lambda>lm. \<exists>order. lm = new_LockManager order) lm_step ?b"
    by (rule reach_step) (rule lm_request, rule prod.collapse [symmetric])
  have h: "holds_lock ?b 1 42 SHARED" "holds_lock ?b 2 42 SHARED" by code_simp+
  from lock_table_compatible [OF r h] show ?thesis using h by (simp add: Let_def)
qed

text \<open>
  C17: Writers exclude everybody. Once requestLock has granted an EXCLUSIVE lock, whatever
  sequence of requests, releases, completions and hierarchy changes follows, as long as the
  holder itself does not complete, every other transaction's request for that resource, of any type, is refused.
\<close>
theorem writer_excludes_all:
  assumes "lm_inv lm" and "requestLock t r EXCLUSIVE lm = (True, lm')"
    and "Complete t \<notin> set ops" and "t' \<noteq> t"
  shows "\<not> fst (requestLock t' r y (run_lock_ops lock_exec ops lm'))"
proof -
  have "holds_lock lm' t r EXCLUSIVE" using requestLock_granted [OF assms(2)] by simp
  from lock_table.writer_excludes [OF lm_inv_requestLock [OF assms(1,2)] this granted_keeping [OF assms(2,3)] assms(4)]
  show ?thesis by simp
qed

theorem writer_excludes_all_witness:
  "let lm = snd (requestLock 1 7 EXCLUSIVE (new_LockManager (\<lambda>n. 0)))
   in \<not> fst (requestLock 2 7 SHARED
        (run_lock_ops lock_exec [Request 3 7 SHARED, Complete 3, Release 1 7, SetParent 7 9, Request 1 7 SHARED] lm))"
proof -
  have g: "requestLock 1 7 EXCLUSIVE (new_LockManager (\<lambda>n. 0)) =
      (True, snd (requestLock 1 7 EXCLUSIVE (new_LockManager (\<lambda>n. 0))))"
    by (intro prod_eqI; simp) code_simp
  show ?thesis
    unfolding Let_def by (rule writer_excludes_all [OF lm_inv_new g]) simp_all
qed

text \<open>
  Strict two-phase locking for readers. Once requestLock has granted a transaction any
  lock on a resource, no other transaction obtains an EXCLUSIVE lock on it before the
  holder completes, whatever requests, releases, completions of others and hierarchy
  changes come in between.
\<close>
theorem reader_blocks_writers:
  assumes "lm_inv lm" and "requestLock t r y lm = (True, lm')"
    and "Complete t \<notin> set ops" and "t' \<noteq> t"
  shows "\<not> fst (requestLock t' r EXCLUSIVE (run_lock_ops lock_exec ops lm'))"
proof -
  obtain y' where "holds_lock lm' t r y'" using requestLock_granted [OF assms(2)] by blast
  from lock_table.holder_blocks_writers [OF lm_inv_requestLock [OF assms(1,2)] this granted_keeping [OF assms(2,3)] assms(4)]
  show ?thesis by simp
qed

theorem reader_blocks_writers_witness:
  "let lm = snd (requestLock 1 7 SHARED (new_LockManager (\<lambda>n. 0)))
   in \<not> fst (requestLock 2 7 EXCLUSIVE
        (run_lock_ops lock_exec [Request 3 7 SHARED, Complete 3] lm))"
proof -
  have g: "requestLock 1 7 SHARED (new_LockManager (\<lambda>n. 0)) =
      (True, snd (requestLock 1 7 SHARED (new_LockManager (\<lambda>n. 0))))"
    by (intro prod_eqI; simp) code_simp
  show ?thesis
    unfolding Let_def by (rule reader_blocks_writers [OF lm_inv_new g]) simp_all
qed

text \<open>
  Locks are not released early: releaseLock refuses a transaction that has not
  completed and leaves the lock table exactly as it is.
\<close>
theorem releaseLock_strict:
  assumes "tid |\<notin>| completed_txns lm"
  shows "releaseLock tid rid lm = (False, lm)"
  using assms by (simp add: releaseLock_def)

theorem releaseLock_strict_witness:
  "let lm = snd (requestLock 1 7 SHARED (new_LockManager (\<lambda>n. 0)))
   in releaseLock 1 7 lm = (False, lm) \<and> hasLock 1 7 lm"
proof -
  let ?lm = "snd (requestLock 1 7 SHARED (new_LockManager (\<lambda>n. 0)))"
  have "1 |\<notin>| completed_txns ?lm" "hasLock 1 7 ?lm" by code_simp+
  then show ?thesis using releaseLock_strict [of 1 ?lm 7] by (simp add: Let_def)
qed

text \<open>
  C18: Hierarchical locking. When requestLock grants a lock that has an intention type, the
  transaction holds that lock (or an EXCLUSIVE one) on the resource and holds the matching
  intention lock (or an EXCLUSIVE one) on every proper ancestor, the ancestors being all
  resources reachable over the parent links, also when these form a cycle.
\<close>
theorem granted_covers_ancestors:
  assumes "requestLock tid rid ty lm = (True, lm')" and "getAncestorIntentionType ty \<noteq> NONE"
  shows "(holds_lock lm' tid rid ty \<or> holds_lock lm' tid rid EXCLUSIVE) \<and>
    (\<forall>a. (rid, a) \<in> (parent_rel (resource_parent lm))\<^sup>+ \<and> a \<noteq> rid \<longrightarrow>
       holds_lock lm' tid a (getAncestorIntentionType ty) \<or> holds_lock lm' tid a EXCLUSIVE)"
  using assms(1)
proof (cases rule: requestLock_cases)
  case (passed lm1)
  let ?as = "collect_ancestors (resource_parent lm) rid []"
  have as: "set ?as = (parent_rel (resource_parent lm))\<^sup>+ `` {rid}" "distinct ?as"
    by (simp_all add: set_collect_ancestors distinct_collect_ancestors)
  then have "\<forall>a\<in>set ?as. holds_lock lm1 tid a (getAncestorIntentionType ty) \<or> holds_lock lm1 tid a EXCLUSIVE"
    using request_ancestors_granted [OF passed(3)] by simp
  moreover have "a \<noteq> rid \<Longrightarrow> locks_on lm' a = locks_on lm1 a" for a
    by (rule requestOn_frame(3) [OF passed(4)])
  ultimately show ?thesis
    using as requestLock_granted [OF assms(1)] by (auto simp: holds_lock_def)
qed (use assms(2) in simp_all)

theorem granted_covers_ancestors_witness:
  "let lm = setResourceParent 3 2 (setResourceParent 2 1 (new_LockManager (\<lambda>n. 0)));
       lm' = snd (requestLock 9 3 EXCLUSIVE lm)
   in holds_lock lm' 9 2 INTENTION_EXCLUSIVE \<or> holds_lock lm' 9 2 EXCLUSIVE"
proof -
  let ?lm = "setResourceParent 3 2 (setResourceParent 2 1 (new_LockManager (\<lambda>n. 0)))"
  have g: "requestLock 9 3 EXCLUSIVE ?lm = (True, snd (requestLock 9 3 EXCLUSIVE ?lm))"
    by (intro prod_eqI; simp) code_simp
  have "(3, 2) \<in> parent_rel (resource_parent ?lm)"
    by (simp add: parent_rel_def setResourceParent_def new_LockManager_def)
  then show ?thesis
    using granted_covers_ancestors [OF g] by (auto simp: Let_def getAncestorIntentionType_def)
qed





text \<open>
  C26: Release at completion. In a state satisfying the invariant, completing a live
  transaction that is not waiting anywhere leaves it without a lock on any resource, marks
  it completed so that its further requests are refused, and keeps every lock of every
  other transaction.
\<close>
theorem complete_releases_all:
  assumes "lm_inv lm" and "tid |\<notin>| completed_txns lm"
    and "\<forall>r. \<forall>q\<in>set (queue_on lm r). req_txn q \<noteq> tid"
    and "completeTransaction tid lm = (b, lm')"
  shows "(\<forall>r. \<not> hasLock tid r lm') \<and> (\<forall>r y. requestLock tid r y lm' = (False, lm')) \<and>
    (\<forall>t r y. t \<noteq> tid \<and> holds_lock lm t r y \<longrightarrow> holds_lock lm' t r y)"
  using complete_releases [OF assms] complete_keeps_other [OF _ _ assms(4)]
    completed_completeTransaction [OF assms(4)]
  by (simp add: requestLock_def)

theorem complete_releases_all_witness:
  "let lm = snd (requestLock 1 8 EXCLUSIVE (snd (requestLock 1 7 SHARED (new_LockManager (\<lambda>n. 0)))));
       lm' = snd (completeTransaction 1 lm)
   in hasLock 1 7 lm \<and> hasLock 1 8 lm \<and> \<not> hasLock 1 7 lm' \<and> \<not> hasLock 1 8 lm'"
proof -
  let ?a = "snd (requestLock 1 7 SHARED (new_LockManager (\<lambda>n. 0)))"
  let ?lm = "snd (requestLock 1 8 EXCLUSIVE ?a)"
  have inv: "lm_inv ?lm"
    by (intro lm_inv_snd lm_inv_new)
  have h: "1 |\<notin>| completed_txns ?lm" "hasLock 1 7 ?lm" "hasLock 1 8 ?lm" "wait_queues ?lm = fmempty"
    by code_simp+
  then have "\<forall>r. \<forall>q\<in>set (queue_on ?lm r). req_txn q \<noteq> 1" by (simp add: queue_on_def)
  from complete_releases_all [OF inv h(1) this prod.collapse [symmetric]] h show ?thesis
    by (simp add: Let_def)
qed

text \<open>
  A waiting transaction always waits for somebody: in every reachable state a resource
  with a nonempty wait queue has a holder, and no transaction stands twice in one queue.
\<close>
theorem waiters_have_holders:
  assumes "reach (\<lambda>lm. \<exists>order. lm = new_LockManager order) lm_step lm" and "queue_on lm r \<noteq> []"
  shows "(\<exists>t. hasLock t r lm) \<and> distinct (map req_txn (queue_on lm r))"
proof -
  have "queue_ok lm" using lock_mgr.reach_inv [OF assms(1)] by (simp add: lm_inv_def)
  then have "locks_on lm r \<noteq> []" "distinct (map req_txn (queue_on lm r))"
    using assms(2) by (auto simp: queue_ok_def)
  then show ?thesis by (cases "locks_on lm r") (auto simp: hasLock_locks_on)
qed

theorem waiters_have_holders_witness:
  "let lm = snd (requestLock 2 7 SHARED (snd (requestLock 1 7 EXCLUSIVE (new_LockManager (\<lambda>n. 0)))))
   in \<exists>t. hasLock t 7 lm"
proof -
  let ?a = "snd (requestLock 1 7 EXCLUSIVE (new_LockManager (\<lambda>n. 0)))"
  let ?b = "snd (requestLock 2 7 SHARED ?a)"
  have "reach (\<lambda>lm. \<exists>order. lm = new_LockManager order) lm_step ?a"
    by (rule reach_step, rule reach_init, blast, rule lm_request, rule prod.collapse [symmetric])
  then have r: "reach (\<lambda>lm. \<exists>order. lm = new_LockManager order) lm_step ?b"
    by (rule reach_step) (rule lm_request, rule prod.collapse [symmetric])
  have "queue_on ?b 7 \<noteq> []" by code_simp
  from waiters_have_holders [OF r this] show ?thesis by (simp add: Let_def)
qed

section \<open>Where the code breaks its own rules\<close>

text \<open>
  Transaction 2 waits for resource 7 behind transaction 1, completes (commit or abort) while
  waiting, and then transaction 1 completes.
\<close>

definition finished_waiter_run :: "nat oracle_seq \<Rightarrow> LockManager" where
  "finished_waiter_run order =
     (let m1 = snd (requestLock 1 7 EXCLUSIVE (new_LockManager order));
          m2 = snd (requestLock 2 7 EXCLUSIVE m1);
          m3 = snd (completeTransaction 2 m2)
      in snd (completeTransaction 1 m3))"

text \<open>
  Transactions 1 and 2 read resource 7; 1 asks to upgrade and is queued; 2 completes; 1
  repeats its request, which is granted, and completes.
\<close>

definition upgraded_waiter_run :: "nat oracle_seq \<Rightarrow> LockManager" where
  "upgraded_waiter_run order =
     (let m1 = snd (requestLock 1 7 SHARED (new_LockManager order));
          m2 = snd (requestLock 2 7 SHARED m1);
          m3 = snd (requestLock 1 7 EXCLUSIVE m2);
          m4 = snd (completeTransaction 2 m3);
          m5 = snd (requestLock 1 7 EXCLUSIVE m4)
      in snd (completeTransaction 1 m5))"

text \<open>
  Resource 10 is the parent of 11 and 12. Transaction 1 writes 11, then reads 12; then
  transaction 2 asks to read the whole of 10.
\<close>

definition weakened_intention_run :: "nat oracle_seq \<Rightarrow> bool \<times> LockManager" where
  "weakened_intention_run order =
     (let m0 = setResourceParent 12 10 (setResourceParent 11 10 (new_LockManager order));
          m1 = snd (requestLock 1 11 EXCLUSIVE m0);
          m2 = snd (requestLock 1 12 SHARED m1)
      in requestLock 2 10 SHARED m2)"

lemma finished_waiter_inv: "lm_inv (finished_waiter_run order)"
  unfolding finished_waiter_run_def Let_def
  by (intro lm_inv_snd lm_inv_new)

lemma upgraded_waiter_inv: "lm_inv (upgraded_waiter_run order)"
  unfolding upgraded_waiter_run_def Let_def
  by (intro lm_inv_snd lm_inv_new)

lemma finished_waiter_holds:
  "holds_lock (finished_waiter_run order) 2 7 EXCLUSIVE"
  "2 |\<in>| completed_txns (finished_waiter_run order)"
  by code_simp+



text \<open>
  A transaction that waited for an upgrade and obtained it by repeating the request
  leaves its old queue entry behind: when it completes, its own completion grants that
  entry, so that it still holds the EXCLUSIVE lock after completing, and every later
  request of another transaction for the resource is refused.
\<close>
theorem upgraded_waiter_keeps_lock:
  assumes "Complete 1 \<notin> set ops" and "Release 1 7 \<notin> set ops" and "t \<noteq> 1"
  shows "1 |\<in>| completed_txns (upgraded_waiter_run (\<lambda>n. 0)) \<and>
    hasLock 1 7 (upgraded_waiter_run (\<lambda>n. 0)) \<and>
    \<not> fst (requestLock t 7 y
        (run_lock_ops lock_exec ops (upgraded_waiter_run (\<lambda>n. 0))))"
proof -
  have "holds_lock (upgraded_waiter_run (\<lambda>n. 0)) 1 7 EXCLUSIVE"
    "1 |\<in>| completed_txns (upgraded_waiter_run (\<lambda>n. 0))"
    by code_simp+
  then show ?thesis
    using lock_table.writer_excludes [OF upgraded_waiter_inv [of "\<lambda>n. 0"], of 1 7 ops t y] assms
    by (auto simp: hasLock_holds lock_table.keeping_def)
qed

theorem upgraded_waiter_keeps_lock_witness:
  "\<not> fst (requestLock 3 7 SHARED (run_lock_ops lock_exec
      [Request 4 7 SHARED] (upgraded_waiter_run (\<lambda>n. 0))))"
  using upgraded_waiter_keeps_lock [of "[Request 4 7 SHARED]" 3] by simp

text \<open>
  A later request can weaken a lock. After an EXCLUSIVE lock on row 11 the transaction
  holds INTENTION_EXCLUSIVE on the parent 10; reading row 12 replaces that by
  INTENTION_SHARED, and another transaction is then granted SHARED on the whole of 10
  while the first one still holds its EXCLUSIVE lock on row 11.
\<close>
theorem intention_lock_is_weakened:
  "fst (weakened_intention_run (\<lambda>n. 0)) \<and>
   holds_lock (snd (weakened_intention_run (\<lambda>n. 0))) 1 11 EXCLUSIVE \<and>
   \<not> holds_lock (snd (weakened_intention_run (\<lambda>n. 0))) 1 10 INTENTION_EXCLUSIVE \<and>
   holds_lock (snd (weakened_intention_run (\<lambda>n. 0))) 2 10 SHARED \<and>
   1 |\<notin>| completed_txns (snd (weakened_intention_run (\<lambda>n. 0)))"
  by code_simp

text \<open>
  What getLockType reports is faithful: NONE exactly when the resource has no lock
  other than NONE-typed ones, otherwise a type that some transaction really holds there,
  and an EXCLUSIVE or SHARED lock is never hidden behind an intention lock.
\<close>
theorem getLockType_reports:
  "(getLockType r lm = NONE \<longleftrightarrow> (\<forall>t y. holds_lock lm t r y \<longrightarrow> y = NONE)) \<and>
   (getLockType r lm \<noteq> NONE \<longrightarrow> (\<exists>t. holds_lock lm t r (getLockType r lm))) \<and>
   ((\<exists>t. holds_lock lm t r EXCLUSIVE \<or> holds_lock lm t r SHARED) \<longrightarrow>
      getLockType r lm \<in> {EXCLUSIVE, SHARED})"
proof -
  have loop: "lock_type_loop ls ix is =
      (if \<exists>l\<in>set ls. lock_type l \<in> {EXCLUSIVE, SHARED}
       then lock_type (the (find (\<lambda>l. lock_type l \<in> {EXCLUSIVE, SHARED}) ls))
       else if ix \<or> INTENTION_EXCLUSIVE \<in> lock_type ` set ls then INTENTION_EXCLUSIVE
       else if is \<or> INTENTION_SHARED \<in> lock_type ` set ls then INTENTION_SHARED
       else NONE)" for ls ix "is"
    by (induction ls ix "is" rule: lock_type_loop.induct) auto
  have eq: "getLockType r lm = lock_type_loop (locks_on lm r) False False"
    by (simp add: getLockType_def locks_on_def map_at_def split: option.split)
  have found: "\<exists>l\<in>set ls. lock_type l = lock_type (the (find (\<lambda>l. lock_type l \<in> {EXCLUSIVE, SHARED}) ls)) \<and>
      lock_type l \<in> {EXCLUSIVE, SHARED}"
    if "\<exists>l\<in>set ls. lock_type l \<in> {EXCLUSIVE, SHARED}" for ls
    using that by (induction ls) auto
  show ?thesis
  proof (cases "\<exists>l\<in>set (locks_on lm r). lock_type l \<in> {EXCLUSIVE, SHARED}")
    case True
    from found [OF True] obtain l where l: "l \<in> set (locks_on lm r)" "getLockType r lm = lock_type l"
      "lock_type l \<in> {EXCLUSIVE, SHARED}"
      using True by (auto simp: eq loop)
    then show ?thesis by (auto simp: holds_lock_def)
  next
    case no: False
    define T where "T = lock_type ` set (locks_on lm r)"
    have holds: "(\<exists>t. holds_lock lm t r y) \<longleftrightarrow> y \<in> T" for y
      by (auto simp: holds_lock_def T_def)
    have g: "getLockType r lm = (if INTENTION_EXCLUSIVE \<in> T then INTENTION_EXCLUSIVE
        else if INTENTION_SHARED \<in> T then INTENTION_SHARED else NONE)"
      unfolding eq loop T_def using no by simp
    have out: "EXCLUSIVE \<notin> T" "SHARED \<notin> T" using no by (auto simp: T_def)
    have "y = NONE" if "y \<in> T" "INTENTION_EXCLUSIVE \<notin> T" "INTENTION_SHARED \<notin> T" for y
      using that out by (cases y) simp_all
    then have "getLockType r lm = NONE \<longleftrightarrow> (\<forall>y\<in>T. y = NONE)"
      unfolding g by auto
    moreover have "(\<forall>t y. holds_lock lm t r y \<longrightarrow> y = NONE) \<longleftrightarrow> (\<forall>y\<in>T. y = NONE)"
      using holds by blast
    moreover have "\<not> (\<exists>t. holds_lock lm t r EXCLUSIVE \<or> holds_lock lm t r SHARED)"
      using holds out by blast
    moreover have "getLockType r lm \<noteq> NONE \<longrightarrow> getLockType r lm \<in> T"
      unfolding g by simp
    ultimately show ?thesis
      using holds by blast
  qed
qed

theorem getLockType_reports_witness:
  "let lm = snd (requestLock 1 7 SHARED (new_LockManager (\<lambda>n. 0)))
   in getLockType 7 lm \<in> {EXCLUSIVE, SHARED}"
proof -
  let ?lm = "snd (requestLock 1 7 SHARED (new_LockManager (\<lambda>n. 0)))"
  have "holds_lock ?lm 1 7 SHARED" by code_simp
  then show ?thesis using getLockType_reports [of 7 ?lm] by (auto simp: Let_def)
qed

end
