(* ===== verification/Histories.thy ===== *)
theory Histories
  imports Utils "HOL-Library.Product_Lexorder" "HOL-Library.Multiset"
begin

text \<open>
  Histories of transactions, apart from any program. Strict locking is a contract on a
  labelled transition relation: locks of unfinished transactions are kept, a writer is
  alone, an access is made under its lock. From it follows that conflicts go from the
  transaction that finishes first to the other. A history of reads and writes whose
  conflicts are ordered in this way can be rearranged so that every transaction runs alone,
  in the order of finishing, with the same values read and the same memory at the end.
\<close>

section \<open>Accesses and completions\<close>

datatype event = Access u32 u32 LockType | Finish u32

text \<open>Two accesses conflict when one of them is EXCLUSIVE.\<close>

definition conflict :: "LockType \<Rightarrow> LockType \<Rightarrow> bool" where
  "conflict y y' \<longleftrightarrow> y = EXCLUSIVE \<or> y' = EXCLUSIVE"

definition conflicts :: "event list \<Rightarrow> (u32 \<times> u32) set" where
  "conflicts h = {(t1, t2). t1 \<noteq> t2 \<and> (\<exists>xs ys zs r y1 y2.
     h = xs @ Access t1 r y1 # ys @ Access t2 r y2 # zs \<and> conflict y1 y2)}"

definition finish_pos :: "event list \<Rightarrow> u32 \<Rightarrow> nat" where
  "finish_pos h t = length (takeWhile (\<lambda>e. e \<noteq> Finish t) h)"

section \<open>Strict locking\<close>

locale strict_locking =
  fixes step :: "'s \<Rightarrow> event list \<Rightarrow> 's \<Rightarrow> bool"
    and holds :: "'s \<Rightarrow> u32 \<Rightarrow> u32 \<Rightarrow> LockType \<Rightarrow> bool"
    and finished :: "'s \<Rightarrow> u32 \<Rightarrow> bool"
    and ok :: "'s \<Rightarrow> bool"
  assumes one_event: "step s es s' \<Longrightarrow> es = [] \<or> (\<exists>e. es = [e])"
    and ok_step: "step s es s' \<Longrightarrow> ok s \<Longrightarrow> ok s'"
    and finished_step: "step s es s' \<Longrightarrow> finished s' t \<longleftrightarrow> finished s t \<or> es = [Finish t]"
    and access_locked: "step s [Access t r y] s' \<Longrightarrow>
      \<not> finished s' t \<and> (\<exists>y'. holds s' t r y') \<and> (y = EXCLUSIVE \<longrightarrow> holds s' t r EXCLUSIVE)"
    and writer_single: "ok s \<Longrightarrow> holds s t r EXCLUSIVE \<Longrightarrow> holds s t' r y \<Longrightarrow> t' = t"
    and keeps_writer: "step s es s' \<Longrightarrow> \<not> finished s' t \<Longrightarrow> holds s t r EXCLUSIVE \<Longrightarrow> holds s' t r EXCLUSIVE"
    and keeps_holder: "step s es s' \<Longrightarrow> \<not> finished s' t \<Longrightarrow> holds s t r y \<Longrightarrow> \<exists>y'. holds s' t r y'"
begin

lemma trace_split:
  "trace step s (xs @ e # ys) s' \<Longrightarrow> \<exists>u v. trace step s xs u \<and> step u [e] v \<and> trace step v ys s'"
proof (induction s "xs @ e # ys" s' arbitrary: xs rule: trace.induct)
  case (trace_cons s es u fs t)
  consider "es = []" | e' where "es = [e']" using one_event [OF trace_cons(1)] by blast
  then show ?case
  proof cases
    case 1
    then show ?thesis using trace_cons(1,4) trace_cons(3) [of xs] trace_silent [of step s u] by auto
  next
    case (2 e')
    show ?thesis
    proof (cases xs)
      case Nil
      then show ?thesis using 2 trace_cons trace_nil [of step s] by auto
    next
      case (Cons e'' xs')
      then have "e'' = e'" and "fs = xs' @ e # ys" using 2 trace_cons(4) by auto
      then obtain v w where "trace step u xs' v" "step v [e] w" "trace step w ys t"
        using trace_cons(3) by blast
      then show ?thesis
        using trace.trace_cons [where T = step and s = s and es = "[e']" and u = u and fs = xs' and t = v]
          2 trace_cons(1) Cons \<open>e'' = e'\<close> by auto
    qed
  qed
qed simp

lemma ok_trace: "trace step s es s' \<Longrightarrow> ok s \<Longrightarrow> ok s'"
  by (induction rule: trace.induct) (auto dest: ok_step)

lemma finished_trace: "trace step s es s' \<Longrightarrow> finished s' t \<longleftrightarrow> finished s t \<or> Finish t \<in> set es"
proof (induction rule: trace.induct)
  case (trace_cons s es u fs s')
  then show ?case using finished_step [OF trace_cons(1), of t] one_event [OF trace_cons(1)] by auto
qed simp

lemma writer_trace:
  "trace step s es s' \<Longrightarrow> \<not> finished s' t \<Longrightarrow> holds s t r EXCLUSIVE \<Longrightarrow> holds s' t r EXCLUSIVE"
proof (induction rule: trace.induct)
  case (trace_cons s es u fs s')
  then show ?case using keeps_writer finished_trace [OF trace_cons(2)] by blast
qed

lemma holder_trace:
  "trace step s es s' \<Longrightarrow> \<not> finished s' t \<Longrightarrow> \<exists>y. holds s t r y \<Longrightarrow> \<exists>y. holds s' t r y"
proof (induction rule: trace.induct)
  case (trace_cons s es u fs s')
  then show ?case using keeps_holder finished_trace [OF trace_cons(2)] by metis
qed

lemma finished_no_access:
  assumes "trace step s (xs @ Access t r y # ys) s'"
  shows "\<not> finished s t \<and> Finish t \<notin> set xs"
proof -
  obtain u v where "trace step s xs u" "step u [Access t r y] v" using trace_split [OF assms] by blast
  then show ?thesis using access_locked finished_step finished_trace by blast
qed

text \<open>Between two conflicting accesses the first transaction finishes.\<close>

lemma conflict_waits:
  assumes "ok s" and h: "trace step s (xs @ Access t1 r y1 # ys @ Access t2 r y2 # zs) s'"
    and "t1 \<noteq> t2" and "conflict y1 y2"
  shows "Finish t1 \<in> set ys"
proof (rule ccontr)
  assume no: "Finish t1 \<notin> set ys"
  obtain u v where u: "trace step s xs u" "step u [Access t1 r y1] v"
    and v: "trace step v (ys @ Access t2 r y2 # zs) s'"
    using trace_split [OF h] by blast
  obtain w x where w: "trace step v ys w" "step w [Access t2 r y2] x" using trace_split [OF v] by blast
  have vx: "trace step v (ys @ [Access t2 r y2]) x" using trace_append [OF w(1)] trace_single [of step, OF w(2)] by simp
  have okx: "ok x" using ok_step [OF w(2) ok_trace [OF w(1) ok_step [OF u(2) ok_trace [OF u(1) assms(1)]]]] .
  have live: "\<not> finished x t1"
    using finished_trace [OF vx, of t1] access_locked [OF u(2)] no by simp
  show False
  proof (cases "y1 = EXCLUSIVE")
    case True
    then have "holds x t1 r EXCLUSIVE" using writer_trace [OF vx live] access_locked [OF u(2)] by blast
    then show ?thesis using writer_single [OF okx] access_locked [OF w(2)] assms(3) by blast
  next
    case False
    then have "holds x t2 r EXCLUSIVE" using assms(4) access_locked [OF w(2)] by (simp add: conflict_def)
    moreover have "\<exists>y. holds x t1 r y" using holder_trace [OF vx live] access_locked [OF u(2)] by blast
    ultimately show ?thesis using writer_single [OF okx] assms(3) by blast
  qed
qed

text \<open>Every conflict goes from the transaction that finishes first to the other.\<close>

lemma conflict_order:
  assumes "ok s" and h: "trace step s h s'" and "(t1, t2) \<in> conflicts h"
  shows "Finish t1 \<in> set h \<and> finish_pos h t1 < finish_pos h t2"
proof -
  obtain xs ys zs r y1 y2 where split: "h = xs @ Access t1 r y1 # ys @ Access t2 r y2 # zs"
    and ne: "t1 \<noteq> t2" and c: "conflict y1 y2"
    using assms(3) by (auto simp: conflicts_def)
  let ?pre = "xs @ Access t1 r y1 # ys"
  have f1: "Finish t1 \<in> set ?pre" using conflict_waits [OF assms(1) h [unfolded split] ne c] by simp
  have pre: "h = ?pre @ Access t2 r y2 # zs" using split by simp
  have f2: "Finish t2 \<notin> set ?pre" using finished_no_access h unfolding pre by blast
  have "finish_pos h t1 = length (takeWhile (\<lambda>e. e \<noteq> Finish t1) ?pre)"
    unfolding pre finish_pos_def using f1 by (subst takeWhile_append1 [of "Finish t1"]) auto
  also have "\<dots> < length ?pre"
    using f1 by (rule takeWhile_shorter) simp
  also have "length ?pre \<le> finish_pos h t2"
    unfolding pre finish_pos_def using f2 by (subst takeWhile_append2) auto
  finally show ?thesis using f1 pre by (metis UnCI set_append)
qed

lemma conflicts_acyclic:
  assumes "ok s" and "trace step s h s'"
  shows "acyclic (conflicts h)"
proof (rule wf_acyclic)
  have "conflicts h \<subseteq> measure (finish_pos h)" using conflict_order [OF assms] by auto
  then show "wf (conflicts h)" using wf_measure wf_subset by blast
qed

end

section \<open>Reads and writes\<close>

text \<open>Transaction, resource and value; \<open>Done\<close> is the end of a transaction.\<close>

datatype action = Read u32 u32 "32 word" | Write u32 u32 "32 word" | Done u32

fun lock_event :: "action \<Rightarrow> event" where
  "lock_event (Read t r v) = Access t r SHARED"
| "lock_event (Write t r v) = Access t r EXCLUSIVE"
| "lock_event (Done t) = Finish t"

fun action_txn :: "action \<Rightarrow> u32" where
  "action_txn (Read t r v) = t"
| "action_txn (Write t r v) = t"
| "action_txn (Done t) = t"

fun is_data :: "action \<Rightarrow> bool" where
  "is_data (Done t) = False"
| "is_data _ = True"

text \<open>One user alone on a memory: every read returns the value last written.\<close>

type_synonym memory = "u32 \<Rightarrow> 32 word"

fun perform :: "action \<Rightarrow> memory \<Rightarrow> memory" where
  "perform (Write t r v) m = m(r := v)"
| "perform _ m = m"

fun permitted :: "action \<Rightarrow> memory \<Rightarrow> bool" where
  "permitted (Read t r v) m \<longleftrightarrow> m r = v"
| "permitted _ m \<longleftrightarrow> True"

fun legal :: "memory \<Rightarrow> action list \<Rightarrow> bool" where
  "legal m [] \<longleftrightarrow> True"
| "legal m (a # h) \<longleftrightarrow> permitted a m \<and> legal (perform a m) h"

definition outcome :: "memory \<Rightarrow> action list \<Rightarrow> memory" where
  "outcome m h = fold perform h m"

lemma outcome_simps [simp]:
  "outcome m [] = m" "outcome m (a # h) = outcome (perform a m) h"
  "outcome m (h @ h') = outcome (outcome m h) h'"
  by (simp_all add: outcome_def)

lemma legal_append [simp]: "legal m (h @ h') \<longleftrightarrow> legal m h \<and> legal (outcome m h) h'"
  by (induction h arbitrary: m) auto

lemma outcome_unwritten: "\<forall>t v. Write t r v \<notin> set h \<Longrightarrow> outcome m h r = m r"
proof (induction h arbitrary: m)
  case (Cons a h)
  then have "outcome (perform a m) h r = perform a m r" by simp
  moreover have "perform a m r = m r" using Cons.prems by (cases a) auto
  ultimately show ?case by simp
qed simp

lemma legal_data: "legal m (filter is_data h) \<longleftrightarrow> legal m h"
  and outcome_data: "outcome m (filter is_data h) = outcome m h"
proof (induction h arbitrary: m)
  case (Cons a h)
  case 1 show ?case by (cases a) (simp_all add: Cons del: fun_upd_apply)
  case 2 show ?case by (cases a) (simp_all add: Cons del: fun_upd_apply)
qed simp_all

text \<open>Actions on one resource, one of them a write, do not commute; all others do.\<close>

fun clash :: "action \<Rightarrow> action \<Rightarrow> bool" where
  "clash (Read t r v) (Write t' r' v') \<longleftrightarrow> r = r'"
| "clash (Write t r v) (Read t' r' v') \<longleftrightarrow> r = r'"
| "clash (Write t r v) (Write t' r' v') \<longleftrightarrow> r = r'"
| "clash _ _ \<longleftrightarrow> False"

lemma swap:
  assumes "\<not> clash a b"
  shows "legal m (a # b # h) = legal m (b # a # h)" and "outcome m (a # b # h) = outcome m (b # a # h)"
  using assms by (cases a; cases b; auto simp: fun_upd_twist)+

lemma move:
  assumes "\<forall>b\<in>set h. f b < f a \<longrightarrow> \<not> clash a b"
  shows "legal m (insort_key f a h) = legal m (a # h) \<and> outcome m (insort_key f a h) = outcome m (a # h)"
  using assms
proof (induction h arbitrary: m)
  case (Cons b h)
  show ?case
  proof (cases "f a \<le> f b")
    case False
    then have "\<not> clash a b" using Cons.prems by simp
    then show ?thesis using False Cons swap [of a b m h] by simp
  qed simp
qed simp

lemma sort_same:
  assumes "sorted_wrt (\<lambda>a b. clash a b \<longrightarrow> f a \<le> f b) h"
  shows "legal m (sort_key f h) = legal m h \<and> outcome m (sort_key f h) = outcome m h"
  using assms
proof (induction h arbitrary: m)
  case (Cons a h)
  have "\<forall>b\<in>set (sort_key f h). f b < f a \<longrightarrow> \<not> clash a b" using Cons.prems by fastforce
  from move [OF this] show ?case using Cons by simp
qed simp

section \<open>Serial order\<close>

text \<open>The transactions one after the other, in the order in which they finish.\<close>

definition serial_key :: "action list \<Rightarrow> action \<Rightarrow> nat \<times> u32" where
  "serial_key h a = (finish_pos (map lock_event h) (action_txn a), action_txn a)"

definition serialize :: "action list \<Rightarrow> action list" where
  "serialize h = sort_key (serial_key h) (filter is_data h)"

definition serial :: "action list \<Rightarrow> bool" where
  "serial h \<longleftrightarrow> (\<forall>xs a ys b zs. h = xs @ a # ys @ b # zs \<and> action_txn a = action_txn b \<longrightarrow>
     (\<forall>c\<in>set ys. action_txn c = action_txn a))"

definition actions_of :: "u32 \<Rightarrow> action list \<Rightarrow> action list" where
  "actions_of t h = filter (\<lambda>a. is_data a \<and> action_txn a = t) h"

lemma serial_sorted: "sorted (map (serial_key g) h) \<Longrightarrow> serial h"
  unfolding serial_def
proof (intro allI impI ballI, elim conjE)
  fix xs a ys b zs c
  assume s: "sorted (map (serial_key g) h)" and "h = xs @ a # ys @ b # zs" "action_txn a = action_txn b" "c \<in> set ys"
  then have "serial_key g a \<le> serial_key g c \<and> serial_key g c \<le> serial_key g b"
    unfolding sorted_map by (auto simp only: sorted_wrt_append sorted_wrt.simps set_append set_simps)
  moreover have "serial_key g a = serial_key g b" using \<open>action_txn a = action_txn b\<close> by (simp add: serial_key_def)
  ultimately have "serial_key g c = serial_key g a" by (metis antisym)
  then show "action_txn c = action_txn a" by (simp add: serial_key_def)
qed

lemma serialize_serial: "serial (serialize h)"
  unfolding serialize_def by (rule serial_sorted [of h]) (rule sorted_sort_key)

text \<open>The transactions of the serial history stand in the order in which they finish.\<close>

definition finish_ordered :: "action list \<Rightarrow> action list \<Rightarrow> bool" where
  "finish_ordered h s \<longleftrightarrow> sorted_wrt (\<lambda>a b. finish_pos (map lock_event h) (action_txn a) \<le>
     finish_pos (map lock_event h) (action_txn b)) s"

lemma serialize_ordered: "finish_ordered h (serialize h)"
proof -
  have "sorted_wrt (\<lambda>a b. serial_key h a \<le> serial_key h b) (serialize h)"
    using sorted_sort_key [of "serial_key h"] unfolding serialize_def sorted_map by blast
  then show ?thesis
    unfolding finish_ordered_def by (rule sorted_wrt_mono_rel [rotated]) (auto simp: serial_key_def)
qed

lemma serialize_txn: "actions_of t (serialize h) = actions_of t h"
proof -
  have "actions_of t (serialize h) =
      filter is_data (filter (\<lambda>a. serial_key h a = (finish_pos (map lock_event h) t, t)) (serialize h))"
    unfolding actions_of_def filter_filter by (rule filter_cong) (auto simp: serial_key_def)
  also have "\<dots> = filter is_data (filter (\<lambda>a. serial_key h a = (finish_pos (map lock_event h) t, t)) (filter is_data h))"
    by (simp add: serialize_def sort_key_stable)
  also have "\<dots> = actions_of t h"
    unfolding actions_of_def filter_filter by (rule filter_cong) (auto simp: serial_key_def)
  finally show ?thesis .
qed

lemma serialize_mset: "mset (serialize h) = mset (filter is_data h)"
  by (simp add: serialize_def)

lemma clash_conflicts:
  assumes "h = xs @ a # ys @ b # zs" and "clash a b" and "action_txn a \<noteq> action_txn b"
  shows "(action_txn a, action_txn b) \<in> conflicts (map lock_event h)"
proof -
  obtain r y y' where "lock_event a = Access (action_txn a) r y" "lock_event b = Access (action_txn b) r y'" "conflict y y'"
    using assms(2) by (cases a; cases b) (auto simp: conflict_def)
  then show ?thesis using assms(1,3) unfolding conflicts_def by auto blast
qed

lemma sorted_wrt_split:
  "(\<And>xs a ys b zs. h = xs @ a # ys @ b # zs \<Longrightarrow> P a b) \<Longrightarrow> sorted_wrt P h"
proof (induction h)
  case (Cons c h)
  have "P c b" if "b \<in> set h" for b
    using Cons.prems [of "[]" c _ b] that by (metis append_Nil in_set_conv_decomp)
  moreover have "sorted_wrt P h" by (rule Cons.IH) (use Cons.prems [of "c # _"] in simp)
  ultimately show ?case by simp
qed simp

text \<open>When conflicts follow the order of finishing, the serial history is equivalent.\<close>

lemma serialize_equivalent:
  assumes "\<And>t1 t2. (t1, t2) \<in> conflicts (map lock_event h) \<Longrightarrow>
      finish_pos (map lock_event h) t1 < finish_pos (map lock_event h) t2"
  shows "legal m (serialize h) = legal m h \<and> outcome m (serialize h) = outcome m h"
proof -
  have "sorted_wrt (\<lambda>a b. clash a b \<longrightarrow> serial_key h a \<le> serial_key h b) h"
  proof (rule sorted_wrt_split, rule impI)
    fix xs a ys b zs
    assume "h = xs @ a # ys @ b # zs" "clash a b"
    then show "serial_key h a \<le> serial_key h b"
      using assms clash_conflicts by (cases "action_txn a = action_txn b") (auto simp: serial_key_def less_eq_prod_def)
  qed
  then have "sorted_wrt (\<lambda>a b. clash a b \<longrightarrow> serial_key h a \<le> serial_key h b) (filter is_data h)"
    by (rule sorted_wrt_filter)
  from sort_same [OF this] show ?thesis unfolding serialize_def by (simp add: legal_data outcome_data)
qed

end
