(* ===== verification/Serializability.thy ===== *)
theory Serializability
  imports LockProps Histories
begin

text \<open>
  What strict two-phase locking is for. The history of a run of the lock manager is the
  sequence of the accesses it granted and of the completions. In every history a
  conflicting access waits for the completion of the transaction it conflicts with, and so
  the conflicts of all transactions are acyclic: the order of completion is a serial order.
  The argument is made once, in the contract \<open>two_phase\<close>, for every lock service that
  refuses finished transactions.
\<close>

section \<open>Histories\<close>

fun events :: "lock_op \<Rightarrow> bool \<Rightarrow> event list" where
  "events (Request t r y) granted = (if granted then [Access t r y] else [])"
| "events (Complete t) _ = [Finish t]"
| "events (Release t r) _ = []"
| "events (SetParent c p) _ = []"

fun history :: "(lock_op \<Rightarrow> 'm \<Rightarrow> bool \<times> 'm) \<Rightarrow> lock_op list \<Rightarrow> 'm \<Rightarrow> event list" where
  "history exec [] m = []"
| "history exec (op # ops) m = events op (fst (exec op m)) @ history exec ops (snd (exec op m))"

text \<open>One call as a labelled step.\<close>

definition call_step :: "(lock_op \<Rightarrow> 'm \<Rightarrow> bool \<times> 'm) \<Rightarrow> 'm \<Rightarrow> event list \<Rightarrow> 'm \<Rightarrow> bool" where
  "call_step exec m es m' \<longleftrightarrow> (\<exists>op. es = events op (fst (exec op m)) \<and> m' = snd (exec op m))"

lemma history_trace: "trace (call_step exec) m (history exec ops m) (run_lock_ops exec ops m)"
  by (induction ops arbitrary: m) (auto intro!: trace_nil trace_cons simp: call_step_def)

lemma events_single: "events op g = [] \<or> (\<exists>e. events op g = [e])"
  by (cases op) auto

lemma events_access: "events op g = [Access t r y] \<Longrightarrow> op = Request t r y \<and> g"
  by (cases op) (auto split: if_splits)

lemma events_finish: "events op g = [Finish t] \<longleftrightarrow> op = Complete t"
  by (cases op) (auto split: if_splits)

text \<open>Every two-phase lock service is strict.\<close>

sublocale two_phase \<subseteq> strict: strict_locking "call_step exec" holds finished ok
proof
  fix m m' es t r y t'
  assume s: "call_step exec m es m'"
  then obtain op where es: "es = events op (fst (exec op m))" and m': "m' = snd (exec op m)"
    by (auto simp: call_step_def)
  show "es = [] \<or> (\<exists>e. es = [e])" using events_single es by blast
  show "ok m \<Longrightarrow> ok m'" using ok_exec m' by blast
  show "finished m' t \<longleftrightarrow> finished m t \<or> es = [Finish t]"
    using finished_exec m' es events_finish by metis
  show "\<not> finished m' t \<Longrightarrow> holds m t r EXCLUSIVE \<Longrightarrow> holds m' t r EXCLUSIVE"
    using exec_keeps finished_exec m' by blast
  show "\<not> finished m' t \<Longrightarrow> holds m t r y \<Longrightarrow> \<exists>y'. holds m' t r y'"
    using exec_keeps_any finished_exec m' by blast
next
  fix m m' t r y
  assume "call_step exec m [Access t r y] m'"
  then obtain op where e: "events op (fst (exec op m)) = [Access t r y]" and m': "m' = snd (exec op m)"
    by (auto simp: call_step_def)
  have op: "op = Request t r y" and g: "fst (exec (Request t r y) m)" using events_access [OF e] by auto
  show "\<not> finished m' t \<and> (\<exists>y'. holds m' t r y') \<and> (y = EXCLUSIVE \<longrightarrow> holds m' t r EXCLUSIVE)"
    using granted [OF g] m' op finished_exec by auto
qed (use writer_alone in blast)

section \<open>Properties\<close>

text \<open>
  C10: conflict serializability. Whatever sequence of requests, releases, completions and
  hierarchy changes is made of a new lock manager, the conflicts between the accesses it
  grants to different transactions (one of them EXCLUSIVE, on the same resource) form an
  acyclic relation, so that the transactions can be ordered serially without reordering
  any conflict.
\<close>
theorem conflict_serializable:
  "acyclic (conflicts (history lock_exec ops (new_LockManager order)))"
  by (rule lock_table.strict.conflicts_acyclic [OF lm_inv_new history_trace])

text \<open>
  Strictness. In the history of the lock manager from any state satisfying its
  invariant, a transaction accesses what another one accessed in a conflicting way only
  after that one has completed, and the order of the first completions is the serial
  order: every conflict goes from the transaction that completes earlier to one that
  completes later or not at all.
\<close>
theorem conflicts_follow_completion:
  assumes "lm_inv lm" and "(t1, t2) \<in> conflicts (history lock_exec ops lm)"
  shows "Finish t1 \<in> set (history lock_exec ops lm) \<and>
    finish_pos (history lock_exec ops lm) t1 < finish_pos (history lock_exec ops lm) t2"
  by (rule lock_table.strict.conflict_order [OF assms(1) history_trace assms(2)])

theorem conflicts_follow_completion_witness:
  "let h = history lock_exec [Request 1 7 SHARED, Request 2 7 EXCLUSIVE, Complete 1, Request 2 7 EXCLUSIVE]
     (new_LockManager (\<lambda>n. 0))
   in h = [Access 1 7 SHARED, Finish 1, Access 2 7 EXCLUSIVE] \<and> (1, 2) \<in> conflicts h \<and>
      finish_pos h 1 < finish_pos h 2"
proof -
  let ?h = "history lock_exec [Request 1 7 SHARED, Request 2 7 EXCLUSIVE, Complete 1, Request 2 7 EXCLUSIVE]
     (new_LockManager (\<lambda>n. 0))"
  have h: "?h = [Access 1 7 SHARED, Finish 1, Access 2 7 EXCLUSIVE]" by code_simp
  have "?h = [] @ Access 1 7 SHARED # [Finish 1] @ Access 2 7 EXCLUSIVE # [] \<and> conflict SHARED EXCLUSIVE"
    unfolding h by (simp add: conflict_def)
  moreover have "(1::u32) \<noteq> 2" by simp
  ultimately have c: "(1, 2) \<in> conflicts ?h" unfolding conflicts_def by blast
  from conflicts_follow_completion [OF lm_inv_new c] show ?thesis using h c unfolding Let_def by blast
qed

end
