(* ===== verification/WaitForGraph.thy ===== *)
theory WaitForGraph
  imports Prelude
begin

text \<open>
  The wait-for graph, \<^verbatim>\<open>src/concurrency/WaitForGraph.cpp\<close>: edges between
  transactions and cycle detection by a depth-first search with three node colours. The
  recursive member function \<open>detectCycleDFS\<close> and its loop over the neighbours are
  mutually recursive functions threading the colour map; they are total, because every
  call on an uncoloured node colours one more node.
\<close>

section \<open>The graph\<close>

record WaitForGraph =
  graph :: "(u32, u32 fset) fmap"

definition new_WaitForGraph :: WaitForGraph where
  "new_WaitForGraph = \<lparr>graph = fmempty\<rparr>"

definition addEdge :: "u32 \<Rightarrow> u32 \<Rightarrow> WaitForGraph \<Rightarrow> WaitForGraph" where
  "addEdge from_txn to_txn g =
     g\<lparr>graph := fmupd from_txn (finsert to_txn (map_at {||} (graph g) from_txn)) (graph g)\<rparr>"

definition removeEdge :: "u32 \<Rightarrow> u32 \<Rightarrow> WaitForGraph \<Rightarrow> WaitForGraph" where
  "removeEdge from_txn to_txn g =
     (case fmlookup (graph g) from_txn of
        Some ns \<Rightarrow> g\<lparr>graph := fmupd from_txn (ns |-| {|to_txn|}) (graph g)\<rparr>
      | None \<Rightarrow> g)"

section \<open>Depth-first search\<close>

text \<open>The colours: 0 unvisited, 1 visiting, 2 visited; an absent entry reads as 0.\<close>

type_synonym colours = "u32 \<Rightarrow> nat"

definition neighbours :: "WaitForGraph \<Rightarrow> u32 \<Rightarrow> u32 list" where
  "neighbours g node =
     (case fmlookup (graph g) node of Some ns \<Rightarrow> set_elems ns | None \<Rightarrow> [])"

definition unvisited :: "colours \<Rightarrow> u32 set" where
  "unvisited st = {n. st n = 0}"

lemma unvisited_mark [simp]:
  "unvisited (st(n := Suc k)) = unvisited st - {n}" "unvisited (st(n := numeral j)) = unvisited st - {n}"
  "unvisited (st(n := 1)) = unvisited st - {n}"
  by (auto simp: unvisited_def)

text \<open>
  What decreases: first the set of nodes still uncoloured once the call has coloured its
  own node, then the number of neighbours left.
\<close>

fun dfs_rank :: "WaitForGraph \<times> u32 \<times> colours + WaitForGraph \<times> u32 list \<times> colours \<Rightarrow> u32 set \<times> nat" where
  "dfs_rank (Inl (g, node, st)) = (unvisited st - {node}, 2 * length (neighbours g node) + 1)"
| "dfs_rank (Inr (g, ns, st)) = (unvisited st, 2 * length ns)"

function (sequential)
  detectCycleDFS :: "WaitForGraph \<Rightarrow> u32 \<Rightarrow> colours \<Rightarrow> bool \<times> colours" and
  visit_neighbours :: "WaitForGraph \<Rightarrow> u32 list \<Rightarrow> colours \<Rightarrow> bool \<times> colours" where
  "detectCycleDFS g node st =
     (case visit_neighbours g (neighbours g node) (st(node := 1)) of
        (True, st') \<Rightarrow> (True, st')
      | (False, st') \<Rightarrow> (False, st'(node := 2)))"
| "visit_neighbours g [] st = (False, st)"
| "visit_neighbours g (n # ns) st =
     (if st n = 1 then (True, st)
      else if st n = 0 then
        (case detectCycleDFS g n st of
           (True, st') \<Rightarrow> (True, st')
         | (False, st') \<Rightarrow> visit_neighbours g ns st')
      else visit_neighbours g ns st)"
  by pat_completeness auto

lemma dfs_only_colours:
  "detectCycleDFS_visit_neighbours_dom (Inl (g, node, st)) \<Longrightarrow>
     unvisited (snd (detectCycleDFS g node st)) \<subseteq> unvisited st - {node}"
  "detectCycleDFS_visit_neighbours_dom (Inr (g, ns, st)) \<Longrightarrow>
     unvisited (snd (visit_neighbours g ns st)) \<subseteq> unvisited st"
proof (induction g node st and g ns st rule: detectCycleDFS_visit_neighbours.pinduct)
  case (1 g node st)
  then show ?case
    by (auto simp: detectCycleDFS.psimps simp del: fun_upd_apply split: prod.split bool.split)
next
  case (2 g st)
  then show ?case by (simp add: visit_neighbours.psimps)
next
  case (3 g n ns st)
  show ?case
  proof (cases "st n = 0")
    case True
    obtain b st' where d: "detectCycleDFS g n st = (b, st')" by fastforce
    then have "unvisited st' \<subseteq> unvisited st"
      using 3(2) True by auto
    moreover have "unvisited (snd (visit_neighbours g ns st')) \<subseteq> unvisited st'" if "\<not> b"
      using 3(3) [of b st'] True d that by auto
    ultimately show ?thesis
      using 3(1) True d by (cases b) (auto simp: visit_neighbours.psimps)
  next
    case False
    then show ?thesis using 3(1,4) by (auto simp: visit_neighbours.psimps)
  qed
qed

termination detectCycleDFS
proof (relation "inv_image (finite_psubset <*lex*> less_than) dfs_rank")
  show "wf (inv_image (finite_psubset <*lex*> less_than) dfs_rank)"
    by (intro wf_inv_image wf_lex_prod wf_finite_psubset wf_less_than)
next
  fix g :: WaitForGraph and n :: u32 and ns :: "u32 list" and st :: colours
  assume "st n = 0"
  then have "unvisited st - {n} \<subset> unvisited st" by (auto simp: unvisited_def)
  then show "(Inl (g, n, st), Inr (g, n # ns, st)) \<in> inv_image (finite_psubset <*lex*> less_than) dfs_rank"
    by (simp add: finite_psubset_def)
next
  fix g :: WaitForGraph and n :: u32 and ns :: "u32 list" and st st' :: colours and b
  assume "st n = 0" and "(b, st') = detectCycleDFS g n st"
    and dom: "detectCycleDFS_visit_neighbours_dom (Inl (g, n, st))"
  then have "unvisited st' \<subseteq> unvisited st - {n}"
    using dfs_only_colours(1) [OF dom] by (metis snd_conv)
  moreover have "n \<in> unvisited st" using \<open>st n = 0\<close> by (simp add: unvisited_def)
  ultimately have "unvisited st' \<subset> unvisited st" by auto
  then show "(Inr (g, ns, st'), Inr (g, n # ns, st)) \<in> inv_image (finite_psubset <*lex*> less_than) dfs_rank"
    by (simp add: finite_psubset_def)
qed simp_all

declare detectCycleDFS.simps [simp del]

fun cycle_loop :: "WaitForGraph \<Rightarrow> u32 list \<Rightarrow> colours \<Rightarrow> bool" where
  "cycle_loop g [] st = False"
| "cycle_loop g (node # nodes) st =
     (if st node = 0 then
        (case detectCycleDFS g node st of
           (True, st') \<Rightarrow> True
         | (False, st') \<Rightarrow> cycle_loop g nodes st')
      else cycle_loop g nodes st)"

definition hasCycle :: "WaitForGraph \<Rightarrow> bool" where
  "hasCycle g = cycle_loop g (map_keys (graph g)) (\<lambda>_. 0)"

section \<open>The relation the search explores\<close>

definition edges :: "WaitForGraph \<Rightarrow> (u32 \<times> u32) set" where
  "edges g = {(a, b). b |\<in>| map_at {||} (graph g) a}"

definition cyclic :: "WaitForGraph \<Rightarrow> bool" where
  "cyclic g \<longleftrightarrow> (\<exists>n. (n, n) \<in> (edges g)\<^sup>+)"

lemma neighbours_edges: "m \<in> set (neighbours g n) \<longleftrightarrow> (n, m) \<in> edges g"
  by (simp add: neighbours_def edges_def map_at_def split: option.split)

text \<open>A call that finds no cycle gives back the gray nodes it was given.\<close>

definition gray :: "colours \<Rightarrow> u32 set" where
  "gray st = {m. st m = 1}"

lemma gray_mark [simp]:
  "gray (st(n := 1)) = insert n (gray st)" "gray (st(n := Suc 0)) = insert n (gray st)"
  "gray (st(n := 2)) = gray st - {n}"
  by (auto simp: gray_def)

lemma dfs_gray:
  "\<not> fst (detectCycleDFS g node st) \<Longrightarrow> gray (snd (detectCycleDFS g node st)) = gray st - {node}"
  "\<not> fst (visit_neighbours g ns st) \<Longrightarrow> gray (snd (visit_neighbours g ns st)) = gray st"
proof (induction g node st and g ns st rule: detectCycleDFS_visit_neighbours.induct)
  case (1 g node st)
  obtain b st' where v: "visit_neighbours g (neighbours g node) (st(node := 1)) = (b, st')" by fastforce
  have "\<not> b" using 1(2) v by (cases b) (simp_all add: detectCycleDFS.simps)
  then have "gray st' = insert node (gray st)" using 1(1) unfolding v gray_mark fst_conv snd_conv by blast
  with v \<open>\<not> b\<close> show ?case by (simp add: detectCycleDFS.simps del: fun_upd_apply)
next
  case (2 g st)
  then show ?case by simp
next
  case (3 g n ns st)
  show ?case
  proof (cases "st n = 0")
    case True
    obtain b st' where d: "detectCycleDFS g n st = (b, st')" by fastforce
    then have "\<not> b" and rest: "\<not> fst (visit_neighbours g ns st')"
      using 3(4) True by (cases b; simp)+
    then have "gray st' = gray st" using 3(1) True d by (auto simp: gray_def)
    moreover have "gray (snd (visit_neighbours g ns st')) = gray st'"
      using 3(2) [of b st'] True d \<open>\<not> b\<close> rest by simp
    ultimately show ?thesis using True d \<open>\<not> b\<close> by simp
  next
    case False
    then show ?thesis using 3(3,4) by (cases "st n = 1") simp_all
  qed
qed

section \<open>A reported cycle exists\<close>

text \<open>The gray nodes are the current path: each of them reaches the node being explored.\<close>

lemma dfs_sound:
  "\<forall>m\<in>gray st. (m, node) \<in> (edges g)\<^sup>* \<Longrightarrow> fst (detectCycleDFS g node st) \<Longrightarrow> cyclic g"
  "set ns \<subseteq> edges g `` {p} \<Longrightarrow> \<forall>m\<in>gray st. (m, p) \<in> (edges g)\<^sup>* \<Longrightarrow>
   fst (visit_neighbours g ns st) \<Longrightarrow> cyclic g"
proof (induction g node st and g ns st arbitrary: and p rule: detectCycleDFS_visit_neighbours.induct)
  case (1 g node st)
  obtain b st' where v: "visit_neighbours g (neighbours g node) (st(node := 1)) = (b, st')" by fastforce
  have "b" using 1(3) v by (cases b) (simp_all add: detectCycleDFS.simps)
  have "\<forall>m\<in>insert node (gray st). (m, node) \<in> (edges g)\<^sup>*" using 1(2) by simp
  moreover have "set (neighbours g node) \<subseteq> edges g `` {node}" by (auto simp: neighbours_edges)
  ultimately show ?case using 1(1) [of node] \<open>b\<close> unfolding v gray_mark fst_conv by blast
next
  case (2 g st)
  then show ?case by simp
next
  case (3 g n ns st)
  have pn: "(p, n) \<in> edges g" and ns: "set ns \<subseteq> edges g `` {p}" using 3(4) by auto
  consider "st n = 1" | "st n = 0" | "st n \<noteq> 0" "st n \<noteq> 1" by blast
  then show ?case
  proof cases
    case 1
    then have "(n, p) \<in> (edges g)\<^sup>*" using 3(5) by (simp add: gray_def)
    then have "(n, n) \<in> (edges g)\<^sup>+" using pn by (rule rtrancl_into_trancl1)
    then show ?thesis unfolding cyclic_def by blast
  next
    case 2
    obtain b st' where d: "detectCycleDFS g n st = (b, st')" by fastforce
    show ?thesis
    proof (cases b)
      case True
      have "\<forall>m\<in>gray st. (m, n) \<in> (edges g)\<^sup>*" using 3(5) pn by (auto intro: rtrancl_into_rtrancl)
      with 3(1) 2 d True show ?thesis by simp
    next
      case False
      have "gray st' = gray st" using dfs_gray(1) [of g n st] d False 2 by (auto simp: gray_def)
      moreover have "fst (visit_neighbours g ns st')" using 3(6) d False 2 by simp
      ultimately show ?thesis using 3(2) [of b st' p] 2 d False ns 3(5) by simp
    qed
  next
    case 3
    then show ?thesis using "3.IH"(3) [of p] ns "3.prems"(2,3) by simp
  qed
qed

section \<open>A cycle is reported\<close>

text \<open>
  The black nodes are closed under edges and lie on no cycle; a search that reports nothing
  adds the nodes it was asked about to them.
\<close>

definition settled :: "WaitForGraph \<Rightarrow> colours \<Rightarrow> bool" where
  "settled g st \<longleftrightarrow> (\<forall>a. st a \<le> 2) \<and>
     (\<forall>a b. st a = 2 \<and> (a, b) \<in> edges g \<longrightarrow> st b = 2) \<and>
     (\<forall>a. st a = 2 \<longrightarrow> (a, a) \<notin> (edges g)\<^sup>+)"

lemma settled_closed:
  assumes "settled g st" and "(a, b) \<in> (edges g)\<^sup>*" and "st a = 2"
  shows "st b = 2"
  using assms(2,1,3) by (induction rule: rtrancl_induct) (auto simp: settled_def)

lemma settled_start: "settled g st \<Longrightarrow> st n \<noteq> 2 \<Longrightarrow> settled g (st(n := 1))"
  by (auto simp: settled_def)

lemma settled_finish:
  assumes "settled g st" and "st n = 1" and "\<forall>m. (n, m) \<in> edges g \<longrightarrow> st m = 2"
  shows "settled g (st(n := 2))"
proof -
  have "(n, n) \<notin> (edges g)\<^sup>+"
  proof
    assume "(n, n) \<in> (edges g)\<^sup>+"
    then obtain m where "(n, m) \<in> edges g" "(m, n) \<in> (edges g)\<^sup>*" by (auto dest: tranclD)
    then have "st n = 2" using assms(1,3) settled_closed by blast
    with assms(2) show False by simp
  qed
  then show ?thesis using assms by (auto simp: settled_def)
qed

lemma dfs_complete:
  "settled g st \<Longrightarrow> st node \<noteq> 2 \<Longrightarrow> \<not> fst (detectCycleDFS g node st) \<Longrightarrow>
   settled g (snd (detectCycleDFS g node st)) \<and> snd (detectCycleDFS g node st) node = 2 \<and>
   (\<forall>a. st a = 2 \<longrightarrow> snd (detectCycleDFS g node st) a = 2)"
  "settled g st \<Longrightarrow> \<not> fst (visit_neighbours g ns st) \<Longrightarrow>
   settled g (snd (visit_neighbours g ns st)) \<and>
   (\<forall>n\<in>set ns. snd (visit_neighbours g ns st) n = 2) \<and>
   (\<forall>a. st a = 2 \<longrightarrow> snd (visit_neighbours g ns st) a = 2)"
proof (induction g node st and g ns st rule: detectCycleDFS_visit_neighbours.induct)
  case (1 g node st)
  obtain b st' where v: "visit_neighbours g (neighbours g node) (st(node := 1)) = (b, st')" by fastforce
  have nb: "\<not> b" using 1(4) v by (cases b) (simp_all add: detectCycleDFS.simps)
  have ih: "settled g st'" "\<forall>n\<in>set (neighbours g node). st' n = 2" "\<forall>a. (st(node := 1)) a = 2 \<longrightarrow> st' a = 2"
    using 1(1) settled_start [OF 1(2,3)] nb unfolding v fst_conv snd_conv by blast+
  have "node \<in> gray st'" using dfs_gray(2) [of g "neighbours g node" "st(node := 1)", unfolded v] nb by simp
  then have "settled g (st'(node := 2))"
    using ih(1,2) by (intro settled_finish) (auto simp: gray_def neighbours_edges)
  moreover have "detectCycleDFS g node st = (False, st'(node := 2))"
    using v nb by (simp add: detectCycleDFS.simps del: fun_upd_apply)
  moreover have "\<forall>a. st a = 2 \<longrightarrow> (st'(node := 2)) a = 2" using ih(3) 1(3) by simp
  ultimately show ?case by (metis fun_upd_same snd_conv)
next
  case (2 g st)
  then show ?case by simp
next
  case (3 g n ns st)
  have not1: "st n \<noteq> 1" using 3(5) by auto
  show ?case
  proof (cases "st n = 0")
    case True
    obtain b st' where d: "detectCycleDFS g n st = (b, st')" by fastforce
    have nb: "\<not> b" and rest: "\<not> fst (visit_neighbours g ns st')"
      using 3(5) True d by (cases b; simp)+
    have "settled g st' \<and> st' n = 2 \<and> (\<forall>a. st a = 2 \<longrightarrow> st' a = 2)"
      using 3(1,4) True d nb by simp
    then show ?thesis using 3(2) [of b st'] True d nb rest by simp
  next
    case False
    moreover have "st n \<le> 2" using 3(4) by (simp add: settled_def)
    ultimately have "st n = 2" using not1 by linarith
    then show ?thesis using 3(3-5) by simp
  qed
qed

lemma cycle_loop_correct:
  assumes "settled g st" and "gray st = {}"
  shows "cycle_loop g nodes st \<Longrightarrow> cyclic g"
    and "\<not> cycle_loop g nodes st \<Longrightarrow>
      \<exists>st'. settled g st' \<and> (\<forall>n\<in>set nodes. st' n = 2) \<and> (\<forall>a. st a = 2 \<longrightarrow> st' a = 2)"
  using assms
proof (induction nodes arbitrary: st)
  case Nil
  {
    case 1 then show ?case by simp
  next
    case 2 then show ?case by auto
  }
next
  case (Cons n nodes)
  {
    case 1
    obtain b st1 where d: "detectCycleDFS g n st = (b, st1)" by fastforce
    show ?case
    proof (cases "st n = 0 \<and> b")
      case True
      have "\<forall>m\<in>gray st. (m, n) \<in> (edges g)\<^sup>*" using 1(3) by simp
      moreover have "fst (detectCycleDFS g n st)" using True d by (metis fst_conv)
      ultimately show ?thesis by (rule dfs_sound(1))
    next
      case False
      have "settled g st1 \<and> gray st1 = {}" if "st n = 0"
        using dfs_complete(1) [of g st n] dfs_gray(1) [of g n st] d that False 1(2,3) by simp
      then show ?thesis
        using Cons.IH(1) [of st1] Cons.IH(1) [of st] 1 d False by (auto split: if_splits)
    qed
  next
    case 2
    obtain b st1 where d: "detectCycleDFS g n st = (b, st1)" by fastforce
    show ?case
    proof (cases "st n = 0")
      case True
      then have nb: "\<not> b" and loop: "\<not> cycle_loop g nodes st1" using 2(1) d by (cases b; simp)+
      have "settled g st1 \<and> st1 n = 2 \<and> (\<forall>a. st a = 2 \<longrightarrow> st1 a = 2)"
        using dfs_complete(1) [of g st n] d True nb 2(2) by simp
      moreover have "gray st1 = {}" using dfs_gray(1) [of g n st] d nb 2(3) by simp
      ultimately show ?thesis using Cons.IH(2) [OF loop] by (metis set_ConsD)
    next
      case False
      moreover have "st n \<le> 2" "st n \<noteq> 1" using 2(2,3) by (auto simp: settled_def gray_def)
      ultimately have "st n = 2" by linarith
      then show ?thesis using Cons.IH(2) [of st] 2 by (metis cycle_loop.simps(2) set_ConsD zero_neq_numeral)
    qed
  }
qed

lemma hasCycle_iff: "hasCycle g \<longleftrightarrow> cyclic g"
proof
  have start: "settled g (\<lambda>_. 0)" "gray (\<lambda>_. 0) = {}"
    by (auto simp: settled_def gray_def)
  show "hasCycle g \<Longrightarrow> cyclic g"
    unfolding hasCycle_def using cycle_loop_correct(1) [OF start] .
  show "cyclic g \<Longrightarrow> hasCycle g"
  proof (rule ccontr)
    assume c: "cyclic g" and "\<not> hasCycle g"
    then obtain st where st: "settled g st" "\<forall>n\<in>set (map_keys (graph g)). st n = 2"
      unfolding hasCycle_def using cycle_loop_correct(2) [OF start] by blast
    obtain n where n: "(n, n) \<in> (edges g)\<^sup>+" using c unfolding cyclic_def by blast
    then obtain m where "(n, m) \<in> edges g" by (blast dest: tranclD)
    then have "n |\<in>| fmdom (graph g)"
      by (auto simp: edges_def map_at_def in_fmdom_iff split: option.splits)
    then have "st n = 2" using st(2) by simp
    with st(1) n show False by (simp add: settled_def)
  qed
qed

section \<open>Updating the graph\<close>

lemma edges_new [simp]: "edges new_WaitForGraph = {}"
  by (simp add: edges_def new_WaitForGraph_def)

lemma edges_add: "edges (addEdge a b g) = insert (a, b) (edges g)"
  by (auto simp: edges_def addEdge_def split: if_splits)

lemma edges_remove: "edges (removeEdge a b g) = edges g - {(a, b)}"
  by (auto simp: edges_def removeEdge_def map_at_def split: option.splits if_splits)

text \<open>
  The graph as a client uses it: a set of wait-for edges with insertion, deletion and a
  deadlock test. A detector built on these laws may refuse a wait in advance: the wait
  closes a cycle exactly when the other side already waits for it.
\<close>

locale wait_graph =
  fixes rel :: "'g \<Rightarrow> ('t \<times> 't) set" and empty :: 'g
    and add remove :: "'t \<Rightarrow> 't \<Rightarrow> 'g \<Rightarrow> 'g" and deadlock :: "'g \<Rightarrow> bool"
  assumes rel_empty: "rel empty = {}"
    and rel_add: "rel (add a b g) = insert (a, b) (rel g)"
    and rel_remove: "rel (remove a b g) = rel g - {(a, b)}"
    and deadlock_iff: "deadlock g \<longleftrightarrow> (\<exists>n. (n, n) \<in> (rel g)\<^sup>+)"
begin

lemma empty_ok: "\<not> deadlock empty"
  by (simp add: deadlock_iff rel_empty)

lemma remove_ok: "\<not> deadlock g \<Longrightarrow> \<not> deadlock (remove a b g)"
  unfolding deadlock_iff rel_remove by (meson Diff_subset trancl_mono)

lemma add_deadlock: "deadlock (add a b g) \<longleftrightarrow> deadlock g \<or> (b, a) \<in> (rel g)\<^sup>*"
proof -
  have "(\<exists>n. (n, n) \<in> (insert (a, b) (rel g))\<^sup>+) \<longleftrightarrow>
      (\<exists>n. (n, n) \<in> (rel g)\<^sup>+) \<or> (b, a) \<in> (rel g)\<^sup>*"
    unfolding trancl_insert by (auto intro: rtrancl_trans)
  then show ?thesis by (simp add: deadlock_iff rel_add)
qed

lemma add_remove: "(a, b) \<notin> rel g \<Longrightarrow> deadlock (remove a b (add a b g)) = deadlock g"
  by (simp add: deadlock_iff rel_add rel_remove)

lemma fold_add: "rel (fold (\<lambda>(a, b). add a b) es g) = set es \<union> rel g"
  by (induction es arbitrary: g) (auto simp: rel_add)

end

interpretation wait_for: wait_graph edges new_WaitForGraph addEdge removeEdge hasCycle
  by unfold_locales (simp_all add: edges_add edges_remove hasCycle_iff cyclic_def)

text \<open>
  C19: cycle detection is sound and complete: \<open>hasCycle\<close> answers true exactly when some
  transaction waits, through a chain of one or more wait-for edges, for itself; the
  search terminates on every graph, cyclic or not, and nodes that only occur as targets
  of edges do not disturb it.
\<close>
theorem hasCycle_iff_cyclic: "hasCycle g \<longleftrightarrow> (\<exists>n. (n, n) \<in> (edges g)\<^sup>+)"
  by (simp add: hasCycle_iff cyclic_def)

text \<open>
  The deadlock test in advance: adding the edge \<open>a\<close> waits for \<open>b\<close> to a graph without
  a cycle makes \<open>hasCycle\<close> answer true exactly when \<open>b\<close> already waits, directly or
  through others, for \<open>a\<close> (or \<open>a = b\<close>); and removing the edge again clears the answer.
\<close>
theorem addEdge_deadlock:
  assumes "\<not> hasCycle g"
  shows "(hasCycle (addEdge a b g) \<longleftrightarrow> (b, a) \<in> (edges g)\<^sup>*) \<and>
    \<not> hasCycle (removeEdge a b (addEdge a b g))"
proof
  show "hasCycle (addEdge a b g) \<longleftrightarrow> (b, a) \<in> (edges g)\<^sup>*"
    using assms by (simp add: wait_for.add_deadlock)
  have "edges (removeEdge a b (addEdge a b g)) = edges (removeEdge a b g)"
    by (simp add: edges_add edges_remove insert_Diff_if)
  then show "\<not> hasCycle (removeEdge a b (addEdge a b g))"
    using wait_for.remove_ok [OF assms] by (simp add: wait_for.deadlock_iff)
qed

theorem addEdge_deadlock_witness:
  "\<not> hasCycle (addEdge 2 3 (addEdge 1 2 new_WaitForGraph)) \<and>
   hasCycle (addEdge 3 1 (addEdge 2 3 (addEdge 1 2 new_WaitForGraph))) \<and>
   \<not> hasCycle (removeEdge 3 1 (addEdge 3 1 (addEdge 2 3 (addEdge 1 2 new_WaitForGraph))))"
proof -
  let ?g = "addEdge 2 3 (addEdge 1 2 new_WaitForGraph)"
  have "\<not> hasCycle ?g" by code_simp
  moreover have "(1, 3) \<in> (edges ?g)\<^sup>*"
    by (rule rtrancl_trans [of _ 2]) (simp_all add: edges_add r_into_rtrancl)
  ultimately show ?thesis using addEdge_deadlock [of ?g 3 1] by blast
qed

end
