(* ===== verification/Storage.thy ===== *)
theory Storage
  imports Utils
begin

text \<open>
  The storage component: \<^verbatim>\<open>Record\<close> (\<^verbatim>\<open>src/storage/Record.cpp\<close>) and
  \<^verbatim>\<open>DataStore\<close> (\<^verbatim>\<open>src/storage/DataStore.cpp\<close>). A record is a value, the
  store a finite map from record identifiers to records; a null
  \<open>shared_ptr<Record>\<close> is \<open>None\<close>. Clock readings are arguments. The contract of
  a keyed store is the locale \<open>crud_store\<close>, which the data store interprets.
\<close>

section \<open>Record\<close>

record Record =
  record_id :: u32
  data :: bytes
  created_time :: time_point
  modified_time :: time_point

definition new_Record :: "u32 \<Rightarrow> time_point \<Rightarrow> time_point \<Rightarrow> Record" where
  "new_Record rid now1 now2 =
     \<lparr>record_id = rid, data = [], created_time = now1, modified_time = now2\<rparr>"

definition getRecordId :: "Record \<Rightarrow> u32" where
  "getRecordId r = record_id r"

definition getData :: "Record \<Rightarrow> bytes" where
  "getData r = data r"

definition setData :: "bytes \<Rightarrow> time_point \<Rightarrow> Record \<Rightarrow> exn + Record" where
  "setData d now r =
     (if length d > MAX_RECORD_SIZE then Inl Invalid_argument
      else Inr (r\<lparr>data := d, modified_time := now\<rparr>))"

text \<open>For evaluation: the size test on binary integers.\<close>

lemma setData_code [code]:
  "setData d now r =
     (if 1048576 < int (length d) then Inl Invalid_argument
      else Inr (r\<lparr>data := d, modified_time := now\<rparr>))"
  by (simp add: setData_def MAX_RECORD_SIZE_def)

definition getSize :: "Record \<Rightarrow> u64" where
  "getSize r = word_of_nat (length (data r))"

definition getCreatedTime :: "Record \<Rightarrow> time_point" where
  "getCreatedTime r = created_time r"

definition getModifiedTime :: "Record \<Rightarrow> time_point" where
  "getModifiedTime r = modified_time r"

section \<open>DataStore\<close>

record DataStore =
  records :: "(u32, Record) fmap"

definition new_DataStore :: DataStore where
  "new_DataStore = \<lparr>records = fmempty\<rparr>"

definition insertRecord :: "Record option \<Rightarrow> DataStore \<Rightarrow> bool \<times> DataStore" where
  "insertRecord rp s =
     (case rp of
        None \<Rightarrow> (False, s)
      | Some r \<Rightarrow>
          if fmlookup (records s) (getRecordId r) \<noteq> None then (False, s)
          else (True, s\<lparr>records := fmupd (getRecordId r) r (records s)\<rparr>))"

definition getRecord :: "u32 \<Rightarrow> DataStore \<Rightarrow> Record option" where
  "getRecord rid s = (case fmlookup (records s) rid of Some r \<Rightarrow> Some r | None \<Rightarrow> None)"

definition recordExists :: "u32 \<Rightarrow> DataStore \<Rightarrow> bool" where
  "recordExists rid s = (fmlookup (records s) rid \<noteq> None)"

definition deleteRecord :: "u32 \<Rightarrow> DataStore \<Rightarrow> bool \<times> DataStore" where
  "deleteRecord rid s =
     (case fmlookup (records s) rid of
        Some r \<Rightarrow> (True, s\<lparr>records := fmdrop rid (records s)\<rparr>)
      | None \<Rightarrow> (False, s))"

definition updateRecord ::
  "u32 \<Rightarrow> bytes \<Rightarrow> time_point \<Rightarrow> DataStore \<Rightarrow> exn + (bool \<times> DataStore)" where
  "updateRecord rid d now s =
     (case fmlookup (records s) rid of
        Some r \<Rightarrow>
          (case setData d now r of
             Inl e \<Rightarrow> Inl e
           | Inr r' \<Rightarrow> Inr (True, s\<lparr>records := fmupd rid r' (records s)\<rparr>))
      | None \<Rightarrow> Inr (False, s))"

definition getRecordCount :: "DataStore \<Rightarrow> u64" where
  "getRecordCount s = word_of_nat (map_size (records s))"

fun total_size_loop :: "(u32, Record) fmap \<Rightarrow> u32 list \<Rightarrow> u64 \<Rightarrow> u64" where
  "total_size_loop m [] tot = tot"
| "total_size_loop m (rid # rids) tot =
     total_size_loop m rids
       (case fmlookup m rid of Some r \<Rightarrow> tot + getSize r | None \<Rightarrow> tot)"

definition getTotalSize :: "DataStore \<Rightarrow> u64" where
  "getTotalSize s = total_size_loop (records s) (map_keys (records s)) 0"

definition getAllRecordIds :: "DataStore \<Rightarrow> u32 list" where
  "getAllRecordIds s = map_keys (records s)"

definition clear_DataStore :: "DataStore \<Rightarrow> DataStore" where
  "clear_DataStore s = s\<lparr>records := fmempty\<rparr>"

lemmas storage_defs =
  new_Record_def getRecordId_def getData_def setData_def getSize_def new_DataStore_def
  insertRecord_def getRecord_def recordExists_def deleteRecord_def updateRecord_def
  getRecordCount_def getAllRecordIds_def clear_DataStore_def

section \<open>The contract of a keyed store\<close>

text \<open>
  What a client may assume of a store with insertion, lookup and deletion: insertion is
  refused exactly when the key is taken and otherwise adds one binding, deletion is
  refused exactly when the key is absent and otherwise removes one binding, and a refused
  operation leaves the store alone.
\<close>

locale crud_store =
  fixes get :: "'i \<Rightarrow> 's \<Rightarrow> 'r option"
    and ins :: "'r \<Rightarrow> 's \<Rightarrow> bool \<times> 's"
    and del :: "'i \<Rightarrow> 's \<Rightarrow> bool \<times> 's"
    and key :: "'r \<Rightarrow> 'i"
  assumes ins_fresh: "get (key r) s = None \<Longrightarrow>
      fst (ins r s) \<and> get i (snd (ins r s)) = (if i = key r then Some r else get i s)"
    and ins_taken: "get (key r) s = Some r' \<Longrightarrow> ins r s = (False, s)"
    and del_present: "get k s = Some r \<Longrightarrow>
      fst (del k s) \<and> get i (snd (del k s)) = (if i = k then None else get i s)"
    and del_absent: "get k s = None \<Longrightarrow> del k s = (False, s)"
begin

lemma ins_found: "\<exists>r'. get (key r) (snd (ins r s)) = Some r'"
proof (cases "get (key r) s")
  case None
  then show ?thesis using ins_fresh [OF None, of "key r"] by simp
next
  case (Some r')
  then show ?thesis using ins_taken [OF Some] by simp
qed

lemma ins_keeps: "get i s = Some q \<Longrightarrow> get i (snd (ins r s)) = Some q"
  by (cases "get (key r) s") (auto simp: ins_fresh ins_taken)

lemma ins_again: "ins r' (snd (ins r s)) = (False, snd (ins r s))" if "key r' = key r"
  using ins_found [of r s] ins_taken [of r'] that by fastforce

lemma ins_del_restores:
  assumes "get (key r) s = None"
  shows "get i (snd (del (key r) (snd (ins r s)))) = get i s"
proof -
  have "get (key r) (snd (ins r s)) = Some r"
    using ins_fresh [OF assms, of "key r"] by simp
  then show ?thesis
    using del_present [of "key r" "snd (ins r s)" r i] ins_fresh [OF assms, of i] assms by auto
qed

lemma ins_all_first_wins:
  "get i (fold (\<lambda>r s. snd (ins r s)) rs s) =
     (case get i s of Some q \<Rightarrow> Some q | None \<Rightarrow> find (\<lambda>r. key r = i) rs)"
proof (induction rs arbitrary: s)
  case Nil
  then show ?case by (simp split: option.split)
next
  case (Cons r rs)
  have "get i (snd (ins r s)) =
      (case get i s of Some q \<Rightarrow> Some q | None \<Rightarrow> if key r = i then Some r else None)"
    by (cases "get (key r) s") (auto simp: ins_fresh ins_taken split: option.split)
  then show ?case by (simp add: Cons.IH split: option.split)
qed

end

interpretation data_store: crud_store getRecord "insertRecord \<circ> Some" deleteRecord getRecordId
  by unfold_locales
    (auto simp: getRecord_def insertRecord_def deleteRecord_def split: option.splits)

section \<open>Invariant\<close>

definition wf_Record :: "Record \<Rightarrow> bool" where
  "wf_Record r \<longleftrightarrow> length (data r) \<le> MAX_RECORD_SIZE"

definition store_inv :: "DataStore \<Rightarrow> bool" where
  "store_inv s \<longleftrightarrow>
     (\<forall>rid r. fmlookup (records s) rid = Some r \<longrightarrow> getRecordId r = rid \<and> wf_Record r)"

inductive store_step :: "DataStore \<Rightarrow> DataStore \<Rightarrow> bool" where
  store_insert: "rp = None \<or> wf_Record (the rp) \<Longrightarrow> store_step s (snd (insertRecord rp s))"
| store_delete: "store_step s (snd (deleteRecord rid s))"
| store_update: "updateRecord rid d now s = Inr (b, s') \<Longrightarrow> store_step s s'"
| store_clear: "store_step s (clear_DataStore s)"

lemma wf_new_Record [simp]: "wf_Record (new_Record rid now1 now2)"
  by (simp add: wf_Record_def new_Record_def)

lemma wf_setData: "setData d now r = Inr r' \<Longrightarrow> wf_Record r'"
  by (auto simp: setData_def wf_Record_def split: if_splits)

lemma setData_id: "setData d now r = Inr r' \<Longrightarrow> getRecordId r' = getRecordId r"
  by (auto simp: setData_def getRecordId_def split: if_splits)

lemma store_inv_insert:
  "store_inv s \<Longrightarrow> rp = None \<or> wf_Record (the rp) \<Longrightarrow> store_inv (snd (insertRecord rp s))"
  by (auto simp: store_inv_def insertRecord_def split: option.splits)

lemma store_inv_delete: "store_inv s \<Longrightarrow> store_inv (snd (deleteRecord rid s))"
  by (auto simp: store_inv_def deleteRecord_def split: option.splits)

lemma store_inv_update:
  "store_inv s \<Longrightarrow> updateRecord rid d now s = Inr (b, s') \<Longrightarrow> store_inv s'"
  by (auto simp: store_inv_def updateRecord_def split: option.splits sum.splits if_splits
      dest: wf_setData setData_id)

lemma store_inv_clear: "store_inv (clear_DataStore s)"
  by (simp add: store_inv_def clear_DataStore_def)

interpretation store: safety "\<lambda>s. s = new_DataStore" store_step store_inv
proof
  show "store_inv s" if "s = new_DataStore" for s
    using that by (simp add: store_inv_def new_DataStore_def)
  show "store_inv t" if "store_inv s" "store_step s t" for s t
    using that(2,1)
    by cases (auto intro: store_inv_insert store_inv_delete store_inv_update store_inv_clear)
qed

section \<open>Lookups after each operation\<close>

lemma getRecord_lookup: "getRecord rid s = fmlookup (records s) rid"
  by (simp add: getRecord_def split: option.split)

lemma getRecord_updated:
  assumes "getRecord rid s = Some r" and "length d \<le> MAX_RECORD_SIZE"
  shows "\<exists>s'. updateRecord rid d now s = Inr (True, s') \<and>
    getRecord rid s' = Some (r\<lparr>data := d, modified_time := now\<rparr>) \<and>
    (\<forall>i. i \<noteq> rid \<longrightarrow> getRecord i s' = getRecord i s)"
  using assms by (auto simp: getRecord_lookup updateRecord_def setData_def)

section \<open>The total size never wraps\<close>

definition record_bytes :: "DataStore \<Rightarrow> u32 \<Rightarrow> nat" where
  "record_bytes s rid = (case getRecord rid s of Some r \<Rightarrow> length (data r) | None \<Rightarrow> 0)"

lemma total_size_loop_sum:
  "total_size_loop (records s) rids tot =
     tot + word_of_nat (sum_list (map (record_bytes s) rids))"
  by (induction rids arbitrary: tot)
    (auto simp: getSize_def record_bytes_def getRecord_lookup split: option.split)

lemma record_bytes_le: "store_inv s \<Longrightarrow> record_bytes s rid \<le> MAX_RECORD_SIZE"
  by (auto simp: record_bytes_def store_inv_def wf_Record_def getRecord_lookup
      split: option.split)

lemma map_size_u32: "map_size (m :: (u32, 'v) fmap) \<le> 2 ^ 32"
proof -
  have "card (fset (fmdom m)) \<le> card (UNIV :: u32 set)"
    by (rule card_mono) auto
  then show ?thesis by (simp add: map_size_def fcard.rep_eq card_word)
qed

lemma sum_list_le_bound: "(\<And>x. x \<in> set xs \<Longrightarrow> f x \<le> b) \<Longrightarrow> sum_list (map f xs) \<le> length xs * (b::nat)"
  by (induction xs) (auto intro: add_mono)

lemma total_bytes_bound:
  assumes "store_inv s"
  shows "sum_list (map (record_bytes s) (getAllRecordIds s)) \<le> 2 ^ 52"
proof -
  have "sum_list (map (record_bytes s) (getAllRecordIds s))
      \<le> length (getAllRecordIds s) * MAX_RECORD_SIZE"
    by (rule sum_list_le_bound) (rule record_bytes_le [OF assms])
  also have "\<dots> \<le> 2 ^ 32 * 2 ^ 20"
    using map_size_u32 [of "records s"]
    by (intro mult_mono) (simp_all add: getAllRecordIds_def MAX_RECORD_SIZE_def)
  finally show ?thesis by simp
qed

section \<open>Properties\<close>

text \<open>
  C37: In every state of the store that its operations reach, however they are interleaved
  and whether or not they fail, each record is stored under its own identifier and no
  payload exceeds MAX_RECORD_SIZE.
\<close>
theorem store_reachable_inv:
  assumes "reach (\<lambda>s. s = new_DataStore) store_step s"
    and "getRecord rid s = Some r"
  shows "getRecordId r = rid \<and> length (getData r) \<le> MAX_RECORD_SIZE"
  using store.reach_inv [OF assms(1)] assms(2)
  by (auto simp: store_inv_def wf_Record_def getData_def getRecord_lookup)

theorem store_reachable_inv_witness:
  "getRecordId (new_Record 7 100 101) = 7 \<and>
   length (getData (new_Record 7 100 101)) \<le> MAX_RECORD_SIZE"
proof (rule store_reachable_inv)
  show "reach (\<lambda>s. s = new_DataStore) store_step
      (snd (insertRecord (Some (new_Record 7 100 101)) new_DataStore))"
    by (rule reach_step, rule reach_init, rule refl, rule store_insert, simp)
  show "getRecord 7 (snd (insertRecord (Some (new_Record 7 100 101)) new_DataStore)) =
      Some (new_Record 7 100 101)"
    by (simp add: storage_defs)
qed

text \<open>
  C38: getTotalSize never wraps: in a state satisfying the store's invariant the 64-bit sum
  it returns is exactly the number of payload bytes stored, because at most \<open>2^32\<close>
  records of at most \<open>2^20\<close> bytes each stay below \<open>2^64\<close>.
\<close>
theorem getTotalSize_exact:
  assumes "store_inv s"
  shows "unat (getTotalSize s) = sum_list (map (record_bytes s) (getAllRecordIds s))"
proof -
  have "sum_list (map (record_bytes s) (getAllRecordIds s)) < 2 ^ LENGTH(64)"
    using total_bytes_bound [OF assms] by simp
  then show ?thesis
    by (simp add: getTotalSize_def total_size_loop_sum getAllRecordIds_def unat_of_nat)
qed

theorem getTotalSize_exact_witness:
  "let s = snd (insertRecord (Some (new_Record 3 5 5\<lparr>data := [1, 2, 3]\<rparr>))
             (snd (insertRecord (Some (new_Record 9 6 6\<lparr>data := [4, 5]\<rparr>)) new_DataStore)))
   in unat (getTotalSize s) = sum_list (map (record_bytes s) (getAllRecordIds s)) \<and>
      sum_list (map (record_bytes s) (getAllRecordIds s)) = 5"
proof -
  let ?s = "snd (insertRecord (Some (new_Record 3 5 5\<lparr>data := [1, 2, 3]\<rparr>))
             (snd (insertRecord (Some (new_Record 9 6 6\<lparr>data := [4, 5]\<rparr>)) new_DataStore)))"
  have "store_inv ?s"
    by (simp add: store_inv_def storage_defs wf_Record_def MAX_RECORD_SIZE_def)
  moreover have "sum_list (map (record_bytes ?s) (getAllRecordIds ?s)) = 5"
    by code_simp
  ultimately show ?thesis using getTotalSize_exact [of ?s] by simp
qed

text \<open>
  UpdateRecord on every branch: an oversized payload for a stored record throws
  std::invalid_argument (so no new state is produced), a payload for an absent record
  returns false and changes nothing, and any other call returns true, replaces exactly
  that record's payload and modification time, and leaves every other lookup as it was.
\<close>
theorem updateRecord_branches:
  "(case getRecord rid s of
      None \<Rightarrow> updateRecord rid d now s = Inr (False, s)
    | Some r \<Rightarrow>
        if length d > MAX_RECORD_SIZE then updateRecord rid d now s = Inl Invalid_argument
        else \<exists>s'. updateRecord rid d now s = Inr (True, s') \<and>
          (\<forall>i. getRecord i s' =
             (if i = rid then Some (r\<lparr>data := d, modified_time := now\<rparr>) else getRecord i s)))"
proof (cases "getRecord rid s")
  case None
  then show ?thesis by (simp add: getRecord_lookup updateRecord_def)
next
  case (Some r)
  show ?thesis
  proof (cases "length d > MAX_RECORD_SIZE")
    case True
    with Some show ?thesis by (simp add: getRecord_lookup updateRecord_def setData_def)
  next
    case False
    with getRecord_updated [OF Some, of d now] Some show ?thesis by auto
  qed
qed

text \<open>
  Inserting a batch of records through insertRecord never overwrites: afterwards an
  identifier maps to the record it had before, and otherwise to the first record of the
  batch with that identifier.
\<close>
theorem insertRecord_first_wins:
  "getRecord i (fold (\<lambda>r s. snd (insertRecord (Some r) s)) rs s) =
     (case getRecord i s of Some q \<Rightarrow> Some q | None \<Rightarrow> find (\<lambda>r. getRecordId r = i) rs)"
  using data_store.ins_all_first_wins [of i rs s] by (simp add: comp_def)

text \<open>
  A record that was absent can be inserted and deleted again without a trace: the
  store is exactly what it was, and a second deletion of the same identifier reports failure and changes nothing.
\<close>
theorem insert_delete_restores:
  assumes "getRecord (getRecordId r) s = None"
  shows "let s' = snd (deleteRecord (getRecordId r) (snd (insertRecord (Some r) s)))
         in s' = s \<and> deleteRecord (getRecordId r) s' = (False, s')"
  using assms
  by (auto simp: getRecord_lookup insertRecord_def deleteRecord_def Let_def fmdrop_fmupd_same
      fmdrop_idle fmdom_notI)

theorem insert_delete_restores_witness:
  "snd (deleteRecord 4 (snd (insertRecord (Some (new_Record 4 1 2)) new_DataStore))) = new_DataStore"
proof -
  have "getRecord (getRecordId (new_Record 4 1 2)) new_DataStore = None"
    by (simp add: storage_defs)
  from insert_delete_restores [OF this] show ?thesis
    by (simp add: Let_def getRecordId_def new_Record_def)
qed

end
