(* ===== verification/Transactions.thy ===== *)
theory Transactions
  imports Utils
begin

text \<open>
  The transaction component: \<^verbatim>\<open>Transaction\<close> and
  \<^verbatim>\<open>TransactionManager\<close> (\<^verbatim>\<open>src/transaction/\<close>). A transaction is
  a value; the manager keeps it in the map of active or of completed transactions, so a
  mutation through the shared pointer that \<open>beginTransaction\<close> returns is
  \<open>on_transaction\<close>, the same mutation applied where the manager keeps the object.
  Clock readings are arguments. Identifiers and counters are 32-bit words and wrap.
\<close>

section \<open>Transaction\<close>

record Transaction =
  transaction_id :: u32
  txn_state :: TransactionState
  start_time :: time_point
  end_time :: time_point
  last_activity_time :: time_point
  accessed_records :: "u32 list"
  read_count :: u32
  write_count :: u32
  error_message :: string

definition new_Transaction :: "u32 \<Rightarrow> time_point \<Rightarrow> time_point \<Rightarrow> Transaction" where
  "new_Transaction tid now1 now2 =
     \<lparr>transaction_id = tid, txn_state = ACTIVE, start_time = now1, end_time = 0,
      last_activity_time = now2, accessed_records = [], read_count = 0, write_count = 0,
      error_message = []\<rparr>"

definition getTransactionId :: "Transaction \<Rightarrow> u32" where
  "getTransactionId t = transaction_id t"

definition getState :: "Transaction \<Rightarrow> TransactionState" where
  "getState t = txn_state t"

definition setState :: "TransactionState \<Rightarrow> time_point \<Rightarrow> Transaction \<Rightarrow> Transaction" where
  "setState st now t =
     (let t' = t\<lparr>txn_state := st\<rparr>
      in if st = COMMITTED \<or> st = ABORTED then t'\<lparr>end_time := now\<rparr> else t')"

definition recordAccessedRecord :: "u32 \<Rightarrow> time_point \<Rightarrow> Transaction \<Rightarrow> Transaction" where
  "recordAccessedRecord rid now t =
     (let t' = (if rid \<notin> set (accessed_records t)
                then t\<lparr>accessed_records := accessed_records t @ [rid]\<rparr> else t)
      in t'\<lparr>last_activity_time := now\<rparr>)"

definition incrementReadCount :: "time_point \<Rightarrow> Transaction \<Rightarrow> Transaction" where
  "incrementReadCount now t =
     t\<lparr>read_count := read_count t + 1, last_activity_time := now\<rparr>"

definition incrementWriteCount :: "time_point \<Rightarrow> Transaction \<Rightarrow> Transaction" where
  "incrementWriteCount now t =
     t\<lparr>write_count := write_count t + 1, last_activity_time := now\<rparr>"

definition isCompleted :: "Transaction \<Rightarrow> bool" where
  "isCompleted t \<longleftrightarrow> txn_state t = COMMITTED \<or> txn_state t = ABORTED"

definition setErrorMessage :: "string \<Rightarrow> Transaction \<Rightarrow> Transaction" where
  "setErrorMessage msg t = t\<lparr>error_message := msg\<rparr>"

text \<open>The getters that only read a field.\<close>

definition getStartTime :: "Transaction \<Rightarrow> time_point" where
  "getStartTime t = start_time t"

definition getEndTime :: "Transaction \<Rightarrow> time_point" where
  "getEndTime t = end_time t"

definition getLastActivityTime :: "Transaction \<Rightarrow> time_point" where
  "getLastActivityTime t = last_activity_time t"

definition getAccessedRecords :: "Transaction \<Rightarrow> u32 list" where
  "getAccessedRecords t = accessed_records t"

definition getReadCount :: "Transaction \<Rightarrow> u32" where
  "getReadCount t = read_count t"

definition getWriteCount :: "Transaction \<Rightarrow> u32" where
  "getWriteCount t = write_count t"

definition getErrorMessage :: "Transaction \<Rightarrow> string" where
  "getErrorMessage t = error_message t"

lemmas transaction_defs =
  new_Transaction_def getTransactionId_def getState_def setState_def
  recordAccessedRecord_def incrementReadCount_def incrementWriteCount_def isCompleted_def
  setErrorMessage_def

section \<open>TransactionManager\<close>

record TransactionManager =
  active_transactions :: "(u32, Transaction) fmap"
  completed_transactions :: "(u32, Transaction) fmap"
  next_transaction_id :: u32
  committed_count :: u32
  aborted_count :: u32

definition new_TransactionManager :: TransactionManager where
  "new_TransactionManager =
     \<lparr>active_transactions = fmempty, completed_transactions = fmempty,
      next_transaction_id = INITIAL_TXN_ID, committed_count = 0, aborted_count = 0\<rparr>"

definition beginTransaction ::
  "time_point \<Rightarrow> time_point \<Rightarrow> TransactionManager \<Rightarrow> Transaction \<times> TransactionManager" where
  "beginTransaction now1 now2 tm =
     (let txn = new_Transaction (next_transaction_id tm) now1 now2;
          tm' = tm\<lparr>next_transaction_id := next_transaction_id tm + 1\<rparr>
      in (txn, tm'\<lparr>active_transactions :=
                 fmupd (getTransactionId txn) txn (active_transactions tm')\<rparr>))"

definition commitTransaction ::
  "u32 \<Rightarrow> time_point \<Rightarrow> TransactionManager \<Rightarrow> bool \<times> TransactionManager" where
  "commitTransaction tid now tm =
     (case fmlookup (active_transactions tm) tid of
        Some t \<Rightarrow>
          (let txn = setState COMMITTED now t
           in (True, tm\<lparr>committed_count := committed_count tm + 1,
                       completed_transactions := fmupd tid txn (completed_transactions tm),
                       active_transactions := fmdrop tid (active_transactions tm)\<rparr>))
      | None \<Rightarrow> (False, tm))"

definition abortTransaction ::
  "u32 \<Rightarrow> time_point \<Rightarrow> TransactionManager \<Rightarrow> bool \<times> TransactionManager" where
  "abortTransaction tid now tm =
     (case fmlookup (active_transactions tm) tid of
        Some t \<Rightarrow>
          (let txn = setState ABORTED now t
           in (True, tm\<lparr>aborted_count := aborted_count tm + 1,
                       completed_transactions := fmupd tid txn (completed_transactions tm),
                       active_transactions := fmdrop tid (active_transactions tm)\<rparr>))
      | None \<Rightarrow> (False, tm))"

definition getTransaction :: "u32 \<Rightarrow> TransactionManager \<Rightarrow> Transaction option" where
  "getTransaction tid tm =
     (case fmlookup (active_transactions tm) tid of
        Some t \<Rightarrow> Some t
      | None \<Rightarrow>
          (case fmlookup (completed_transactions tm) tid of Some t \<Rightarrow> Some t | None \<Rightarrow> None))"

definition isTransactionActive :: "u32 \<Rightarrow> TransactionManager \<Rightarrow> bool" where
  "isTransactionActive tid tm =
     (case fmlookup (active_transactions tm) tid of
        Some t \<Rightarrow> getState t = ACTIVE
      | None \<Rightarrow> False)"

definition getActiveTransactionIds :: "TransactionManager \<Rightarrow> u32 list" where
  "getActiveTransactionIds tm = map_keys (active_transactions tm)"

definition getActiveTransactionCount :: "TransactionManager \<Rightarrow> u64" where
  "getActiveTransactionCount tm = word_of_nat (map_size (active_transactions tm))"

definition getTotalTransactionCount :: "TransactionManager \<Rightarrow> u64" where
  "getTotalTransactionCount tm =
     word_of_nat (map_size (active_transactions tm)) +
     word_of_nat (map_size (completed_transactions tm))"

definition getCommittedCount :: "TransactionManager \<Rightarrow> u32" where
  "getCommittedCount tm = committed_count tm"

definition getAbortedCount :: "TransactionManager \<Rightarrow> u32" where
  "getAbortedCount tm = aborted_count tm"

definition clearCompletedTransactions :: "TransactionManager \<Rightarrow> TransactionManager" where
  "clearCompletedTransactions tm = tm\<lparr>completed_transactions := fmempty\<rparr>"

fun abort_loop ::
  "u32 list \<Rightarrow> time_point oracle_seq \<Rightarrow> TransactionManager \<Rightarrow> TransactionManager" where
  "abort_loop [] clk tm = tm"
| "abort_loop (tid # tids) clk tm =
     abort_loop tids (rest clk) (snd (abortTransaction tid (draw clk) tm))"

definition abortAllTransactions ::
  "time_point oracle_seq \<Rightarrow> TransactionManager \<Rightarrow> TransactionManager" where
  "abortAllTransactions clk tm = abort_loop (getActiveTransactionIds tm) clk tm"

lemmas manager_defs =
  new_TransactionManager_def beginTransaction_def commitTransaction_def
  abortTransaction_def getTransaction_def isTransactionActive_def
  getActiveTransactionIds_def getActiveTransactionCount_def getTotalTransactionCount_def
  getCommittedCount_def getAbortedCount_def clearCompletedTransactions_def INITIAL_TXN_ID_def

text \<open>
  A member function called through a shared pointer to the transaction with identifier
  \<open>tid\<close>, wherever the manager keeps it.
\<close>

definition on_transaction ::
  "(Transaction \<Rightarrow> Transaction) \<Rightarrow> u32 \<Rightarrow> TransactionManager \<Rightarrow> TransactionManager" where
  "on_transaction f tid tm =
     (case fmlookup (active_transactions tm) tid of
        Some t \<Rightarrow> tm\<lparr>active_transactions := fmupd tid (f t) (active_transactions tm)\<rparr>
      | None \<Rightarrow>
          (case fmlookup (completed_transactions tm) tid of
             Some t \<Rightarrow> tm\<lparr>completed_transactions := fmupd tid (f t) (completed_transactions tm)\<rparr>
           | None \<Rightarrow> tm))"

section \<open>The operations of the manager as steps\<close>

inductive client_update :: "(Transaction \<Rightarrow> Transaction) \<Rightarrow> bool" where
  cu_access: "client_update (recordAccessedRecord rid now)"
| cu_read: "client_update (incrementReadCount now)"
| cu_write: "client_update (incrementWriteCount now)"
| cu_error: "client_update (setErrorMessage msg)"

text \<open>
  The steps of the manager. The guard of \<open>tm_begin\<close> says that the 32-bit identifier
  counter is not exhausted.
\<close>

inductive tm_step :: "TransactionManager \<Rightarrow> TransactionManager \<Rightarrow> bool" where
  tm_begin: "next_transaction_id tm \<noteq> -1 \<Longrightarrow> tm_step tm (snd (beginTransaction now1 now2 tm))"
| tm_commit: "tm_step tm (snd (commitTransaction tid now tm))"
| tm_abort: "tm_step tm (snd (abortTransaction tid now tm))"
| tm_abort_all: "tm_step tm (abortAllTransactions clk tm)"
| tm_clear: "tm_step tm (clearCompletedTransactions tm)"
| tm_client: "client_update f \<Longrightarrow> tm_step tm (on_transaction f tid tm)"

section \<open>Invariant\<close>

definition wf_txn :: "u32 \<Rightarrow> Transaction \<Rightarrow> bool" where
  "wf_txn tid t \<longleftrightarrow> transaction_id t = tid \<and> distinct (accessed_records t)"

definition tm_tables :: "TransactionManager \<Rightarrow> bool" where
  "tm_tables tm \<longleftrightarrow>
     (\<forall>tid t. fmlookup (active_transactions tm) tid = Some t \<longrightarrow>
        wf_txn tid t \<and> txn_state t = ACTIVE \<and> tid < next_transaction_id tm \<and>
        fmlookup (completed_transactions tm) tid = None) \<and>
     (\<forall>tid t. fmlookup (completed_transactions tm) tid = Some t \<longrightarrow>
        wf_txn tid t \<and> isCompleted t \<and> tid < next_transaction_id tm)"

definition tm_accounts :: "TransactionManager \<Rightarrow> bool" where
  "tm_accounts tm \<longleftrightarrow>
     unat (committed_count tm) + unat (aborted_count tm) + map_size (active_transactions tm) + 1
       = unat (next_transaction_id tm)"

definition tm_inv :: "TransactionManager \<Rightarrow> bool" where
  "tm_inv tm \<longleftrightarrow> tm_tables tm \<and> tm_accounts tm"

lemma isCompleted_setState [simp]:
  "isCompleted (setState COMMITTED now t)" "isCompleted (setState ABORTED now t)"
  by (simp_all add: isCompleted_def setState_def)

lemma wf_txn_setState [simp]: "wf_txn tid (setState st now t) \<longleftrightarrow> wf_txn tid t"
  by (simp add: wf_txn_def setState_def Let_def)

lemma wf_txn_new [simp]: "wf_txn tid (new_Transaction tid now1 now2)"
  by (simp add: wf_txn_def new_Transaction_def)

lemma client_update_keeps:
  assumes "client_update f"
  shows "txn_state (f t) = txn_state t" and "wf_txn tid t \<Longrightarrow> wf_txn tid (f t)"
  using assms by (cases; auto simp: transaction_defs wf_txn_def Let_def)+

lemma isCompleted_state: "txn_state t = txn_state t' \<Longrightarrow> isCompleted t = isCompleted t'"
  by (simp add: isCompleted_def)

lemma tm_tables_begin:
  assumes "tm_tables tm" and "next_transaction_id tm \<noteq> -1"
  shows "tm_tables (snd (beginTransaction now1 now2 tm))"
proof -
  have new: "fmlookup (completed_transactions tm) (next_transaction_id tm) = None"
    using assms(1) by (cases "fmlookup (completed_transactions tm) (next_transaction_id tm)")
      (auto simp: tm_tables_def)
  have state: "txn_state (new_Transaction tid now1 now2) = ACTIVE"
    and tid: "getTransactionId (new_Transaction tid now1 now2) = tid" for tid
    by (simp_all add: new_Transaction_def getTransactionId_def)
  show ?thesis
    using assms new
    by (auto simp: tm_tables_def beginTransaction_def Let_def less_add_one state tid
        intro: less_imp_le)
qed

lemma tm_tables_commit: "tm_tables tm \<Longrightarrow> tm_tables (snd (commitTransaction tid now tm))"
  by (auto simp: tm_tables_def commitTransaction_def Let_def split: option.split)

lemma tm_tables_abort: "tm_tables tm \<Longrightarrow> tm_tables (snd (abortTransaction tid now tm))"
  by (auto simp: tm_tables_def abortTransaction_def Let_def split: option.split)

lemma tm_accounts_begin:
  assumes "tm_inv tm" and "next_transaction_id tm \<noteq> -1"
  shows "tm_accounts (snd (beginTransaction now1 now2 tm))"
proof -
  have "fmlookup (active_transactions tm) (next_transaction_id tm) = None"
    using assms(1) by (cases "fmlookup (active_transactions tm) (next_transaction_id tm)")
      (auto simp: tm_inv_def tm_tables_def)
  then show ?thesis
    using assms
    by (simp add: tm_inv_def tm_accounts_def beginTransaction_def Let_def unat_add_one
        map_size_upd in_fmdom_iff transaction_defs)
qed

lemma active_size_pos:
  "fmlookup (active_transactions tm) tid = Some t \<Longrightarrow> 0 < map_size (active_transactions tm)"
  by (auto simp: map_size_def fcard.rep_eq card_gt_0_iff intro: fmdomI)

lemma counter_room:
  assumes "tm_accounts tm" and "fmlookup (active_transactions tm) tid = Some t"
  shows "committed_count tm \<noteq> -1" and "aborted_count tm \<noteq> -1"
proof -
  have "unat (next_transaction_id tm) < 2 ^ LENGTH(32)"
    by (rule unsigned_less)
  then have "unat (committed_count tm) + unat (aborted_count tm) < 2 ^ LENGTH(32) - 1"
    using assms active_size_pos [OF assms(2)] by (simp add: tm_accounts_def)
  then show "committed_count tm \<noteq> -1" "aborted_count tm \<noteq> -1"
    using unat_less_max [where 'a=32] by (metis add.commute)+
qed

lemma tm_accounts_commit:
  "tm_accounts tm \<Longrightarrow> tm_accounts (snd (commitTransaction tid now tm))"
  using counter_room(1) [of tm tid] active_size_pos [of tm tid]
  by (auto simp: tm_accounts_def commitTransaction_def Let_def map_size_drop in_fmdom_iff
      unat_add_one split: option.split)

lemma tm_accounts_abort:
  "tm_accounts tm \<Longrightarrow> tm_accounts (snd (abortTransaction tid now tm))"
  using counter_room(2) [of tm tid] active_size_pos [of tm tid]
  by (auto simp: tm_accounts_def abortTransaction_def Let_def map_size_drop in_fmdom_iff
      unat_add_one split: option.split)

lemma tm_inv_abort: "tm_inv tm \<Longrightarrow> tm_inv (snd (abortTransaction tid now tm))"
  by (simp add: tm_inv_def tm_tables_abort tm_accounts_abort)

lemma tm_inv_abort_loop: "tm_inv tm \<Longrightarrow> tm_inv (abort_loop tids clk tm)"
  by (induction tids clk tm rule: abort_loop.induct) (simp_all add: tm_inv_abort)

lemma tm_inv_client:
  assumes "tm_inv tm" and f: "client_update f"
  shows "tm_inv (on_transaction f tid tm)"
proof -
  note keep = client_update_keeps [OF f]
  have fin: "isCompleted (f t) = isCompleted t" for t
    by (rule isCompleted_state) (rule keep)
  have "tm_tables (on_transaction f tid tm)"
    using assms(1) keep fin
    by (auto simp: tm_inv_def tm_tables_def on_transaction_def split: option.split)
  moreover have "tm_accounts (on_transaction f tid tm)"
    using assms(1)
    by (auto simp: tm_inv_def tm_accounts_def on_transaction_def map_size_upd in_fmdom_iff
        split: option.split)
  ultimately show ?thesis by (simp add: tm_inv_def)
qed

lemma tm_inv_step: "tm_step tm tm' \<Longrightarrow> tm_inv tm \<Longrightarrow> tm_inv tm'"
proof (induction rule: tm_step.induct)
  case (tm_begin tm now1 now2)
  then show ?case
    by (simp add: tm_inv_def tm_tables_begin tm_accounts_begin)
next
  case (tm_commit tm tid now)
  then show ?case by (simp add: tm_inv_def tm_tables_commit tm_accounts_commit)
next
  case (tm_abort tm tid now)
  then show ?case by (rule tm_inv_abort)
next
  case (tm_abort_all tm clk)
  then show ?case by (simp add: abortAllTransactions_def tm_inv_abort_loop)
next
  case (tm_clear tm)
  then show ?case
    by (auto simp: tm_inv_def tm_tables_def tm_accounts_def clearCompletedTransactions_def)
next
  case (tm_client f tm tid)
  then show ?case by (simp add: tm_inv_client)
qed

interpretation txn_mgr: safety "\<lambda>tm. tm = new_TransactionManager" tm_step tm_inv
proof
  show "tm_inv tm" if "tm = new_TransactionManager" for tm
    using that by (simp add: tm_inv_def tm_tables_def tm_accounts_def manager_defs)
  show "tm_inv tm'" if "tm_inv tm" "tm_step tm tm'" for tm tm'
    using that by (rule tm_inv_step [rotated])
qed

section \<open>A finished transaction stays finished\<close>

text \<open>
  The stable property: the identifier has been assigned, its transaction is not active,
  and if the history still holds it, it is in state \<open>st\<close>.
\<close>

definition finished_as :: "u32 \<Rightarrow> TransactionState \<Rightarrow> TransactionManager \<Rightarrow> bool" where
  "finished_as tid st tm \<longleftrightarrow>
     tid < next_transaction_id tm \<and> fmlookup (active_transactions tm) tid = None \<and>
     (\<forall>t. fmlookup (completed_transactions tm) tid = Some t \<longrightarrow> txn_state t = st)"

lemma finished_commit: "finished_as tid st tm \<Longrightarrow> finished_as tid st (snd (commitTransaction i now tm))"
  by (auto simp: finished_as_def commitTransaction_def Let_def split: option.split)

lemma finished_abort: "finished_as tid st tm \<Longrightarrow> finished_as tid st (snd (abortTransaction i now tm))"
  by (auto simp: finished_as_def abortTransaction_def Let_def split: option.split)

lemma finished_abort_loop: "finished_as tid st tm \<Longrightarrow> finished_as tid st (abort_loop ids clk tm)"
  by (induction ids clk tm rule: abort_loop.induct) (simp_all add: finished_abort)

lemma finished_begin:
  "finished_as tid st tm \<Longrightarrow> next_transaction_id tm \<noteq> -1 \<Longrightarrow>
   finished_as tid st (snd (beginTransaction now1 now2 tm))"
  by (auto simp: finished_as_def beginTransaction_def Let_def less_add_one transaction_defs)

lemma finished_client:
  "finished_as tid st tm \<Longrightarrow> client_update f \<Longrightarrow> finished_as tid st (on_transaction f i tm)"
  by (auto simp: finished_as_def on_transaction_def client_update_keeps split: option.split)

lemma finished_step: "tm_step tm tm' \<Longrightarrow> finished_as tid st tm \<Longrightarrow> finished_as tid st tm'"
proof (induction rule: tm_step.induct)
  case (tm_clear tm)
  then show ?case by (simp add: finished_as_def clearCompletedTransactions_def)
qed (simp_all add: finished_begin finished_commit finished_abort finished_client
    finished_abort_loop abortAllTransactions_def)

interpretation finished: stability "\<lambda>tm. tm = new_TransactionManager" tm_step tm_inv
    "finished_as tid st" for tid st
  by unfold_locales (rule finished_step)

section \<open>Observers under the invariant\<close>

lemma getState_fun: "getState = txn_state"
  by (simp add: fun_eq_iff getState_def)

lemma active_iff_lookup:
  "tm_inv tm \<Longrightarrow> isTransactionActive tid tm \<longleftrightarrow> fmlookup (active_transactions tm) tid \<noteq> None"
  by (auto simp: tm_inv_def tm_tables_def isTransactionActive_def getState_def split: option.split)

lemma getTransaction_cases:
  "getTransaction tid tm =
     (case fmlookup (active_transactions tm) tid of
        Some t \<Rightarrow> Some t | None \<Rightarrow> fmlookup (completed_transactions tm) tid)"
  by (simp add: getTransaction_def split: option.split)

lemma known_below_next:
  "tm_inv tm \<Longrightarrow> getTransaction tid tm = Some t \<Longrightarrow> tid < next_transaction_id tm"
  by (auto simp: tm_inv_def tm_tables_def getTransaction_cases split: option.splits)

lemma completed_not_active:
  "tm_inv tm \<Longrightarrow> fmlookup (completed_transactions tm) tid = Some t \<Longrightarrow>
   fmlookup (active_transactions tm) tid = None"
  by (cases "fmlookup (active_transactions tm) tid") (auto simp: tm_inv_def tm_tables_def)

lemma completed_finished_as:
  assumes "tm_inv tm" and "getTransaction tid tm = Some t" and "isCompleted t"
  shows "finished_as tid (getState t) tm"
proof -
  have "fmlookup (active_transactions tm) tid = None"
    using assms by (cases "fmlookup (active_transactions tm) tid")
      (auto simp: tm_inv_def tm_tables_def getTransaction_cases isCompleted_def)
  then show ?thesis
    using assms known_below_next [OF assms(1,2)]
    by (simp add: finished_as_def getTransaction_cases getState_def)
qed

lemma abort_loop_lookup:
  "fmlookup (active_transactions (abort_loop ids clk tm)) tid =
     (if tid \<in> set ids then None else fmlookup (active_transactions tm) tid)"
  by (induction ids clk tm rule: abort_loop.induct)
    (auto simp: abortTransaction_def Let_def split: option.split)

lemma abort_loop_status:
  assumes "distinct ids" and "\<forall>i\<in>set ids. fmlookup (active_transactions tm) i \<noteq> None"
  shows "map_option txn_state (getTransaction tid (abort_loop ids clk tm)) =
     (if tid \<in> set ids then Some ABORTED else map_option txn_state (getTransaction tid tm))"
  using assms
proof (induction ids clk tm rule: abort_loop.induct)
  case (1 clk tm)
  then show ?case by simp
next
  case (2 i ids clk tm)
  then obtain t where t: "fmlookup (active_transactions tm) i = Some t" by auto
  let ?tm = "snd (abortTransaction i (draw clk) tm)"
  have "map_option txn_state (getTransaction j ?tm) =
      (if j = i then Some ABORTED else map_option txn_state (getTransaction j tm))" for j
    using t by (simp add: abortTransaction_def getTransaction_cases Let_def setState_def
        split: option.split)
  moreover have "\<forall>j\<in>set ids. fmlookup (active_transactions ?tm) j \<noteq> None"
    using t 2(2,3) by (auto simp: abortTransaction_def Let_def)
  ultimately show ?case using 2 by auto
qed

lemma abort_loop_counts:
  assumes "distinct ids" and "\<forall>i\<in>set ids. fmlookup (active_transactions tm) i \<noteq> None"
  shows "aborted_count (abort_loop ids clk tm) = aborted_count tm + word_of_nat (length ids) \<and>
     committed_count (abort_loop ids clk tm) = committed_count tm \<and>
     next_transaction_id (abort_loop ids clk tm) = next_transaction_id tm"
  using assms
proof (induction ids clk tm rule: abort_loop.induct)
  case (1 clk tm)
  then show ?case by simp
next
  case (2 i ids clk tm)
  then obtain t where t: "fmlookup (active_transactions tm) i = Some t" by auto
  let ?tm = "snd (abortTransaction i (draw clk) tm)"
  have "\<forall>j\<in>set ids. fmlookup (active_transactions ?tm) j \<noteq> None"
    using t 2(2,3) by (auto simp: abortTransaction_def Let_def)
  with 2 have "aborted_count (abort_loop ids (rest clk) ?tm) =
        aborted_count ?tm + word_of_nat (length ids) \<and>
      committed_count (abort_loop ids (rest clk) ?tm) = committed_count ?tm \<and>
      next_transaction_id (abort_loop ids (rest clk) ?tm) = next_transaction_id ?tm"
    by simp
  then show ?case using t by (simp add: abortTransaction_def Let_def)
qed

section \<open>Refinement: the life cycle the manager enforces\<close>

text \<open>
  The abstract manager is a counter of assigned identifiers and the status of every
  transaction it still knows. Its steps are the life cycle the header of
  \<^verbatim>\<open>TransactionManager.h\<close> draws: a fresh identifier becomes ACTIVE, an ACTIVE
  transaction becomes COMMITTED or ABORTED, and a finished one may be forgotten.
\<close>

record lifecycle =
  assigned :: u32
  status :: "u32 \<rightharpoonup> TransactionState"

inductive lc_step :: "lifecycle \<Rightarrow> lifecycle \<Rightarrow> bool" where
  lc_begin: "status a (assigned a) = None \<Longrightarrow>
     lc_step a (a\<lparr>assigned := assigned a + 1, status := (status a)(assigned a \<mapsto> ACTIVE)\<rparr>)"
| lc_commit: "status a tid = Some ACTIVE \<Longrightarrow>
     lc_step a (a\<lparr>status := (status a)(tid \<mapsto> COMMITTED)\<rparr>)"
| lc_abort: "status a tid = Some ACTIVE \<Longrightarrow>
     lc_step a (a\<lparr>status := (status a)(tid \<mapsto> ABORTED)\<rparr>)"
| lc_forget: "(\<And>tid. status a tid = Some ACTIVE \<Longrightarrow> m tid = Some ACTIVE) \<Longrightarrow>
     (\<And>tid. m tid = None \<or> m tid = status a tid) \<Longrightarrow> lc_step a (a\<lparr>status := m\<rparr>)"

definition tm_abs :: "TransactionManager \<Rightarrow> lifecycle" where
  "tm_abs tm = \<lparr>assigned = next_transaction_id tm,
                status = (\<lambda>tid. map_option txn_state (getTransaction tid tm))\<rparr>"

lemma status_active:
  "tm_inv tm \<Longrightarrow> fmlookup (active_transactions tm) tid = Some t \<Longrightarrow> status (tm_abs tm) tid = Some ACTIVE"
  by (simp add: tm_abs_def getTransaction_cases tm_inv_def tm_tables_def)

lemma tm_abs_begin:
  assumes "tm_inv tm"
  shows "lc_step (tm_abs tm) (tm_abs (snd (beginTransaction now1 now2 tm)))"
proof -
  have none: "getTransaction (next_transaction_id tm) tm = None"
    using known_below_next [OF assms, of "next_transaction_id tm"] by (cases "getTransaction (next_transaction_id tm) tm") auto
  then have "status (tm_abs tm) (assigned (tm_abs tm)) = None" by (simp add: tm_abs_def)
  note lc_begin [OF this]
  moreover have "(tm_abs tm)\<lparr>assigned := assigned (tm_abs tm) + 1,
      status := (status (tm_abs tm))(assigned (tm_abs tm) \<mapsto> ACTIVE)\<rparr>
      = tm_abs (snd (beginTransaction now1 now2 tm))"
    by (auto simp: tm_abs_def beginTransaction_def Let_def getTransaction_cases transaction_defs
        fun_eq_iff split: option.split)
  ultimately show ?thesis by simp
qed

lemma tm_abs_commit:
  assumes "tm_inv tm"
  shows "lc_step\<^sup>*\<^sup>* (tm_abs tm) (tm_abs (snd (commitTransaction tid now tm)))"
proof (cases "fmlookup (active_transactions tm) tid")
  case None
  then show ?thesis by (simp add: commitTransaction_def)
next
  case (Some t)
  then have "(tm_abs tm)\<lparr>status := (status (tm_abs tm))(tid \<mapsto> COMMITTED)\<rparr>
      = tm_abs (snd (commitTransaction tid now tm))"
    by (auto simp: tm_abs_def commitTransaction_def Let_def getTransaction_cases setState_def
        fun_eq_iff split: option.split)
  then show ?thesis using lc_commit [OF status_active [OF assms Some]] by auto
qed

lemma tm_abs_abort:
  assumes "tm_inv tm"
  shows "lc_step\<^sup>*\<^sup>* (tm_abs tm) (tm_abs (snd (abortTransaction tid now tm)))"
proof (cases "fmlookup (active_transactions tm) tid")
  case None
  then show ?thesis by (simp add: abortTransaction_def)
next
  case (Some t)
  then have "(tm_abs tm)\<lparr>status := (status (tm_abs tm))(tid \<mapsto> ABORTED)\<rparr>
      = tm_abs (snd (abortTransaction tid now tm))"
    by (auto simp: tm_abs_def abortTransaction_def Let_def getTransaction_cases setState_def
        fun_eq_iff split: option.split)
  then show ?thesis using lc_abort [OF status_active [OF assms Some]] by auto
qed

lemma tm_abs_abort_loop:
  "tm_inv tm \<Longrightarrow> lc_step\<^sup>*\<^sup>* (tm_abs tm) (tm_abs (abort_loop ids clk tm))"
proof (induction ids clk tm rule: abort_loop.induct)
  case (1 clk tm)
  then show ?case by simp
next
  case (2 i ids clk tm)
  then show ?case
    using rtranclp_trans [OF tm_abs_abort] tm_inv_abort by (metis abort_loop.simps(2))
qed

lemma tm_abs_clear:
  assumes "tm_inv tm"
  shows "lc_step (tm_abs tm) (tm_abs (clearCompletedTransactions tm))"
proof -
  let ?m = "\<lambda>tid. map_option txn_state (getTransaction tid (clearCompletedTransactions tm))"
  have "lc_step (tm_abs tm) ((tm_abs tm)\<lparr>status := ?m\<rparr>)"
    using assms
    by (intro lc_forget) (fastforce simp: tm_abs_def getTransaction_cases
        clearCompletedTransactions_def tm_inv_def tm_tables_def isCompleted_def
        split: option.splits)+
  then show ?thesis by (simp add: tm_abs_def clearCompletedTransactions_def)
qed

lemma tm_abs_client: "client_update f \<Longrightarrow> tm_abs (on_transaction f tid tm) = tm_abs tm"
  by (auto simp: tm_abs_def on_transaction_def getTransaction_cases client_update_keeps
      fun_eq_iff split: option.split)

section \<open>Properties\<close>

text \<open>
  C30: Bookkeeping. In every reachable state the statistics add up: committed plus aborted
  plus active is the number of identifiers handed out, whatever mixture of begin, commit,
  abort, bulk abort, history clearing and client updates led there, and no counter has
  wrapped.
\<close>
theorem tm_accounting:
  assumes "reach (\<lambda>tm. tm = new_TransactionManager) tm_step tm"
  shows "unat (getCommittedCount tm) + unat (getAbortedCount tm) + unat (getActiveTransactionCount tm)
     = unat (next_transaction_id tm) - 1"
proof -
  have "tm_accounts tm" using txn_mgr.reach_inv [OF assms] by (simp add: tm_inv_def)
  moreover have "unat (next_transaction_id tm) < 2 ^ LENGTH(32)" by (rule unsigned_less)
  ultimately show ?thesis
    by (simp add: tm_accounts_def manager_defs unat_of_nat)
qed

theorem tm_accounting_witness:
  "let tm = snd (abortTransaction 1 5 (snd (beginTransaction 3 4 (snd (beginTransaction 1 2 new_TransactionManager)))))
   in unat (getCommittedCount tm) + unat (getAbortedCount tm) + unat (getActiveTransactionCount tm) = 2 \<and>
      unat (getAbortedCount tm) = 1"
proof -
  let ?a = "snd (beginTransaction 1 2 new_TransactionManager)"
  let ?b = "snd (beginTransaction 3 4 ?a)"
  let ?c = "snd (abortTransaction 1 5 ?b)"
  have "reach (\<lambda>tm. tm = new_TransactionManager) tm_step ?a"
    by (rule reach_step, rule reach_init, rule refl, rule tm_begin) (simp add: manager_defs)
  then have "reach (\<lambda>tm. tm = new_TransactionManager) tm_step ?b"
    by (rule reach_step) (rule tm_begin, simp add: manager_defs Let_def)
  then have "reach (\<lambda>tm. tm = new_TransactionManager) tm_step ?c"
    by (rule reach_step) (rule tm_abort)
  from tm_accounting [OF this] show ?thesis
    by (simp add: manager_defs transaction_defs Let_def)
qed

text \<open>
  \<open>beginTransaction\<close> in a reachable state whose identifier counter is not exhausted
  returns a transaction that is ACTIVE, whose identifier is larger than that of every
  transaction the manager knows, and it is then found under that identifier, while every
  other lookup is unchanged.
\<close>
theorem beginTransaction_fresh:
  assumes "reach (\<lambda>tm. tm = new_TransactionManager) tm_step tm"
    and "beginTransaction now1 now2 tm = (t, tm')"
  shows "getTransaction (getTransactionId t) tm = None \<and>
     (\<forall>i q. getTransaction i tm = Some q \<longrightarrow> i < getTransactionId t) \<and>
     getTransaction (getTransactionId t) tm' = Some t \<and>
     isTransactionActive (getTransactionId t) tm' \<and>
     (\<forall>i. i \<noteq> getTransactionId t \<longrightarrow> getTransaction i tm' = getTransaction i tm)"
proof -
  have inv: "tm_inv tm" by (rule txn_mgr.reach_inv [OF assms(1)])
  have id: "getTransactionId t = next_transaction_id tm"
    using assms(2) by (auto simp: beginTransaction_def Let_def transaction_defs)
  have below: "\<forall>i q. getTransaction i tm = Some q \<longrightarrow> i < getTransactionId t"
    using known_below_next [OF inv] by (simp add: id)
  then have "getTransaction (getTransactionId t) tm = None" by fastforce
  then show ?thesis
    using below assms(2)
    by (auto simp: beginTransaction_def Let_def isTransactionActive_def getTransaction_cases
        transaction_defs split: option.splits if_splits)
qed

theorem beginTransaction_fresh_witness:
  "let tm = snd (beginTransaction 1 2 new_TransactionManager); (t, tm') = beginTransaction 3 4 tm
   in getTransactionId t = 2 \<and> getTransaction 2 tm = None \<and> getTransaction 2 tm' = Some t"
proof -
  let ?a = "snd (beginTransaction 1 2 new_TransactionManager)"
  have "reach (\<lambda>tm. tm = new_TransactionManager) tm_step ?a"
    by (rule reach_step, rule reach_init, rule refl, rule tm_begin) (simp add: manager_defs)
  from beginTransaction_fresh [OF this, of 3 4 "fst (beginTransaction 3 4 ?a)" "snd (beginTransaction 3 4 ?a)"]
  show ?thesis
    by (simp add: case_prod_unfold Let_def) (simp add: manager_defs transaction_defs Let_def)
qed

text \<open>
  CommitTransaction succeeds exactly for active transactions. On success the
  transaction moves to the history in state COMMITTED with its end time set, only the
  commit counter and this lookup change; on failure nothing changes.
\<close>
theorem commitTransaction_branches:
  assumes "tm_inv tm" and "commitTransaction tid now tm = (b, tm')"
  shows "b = isTransactionActive tid tm \<and>
     (if b then
        getTransaction tid tm' = map_option (setState COMMITTED now) (getTransaction tid tm) \<and>
        getTransaction tid tm' \<noteq> None \<and> \<not> isTransactionActive tid tm' \<and>
        (\<forall>i. i \<noteq> tid \<longrightarrow> getTransaction i tm' = getTransaction i tm) \<and>
        getCommittedCount tm' = getCommittedCount tm + 1 \<and>
        getAbortedCount tm' = getAbortedCount tm
      else tm' = tm)"
  using assms active_iff_lookup [OF assms(1), of tid]
  by (auto simp: commitTransaction_def getTransaction_cases isTransactionActive_def Let_def
      getCommittedCount_def getAbortedCount_def split: option.splits if_splits)

theorem commitTransaction_branches_witness:
  "fst (commitTransaction 1 9 (snd (beginTransaction 3 4 new_TransactionManager))) \<and>
   \<not> fst (commitTransaction 2 9 (snd (beginTransaction 3 4 new_TransactionManager)))"
proof -
  let ?a = "snd (beginTransaction 3 4 new_TransactionManager)"
  have inv: "tm_inv ?a"
    by (simp add: tm_inv_def tm_tables_def tm_accounts_def manager_defs transaction_defs Let_def
        wf_txn_def map_size_upd)
  have "isTransactionActive 1 ?a" "\<not> isTransactionActive 2 ?a"
    by (simp_all add: manager_defs transaction_defs Let_def)
  then show ?thesis
    using commitTransaction_branches [OF inv, of 1 9] commitTransaction_branches [OF inv, of 2 9]
    by (metis prod.collapse)
qed



text \<open>
  \<open>abortAllTransactions\<close> empties the active set: every transaction that was active is
  ABORTED afterwards, every other one keeps its status, the abort counter grows by exactly
  the number of active transactions and the commit counter stays.
\<close>
theorem abortAll_outcome:
  assumes "tm_inv tm"
  shows "getActiveTransactionIds (abortAllTransactions clk tm) = [] \<and>
     (\<forall>tid. map_option getState (getTransaction tid (abortAllTransactions clk tm)) =
        (if isTransactionActive tid tm then Some ABORTED
         else map_option getState (getTransaction tid tm))) \<and>
     unat (getAbortedCount (abortAllTransactions clk tm)) =
        unat (getAbortedCount tm) + length (getActiveTransactionIds tm) \<and>
     getCommittedCount (abortAllTransactions clk tm) = getCommittedCount tm"
proof -
  let ?ids = "getActiveTransactionIds tm" and ?tm = "abortAllTransactions clk tm"
  have ids: "distinct ?ids" "\<forall>i\<in>set ?ids. fmlookup (active_transactions tm) i \<noteq> None"
    by (auto simp: getActiveTransactionIds_def in_fmdom_iff)
  have "fmlookup (active_transactions ?tm) tid = None" for tid
    using abort_loop_lookup [of ?ids clk tm tid]
    by (auto simp: abortAllTransactions_def getActiveTransactionIds_def fmdom_notD)
  then have empty: "active_transactions ?tm = fmempty" by (intro fmap_ext) simp
  have inv: "tm_inv ?tm"
    using tm_inv_abort_loop [OF assms] by (simp add: abortAllTransactions_def)
  have counts: "committed_count ?tm = committed_count tm" "next_transaction_id ?tm = next_transaction_id tm"
    using abort_loop_counts [OF ids] by (simp_all add: abortAllTransactions_def)
  have "unat (aborted_count ?tm) = unat (aborted_count tm) + length ?ids"
    using inv assms counts empty by (simp add: tm_inv_def tm_accounts_def getActiveTransactionIds_def)
  moreover have "map_option txn_state (getTransaction tid ?tm) =
      (if isTransactionActive tid tm then Some ABORTED else map_option txn_state (getTransaction tid tm))" for tid
    using abort_loop_status [OF ids, of tid clk] active_iff_lookup [OF assms, of tid]
    by (simp add: abortAllTransactions_def getActiveTransactionIds_def in_fmdom_iff)
  ultimately show ?thesis
    using counts empty
    by (simp add: getActiveTransactionIds_def getAbortedCount_def getCommittedCount_def
        getState_fun)
qed

theorem abortAll_outcome_witness:
  "getActiveTransactionIds (abortAllTransactions (\<lambda>n. 8)
     (snd (beginTransaction 5 6 (snd (beginTransaction 3 4 new_TransactionManager))))) = []"
proof -
  have "tm_inv (snd (beginTransaction 5 6 (snd (beginTransaction 3 4 new_TransactionManager))))"
    by (simp add: tm_inv_def tm_tables_def tm_accounts_def manager_defs transaction_defs Let_def
        wf_txn_def map_size_upd)
  from abortAll_outcome [OF this] show ?thesis by simp
qed



end
