(* ===== verification/StdText.thy ===== *)
theory StdText
  imports Prelude "HOL-Library.Char_ord"
begin

text \<open>
  The text operations of the C++ standard library that the program uses, on strings as
  lists of characters: reading delimited fields with \<^verbatim>\<open>std::getline\<close>, printing
  integers with \<^verbatim>\<open>operator<<\<close> and \<^verbatim>\<open>std::to_string\<close>, and the conversions
  \<^verbatim>\<open>std::stoll\<close>, \<^verbatim>\<open>std::stoul\<close> and \<^verbatim>\<open>std::stoi\<close> with the exceptions
  they throw. Integers keep their width: \<open>long\<close> and \<open>unsigned long\<close> are 64 bits.
  The lemmas give the two round trips the log format rests on: joined fields are split
  again, and a printed number is read back.
\<close>

named_theorems std_text

section \<open>Delimited fields\<close>

text \<open>
  One call of \<^verbatim>\<open>getline(in, field, d)\<close> takes the characters up to the next
  delimiter and drops the delimiter; it fails when nothing is left to read, so a trailing
  delimiter does not produce a last empty field. \<open>getlines\<close> is what a loop
  \<^verbatim>\<open>while (getline(in, field, d))\<close> reads.
\<close>

definition getline :: "char \<Rightarrow> string \<Rightarrow> (string \<times> string) option" where
  "getline d s =
     (if s = [] then None else Some (takeWhile (\<lambda>c. c \<noteq> d) s, drop 1 (dropWhile (\<lambda>c. c \<noteq> d) s)))"

function getlines :: "char \<Rightarrow> string \<Rightarrow> string list" where
  "getlines d s = (case getline d s of None \<Rightarrow> [] | Some (field, s') \<Rightarrow> field # getlines d s')"
  by pat_completeness auto

lemma getline_shorter: "getline d s = Some (field, s') \<Longrightarrow> length s' < length s"
  using length_dropWhile_le [of "\<lambda>c. c \<noteq> d" s]
  by (cases s) (auto simp: getline_def le_imp_less_Suc split: if_splits intro: le_less_trans [OF diff_le_self])

termination getlines
  by (relation "measure (\<lambda>(d, s). length s)") (auto dest: getline_shorter)

declare getlines.simps [simp del]

lemma getlines_empty [simp]: "getlines d [] = []"
  by (simp add: getlines.simps getline_def)

lemma takeWhile_field [simp]: "d \<notin> set f \<Longrightarrow> takeWhile (\<lambda>c. c \<noteq> d) (f @ d # s) = f"
  by (induction f) auto

lemma dropWhile_field [simp]: "d \<notin> set f \<Longrightarrow> dropWhile (\<lambda>c. c \<noteq> d) (f @ d # s) = d # s"
  by (induction f) auto

lemma takeWhile_no_delim [simp]: "d \<notin> set f \<Longrightarrow> takeWhile (\<lambda>c. c \<noteq> d) f = f"
  by (induction f) auto

lemma dropWhile_no_delim [simp]: "d \<notin> set f \<Longrightarrow> dropWhile (\<lambda>c. c \<noteq> d) f = []"
  by (induction f) auto

lemma getlines_field [std_text]: "d \<notin> set f \<Longrightarrow> getlines d (f @ d # s) = f # getlines d s"
  by (subst getlines.simps) (simp add: getline_def)

lemma getlines_last [std_text]: "d \<notin> set f \<Longrightarrow> getlines d f = (if f = [] then [] else [f])"
  by (subst getlines.simps) (simp add: getline_def)

text \<open>Lines written one after the other, each with its terminator, are read back.\<close>

lemma getlines_lines:
  "\<forall>f\<in>set fs. d \<notin> set f \<Longrightarrow> getlines d (concat (map (\<lambda>f. f @ [d]) fs) @ s) = fs @ getlines d s"
  by (induction fs) (auto simp: getlines_field)

lemma getlines_no_delim: "f \<in> set (getlines d s) \<Longrightarrow> d \<notin> set f"
proof (induction d s rule: getlines.induct)
  case (1 d s)
  have no: "d \<notin> set (takeWhile (\<lambda>c. c \<noteq> d) s)" by (auto dest: set_takeWhileD)
  show ?case
  proof (cases "getline d s")
    case None
    then show ?thesis using 1(2) by (simp add: getlines.simps)
  next
    case (Some p)
    obtain g s' where p: "p = (g, s')" by (cases p)
    then have "f = g \<or> f \<in> set (getlines d s')" using 1(2) Some by (subst (asm) getlines.simps) simp
    moreover have "d \<notin> set g" using Some p no by (auto simp: getline_def split: if_splits)
    ultimately show ?thesis using 1(1) [OF Some p [symmetric]] by auto
  qed
qed

text \<open>Text that ends a line is read independently of what follows it.\<close>

lemma getlines_append:
  assumes "s = [] \<or> last s = d"
  shows "getlines d (s @ t) = getlines d s @ getlines d t"
  using assms
proof (induction d s rule: getlines.induct)
  case (1 d s)
  show ?case
  proof (cases "s = []")
    case True
    then show ?thesis by simp
  next
    case False
    then have "d \<in> set s" using 1(2) last_in_set by metis
    then obtain f s' where s: "s = f @ d # s'" and f: "d \<notin> set f"
      by (auto dest: split_list_first)
    have "getline d s = Some (f, s')" using s f by (simp add: getline_def)
    moreover have "s' = [] \<or> last s' = d" using 1(2) s by (cases "s' = []") auto
    ultimately have "getlines d (s' @ t) = getlines d s' @ getlines d t" using 1(1) by blast
    then show ?thesis using f by (simp add: s getlines_field)
  qed
qed

lemma getlines_three:
  "d \<notin> set a \<Longrightarrow> d \<notin> set b \<Longrightarrow> d \<notin> set c \<Longrightarrow> c \<noteq> [] \<Longrightarrow>
   getlines d (a @ d # b @ d # c) = [a, b, c]"
  by (simp add: getlines_field getlines_last)

section \<open>Characters and printed numbers\<close>

definition is_digit :: "char \<Rightarrow> bool" where
  "is_digit c \<longleftrightarrow> 48 \<le> (of_char c :: nat) \<and> (of_char c :: nat) \<le> 57"

definition is_space :: "char \<Rightarrow> bool" where
  "is_space c \<longleftrightarrow> (of_char c :: nat) = 32 \<or> 9 \<le> (of_char c :: nat) \<and> (of_char c :: nat) \<le> 13"

definition digit_val :: "char \<Rightarrow> nat" where
  "digit_val c = of_char c - 48"

definition digit_char :: "nat \<Rightarrow> char" where
  "digit_char n = char_of (48 + n)"

fun nat_to_string :: "nat \<Rightarrow> string" where
  "nat_to_string n =
     (if n < 10 then [digit_char n] else nat_to_string (n div 10) @ [digit_char (n mod 10)])"

declare nat_to_string.simps [simp del]

definition int_to_string :: "int \<Rightarrow> string" where
  "int_to_string i = (if i < 0 then CHR ''-'' # nat_to_string (nat (- i)) else nat_to_string (nat i))"

lemma of_digit_char: "n < 10 \<Longrightarrow> (of_char (digit_char n) :: nat) = 48 + n"
  by (simp add: digit_char_def)

lemma is_digit_char [simp]: "n < 10 \<Longrightarrow> is_digit (digit_char n)"
  by (simp add: is_digit_def of_digit_char)

lemma digit_val_char [simp]: "n < 10 \<Longrightarrow> digit_val (digit_char n) = n"
  by (simp add: digit_val_def of_digit_char)

lemma digit_not_space [simp]: "is_digit c \<Longrightarrow> \<not> is_space c"
  by (auto simp: is_digit_def is_space_def)

lemma digit_not [simp]:
  "is_digit c \<Longrightarrow> c \<noteq> CHR '',''" "is_digit c \<Longrightarrow> c \<noteq> CHR ''=''" "is_digit c \<Longrightarrow> c \<noteq> CHR ''-''"
  "is_digit c \<Longrightarrow> c \<noteq> CHR ''+''" "is_digit c \<Longrightarrow> c \<noteq> CHR 0x0A" "is_digit c \<Longrightarrow> c \<noteq> CHR ''.''"
  by (auto simp: is_digit_def)

lemma nat_to_string_digits: "c \<in> set (nat_to_string n) \<Longrightarrow> is_digit c"
  by (induction n rule: nat_to_string.induct) (subst (asm) (2) nat_to_string.simps, auto split: if_splits)

lemma nat_to_string_nonempty [simp]: "nat_to_string n \<noteq> []"
  by (subst nat_to_string.simps) simp

lemma int_to_string_nonempty [simp]: "int_to_string i \<noteq> []"
  by (simp add: int_to_string_def)

lemma int_to_string_chars: "c \<in> set (int_to_string i) \<Longrightarrow> is_digit c \<or> c = CHR ''-''"
  by (auto simp: int_to_string_def dest: nat_to_string_digits split: if_splits)

section \<open>Reading numbers\<close>

text \<open>The subject sequence of \<^verbatim>\<open>strtol\<close>: white space, a sign, digits.\<close>

definition digits_value :: "string \<Rightarrow> nat" where
  "digits_value ds = foldl (\<lambda>acc c. 10 * acc + digit_val c) 0 ds"

definition scan_sign :: "string \<Rightarrow> bool \<times> string" where
  "scan_sign s =
     (case s of c # cs \<Rightarrow> if c = CHR ''-'' then (True, cs) else if c = CHR ''+'' then (False, cs) else (False, s)
      | [] \<Rightarrow> (False, []))"

definition scan_number :: "string \<Rightarrow> (bool \<times> nat) option" where
  "scan_number s =
     (let (neg, t) = scan_sign (dropWhile is_space s); ds = takeWhile is_digit t
      in if ds = [] then None else Some (neg, digits_value ds))"

definition signed_value :: "bool \<Rightarrow> nat \<Rightarrow> int" where
  "signed_value neg m = (if neg then - int m else int m)"

definition stoll :: "string \<Rightarrow> exn + 64 word" where
  "stoll s =
     (case scan_number s of None \<Rightarrow> Inl Invalid_argument
      | Some (neg, m) \<Rightarrow>
          if signed_value neg m < - (2 ^ 63) \<or> signed_value neg m > 2 ^ 63 - 1 then Inl Out_of_range
          else Inr (word_of_int (signed_value neg m)))"

text \<open>\<^verbatim>\<open>strtoul\<close> accepts a minus sign and negates modulo \<open>2 ^ 64\<close>.\<close>

definition stoul :: "string \<Rightarrow> exn + u64" where
  "stoul s =
     (case scan_number s of None \<Rightarrow> Inl Invalid_argument
      | Some (neg, m) \<Rightarrow>
          if int m > 2 ^ 64 - 1 then Inl Out_of_range
          else Inr (word_of_int (signed_value neg m)))"

definition stoi :: "string \<Rightarrow> exn + 32 word" where
  "stoi s =
     (case scan_number s of None \<Rightarrow> Inl Invalid_argument
      | Some (neg, m) \<Rightarrow>
          if signed_value neg m < - (2 ^ 31) \<or> signed_value neg m > 2 ^ 31 - 1 then Inl Out_of_range
          else Inr (word_of_int (signed_value neg m)))"

lemma digits_value_snoc: "digits_value (ds @ [c]) = 10 * digits_value ds + digit_val c"
  by (simp add: digits_value_def)

lemma digits_value_nat [simp]: "digits_value (nat_to_string n) = n"
proof (induction n rule: nat_to_string.induct)
  case (1 n)
  show ?case
  proof (cases "n < 10")
    case True
    then show ?thesis by (subst nat_to_string.simps) (simp add: digits_value_def)
  next
    case False
    then show ?thesis
      using 1 by (subst nat_to_string.simps) (simp add: digits_value_snoc)
  qed
qed

lemma takeWhile_digits [simp]: "takeWhile is_digit (nat_to_string n) = nat_to_string n"
  by (simp add: nat_to_string_digits)

lemma scan_sign_digits: "s \<noteq> [] \<Longrightarrow> is_digit (hd s) \<Longrightarrow> scan_sign s = (False, s)"
  by (cases s) (auto simp: scan_sign_def)

lemma hd_nat_to_string: "is_digit (hd (nat_to_string n))"
  using nat_to_string_digits hd_in_set nat_to_string_nonempty by blast

lemma dropWhile_space_digits: "s \<noteq> [] \<Longrightarrow> \<not> is_space (hd s) \<Longrightarrow> dropWhile is_space s = s"
  by (cases s) auto

text \<open>A printed integer is scanned back with its sign and magnitude.\<close>

lemma scan_int_to_string [std_text]:
  "scan_number (int_to_string i) = Some (i < 0, nat \<bar>i\<bar>)"
proof (cases "i < 0")
  case True
  moreover have "\<not> is_space (CHR ''-'')" by (simp add: is_space_def)
  ultimately show ?thesis by (simp add: int_to_string_def scan_number_def scan_sign_def)
next
  case False
  then show ?thesis
    by (simp add: int_to_string_def scan_number_def scan_sign_digits dropWhile_space_digits
        hd_nat_to_string)
qed

lemma signed_value_abs [simp]: "signed_value (i < 0) (nat \<bar>i\<bar>) = i"
  by (simp add: signed_value_def)

lemma sint_bounds: "- (2 ^ (LENGTH('a) - 1)) \<le> sint w \<and> sint w \<le> 2 ^ (LENGTH('a) - 1) - 1"
  for w :: "'a::len word"
  using sint_ge [of w] sint_lt [of w] by linarith

lemma stoll_print [std_text]: "stoll (int_to_string (sint w)) = Inr w"
  using sint_bounds [of w] by (simp add: stoll_def scan_int_to_string not_less)

lemma stoi_print [std_text]: "stoi (int_to_string (sint w)) = Inr w"
  using sint_bounds [of w] by (simp add: stoi_def scan_int_to_string not_less)

lemma stoul_print [std_text]:
  "stoul (int_to_string (uint w)) = Inr (ucast w)" for w :: u32
proof -
  have "unat w \<le> 2 ^ 64 - 1" using unsigned_less [of w, where ?'a = nat] by simp
  moreover have "(word_of_int (uint w) :: u64) = ucast w" by simp
  ultimately show ?thesis by (simp add: stoul_def scan_int_to_string signed_value_def not_less flip: unat_eq_nat_uint)
qed

end
