(* ===== verification/LogRecord.thy ===== *)
theory LogRecord
  imports StdText
begin

text \<open>
  The log record, \<^verbatim>\<open>src/recovery/LogRecord.cpp\<close>, and its one-line text format
  \<^verbatim>\<open>timestamp=<t>,txn=<id>,type=<name>\<close>. Parsing accepts the fields in any order,
  ignores what it does not know, answers no record when a field is missing or the type
  name is unknown, and throws what \<^verbatim>\<open>std::stoll\<close> and \<^verbatim>\<open>std::stoul\<close>
  throw when a number does not parse.
\<close>

section \<open>Records\<close>

datatype LogType = BEGIN | INSERT | UPDATE | DELETE | COMMIT | ABORT | CHECKPOINT

record LogRecord =
  log_txn :: u32
  log_type :: LogType
  log_timestamp :: "64 word"

text \<open>The two-argument constructor stamps the record with the clock's value \<open>now\<close>.\<close>

definition new_LogRecord :: "u32 \<Rightarrow> LogType \<Rightarrow> 64 word \<Rightarrow> LogRecord" where
  "new_LogRecord txn ty now = \<lparr>log_txn = txn, log_type = ty, log_timestamp = now\<rparr>"

definition getTransactionId :: "LogRecord \<Rightarrow> u32" where
  "getTransactionId r = log_txn r"

definition getLogType :: "LogRecord \<Rightarrow> LogType" where
  "getLogType r = log_type r"

definition getTimestamp :: "LogRecord \<Rightarrow> 64 word" where
  "getTimestamp r = log_timestamp r"

lemma new_LogRecord_sel [simp]:
  "getTransactionId (new_LogRecord t ty w) = t" "getLogType (new_LogRecord t ty w) = ty"
  "getTimestamp (new_LogRecord t ty w) = w"
  by (simp_all add: new_LogRecord_def getTransactionId_def getLogType_def getTimestamp_def)

section \<open>Type names\<close>

fun logTypeToString :: "LogType \<Rightarrow> string" where
  "logTypeToString BEGIN = ''BEGIN''"
| "logTypeToString INSERT = ''INSERT''"
| "logTypeToString UPDATE = ''UPDATE''"
| "logTypeToString DELETE = ''DELETE''"
| "logTypeToString COMMIT = ''COMMIT''"
| "logTypeToString ABORT = ''ABORT''"
| "logTypeToString CHECKPOINT = ''CHECKPOINT''"

text \<open>The out parameter keeps its value when the name is unknown.\<close>

definition stringToLogType :: "string \<Rightarrow> LogType \<Rightarrow> bool \<times> LogType" where
  "stringToLogType v out_type =
     (if v = ''BEGIN'' then (True, BEGIN)
      else if v = ''INSERT'' then (True, INSERT)
      else if v = ''UPDATE'' then (True, UPDATE)
      else if v = ''DELETE'' then (True, DELETE)
      else if v = ''COMMIT'' then (True, COMMIT)
      else if v = ''ABORT'' then (True, ABORT)
      else if v = ''CHECKPOINT'' then (True, CHECKPOINT)
      else (False, out_type))"

lemma stringToLogType_name [simp]: "stringToLogType (logTypeToString ty) out = (True, ty)"
  by (cases ty) (simp_all add: stringToLogType_def)

lemma stringToLogType_known:
  "fst (stringToLogType v out) \<longleftrightarrow> v \<in> range logTypeToString"
proof
  show "fst (stringToLogType v out) \<Longrightarrow> v \<in> range logTypeToString"
    by (auto simp: stringToLogType_def image_iff split: if_splits intro: exI [of _ BEGIN]
        exI [of _ INSERT] exI [of _ UPDATE] exI [of _ DELETE] exI [of _ COMMIT] exI [of _ ABORT]
        exI [of _ CHECKPOINT])
  show "v \<in> range logTypeToString \<Longrightarrow> fst (stringToLogType v out)" by auto
qed

section \<open>Printing and parsing\<close>

definition toString :: "LogRecord \<Rightarrow> string" where
  "toString r =
     ''timestamp='' @ int_to_string (sint (log_timestamp r)) @
     '',txn='' @ int_to_string (uint (log_txn r)) @
     '',type='' @ logTypeToString (log_type r)"

text \<open>The local variables of the parser.\<close>

record ParseState =
  ps_timestamp :: "64 word"
  ps_txn :: u32
  ps_type :: LogType
  has_timestamp :: bool
  has_txn :: bool
  has_type :: bool

definition parse_start :: ParseState where
  "parse_start = \<lparr>ps_timestamp = 0, ps_txn = 0, ps_type = BEGIN,
     has_timestamp = False, has_txn = False, has_type = False\<rparr>"

text \<open>A segment without an equals sign is skipped; the first one separates key and value.\<close>

definition split_field :: "string \<Rightarrow> (string \<times> string) option" where
  "split_field seg =
     (if CHR ''='' \<in> set seg
      then Some (takeWhile (\<lambda>c. c \<noteq> CHR ''='') seg, drop 1 (dropWhile (\<lambda>c. c \<noteq> CHR ''='') seg))
      else None)"

definition parse_field :: "string \<Rightarrow> string \<Rightarrow> ParseState \<Rightarrow> exn + ParseState" where
  "parse_field key v ps =
     (if key = ''timestamp'' then
        (case stoll v of Inl e \<Rightarrow> Inl e
         | Inr t \<Rightarrow> Inr (ps\<lparr>ps_timestamp := t, has_timestamp := True\<rparr>))
      else if key = ''txn'' then
        (case stoul v of Inl e \<Rightarrow> Inl e
         | Inr n \<Rightarrow> Inr (ps\<lparr>ps_txn := ucast n, has_txn := True\<rparr>))
      else if key = ''type'' then
        (let (ok, ty) = stringToLogType v (ps_type ps)
         in Inr (ps\<lparr>ps_type := ty, has_type := ok\<rparr>))
      else Inr ps)"

fun parse_segments :: "string list \<Rightarrow> ParseState \<Rightarrow> exn + ParseState" where
  "parse_segments [] ps = Inr ps"
| "parse_segments (seg # segs) ps =
     (case split_field seg of None \<Rightarrow> parse_segments segs ps
      | Some (key, v) \<Rightarrow>
          (case parse_field key v ps of Inl e \<Rightarrow> Inl e
           | Inr ps' \<Rightarrow> parse_segments segs ps'))"

definition fromString :: "string \<Rightarrow> exn + LogRecord option" where
  "fromString s =
     (case parse_segments (getlines (CHR '','') s) parse_start of Inl e \<Rightarrow> Inl e
      | Inr ps \<Rightarrow>
          if \<not> has_timestamp ps \<or> \<not> has_txn ps \<or> \<not> has_type ps then Inr None
          else Inr (Some (new_LogRecord (ps_txn ps) (ps_type ps) (ps_timestamp ps))))"

section \<open>The round trip\<close>

lemma split_field_eq: "CHR ''='' \<notin> set k \<Longrightarrow> split_field (k @ CHR ''='' # v) = Some (k, v)"
  by (simp add: split_field_def)

lemma logTypeToString_chars:
  "CHR '','' \<notin> set (logTypeToString ty)" "CHR 0x0A \<notin> set (logTypeToString ty)"
  by (cases ty; simp)+

lemma int_to_string_no_sep:
  "CHR '','' \<notin> set (int_to_string i)" "CHR 0x0A \<notin> set (int_to_string i)"
  using int_to_string_chars digit_not by fastforce+

lemma toString_one_line: "CHR 0x0A \<notin> set (toString r)"
  by (simp add: toString_def int_to_string_no_sep logTypeToString_chars)

lemma toString_nonempty [simp]: "toString r \<noteq> []"
  by (simp add: toString_def)

lemma toString_segments:
  "getlines (CHR '','') (toString r) =
     [''timestamp'' @ CHR ''='' # int_to_string (sint (log_timestamp r)),
      ''txn'' @ CHR ''='' # int_to_string (uint (log_txn r)),
      ''type'' @ CHR ''='' # logTypeToString (log_type r)]"
proof -
  let ?a = "''timestamp'' @ CHR ''='' # int_to_string (sint (log_timestamp r))"
  let ?b = "''txn'' @ CHR ''='' # int_to_string (uint (log_txn r))"
  let ?c = "''type'' @ CHR ''='' # logTypeToString (log_type r)"
  have "toString r = ?a @ CHR '','' # ?b @ CHR '','' # ?c" by (simp add: toString_def)
  moreover have "getlines (CHR '','') (?a @ CHR '','' # ?b @ CHR '','' # ?c) = [?a, ?b, ?c]"
    by (rule getlines_three) (simp_all add: int_to_string_no_sep logTypeToString_chars)
  ultimately show ?thesis by (simp only:)
qed

lemma split_three:
  "split_field (''timestamp'' @ CHR ''='' # v) = Some (''timestamp'', v)"
  "split_field (''txn'' @ CHR ''='' # v) = Some (''txn'', v)"
  "split_field (''type'' @ CHR ''='' # v) = Some (''type'', v)"
  by (rule split_field_eq, simp)+

lemma u32_through_u64 [simp]: "ucast (ucast w :: u64) = w" for w :: u32
  by transfer simp

lemma fromString_toString: "fromString (toString r) = Inr (Some r)"
proof -
  have "parse_segments (getlines (CHR '','') (toString r)) parse_start =
      Inr \<lparr>ps_timestamp = log_timestamp r, ps_txn = log_txn r, ps_type = log_type r,
        has_timestamp = True, has_txn = True, has_type = True\<rparr>"
    unfolding toString_segments parse_segments.simps split_three option.case prod.case
    by (simp add: parse_field_def parse_start_def stoll_print stoul_print del: append.simps)
  then show ?thesis by (simp add: fromString_def new_LogRecord_def)
qed

section \<open>What the parser accepts\<close>

text \<open>
  The specification of the parser: the values a line gives for a key, in order. Every time
  stamp and every transaction id on the line has to be a number, each key has to occur, and
  the last occurrence of a key counts.
\<close>

fun fields_of :: "string list \<Rightarrow> (string \<times> string) list" where
  "fields_of [] = []"
| "fields_of (seg # segs) =
     (case split_field seg of None \<Rightarrow> fields_of segs | Some kv \<Rightarrow> kv # fields_of segs)"

definition line_fields :: "string \<Rightarrow> (string \<times> string) list" where
  "line_fields s = fields_of (getlines (CHR '','') s)"

definition values_of :: "string \<Rightarrow> (string \<times> string) list \<Rightarrow> string list" where
  "values_of key fs = map snd (filter (\<lambda>(k, v). k = key) fs)"

definition parses :: "('a \<Rightarrow> exn + 'b) \<Rightarrow> 'a \<Rightarrow> bool" where
  "parses f v \<longleftrightarrow> (case f v of Inl _ \<Rightarrow> False | Inr _ \<Rightarrow> True)"

definition parsed :: "('a \<Rightarrow> exn + 'b) \<Rightarrow> 'a \<Rightarrow> 'b" where
  "parsed f v = (case f v of Inr x \<Rightarrow> x | Inl _ \<Rightarrow> undefined)"

definition numbers_ok :: "(string \<times> string) list \<Rightarrow> bool" where
  "numbers_ok fs \<longleftrightarrow>
     list_all (parses stoll) (values_of ''timestamp'' fs) \<and> list_all (parses stoul) (values_of ''txn'' fs)"

text \<open>What the parser's variables hold after the fields \<open>fs\<close>.\<close>

definition time_slot :: "string list \<Rightarrow> ParseState \<Rightarrow> bool" where
  "time_slot vs ps \<longleftrightarrow>
     (if vs = [] then \<not> has_timestamp ps
      else has_timestamp ps \<and> stoll (last vs) = Inr (ps_timestamp ps))"

definition txn_slot :: "string list \<Rightarrow> ParseState \<Rightarrow> bool" where
  "txn_slot vs ps \<longleftrightarrow>
     (if vs = [] then \<not> has_txn ps
      else has_txn ps \<and> (\<exists>n. stoul (last vs) = Inr n \<and> ps_txn ps = ucast n))"

definition type_slot :: "string list \<Rightarrow> ParseState \<Rightarrow> bool" where
  "type_slot vs ps \<longleftrightarrow>
     (if vs = [] then \<not> has_type ps
      else if has_type ps then last vs = logTypeToString (ps_type ps)
      else last vs \<notin> range logTypeToString)"

definition fields_state :: "(string \<times> string) list \<Rightarrow> ParseState \<Rightarrow> bool" where
  "fields_state fs ps \<longleftrightarrow>
     time_slot (values_of ''timestamp'' fs) ps \<and> txn_slot (values_of ''txn'' fs) ps \<and>
     type_slot (values_of ''type'' fs) ps"

lemma slot_update [simp]:
  "time_slot vs (ps\<lparr>ps_txn := n, has_txn := b\<rparr>) = time_slot vs ps"
  "time_slot vs (ps\<lparr>ps_type := ty, has_type := b\<rparr>) = time_slot vs ps"
  "time_slot vs (ps\<lparr>ps_type := ty\<rparr>) = time_slot vs ps"
  "txn_slot vs (ps\<lparr>ps_type := ty\<rparr>) = txn_slot vs ps"
  "time_slot vs (ps\<lparr>has_type := b\<rparr>) = time_slot vs ps"
  "txn_slot vs (ps\<lparr>ps_timestamp := t, has_timestamp := b\<rparr>) = txn_slot vs ps"
  "txn_slot vs (ps\<lparr>ps_type := ty, has_type := b\<rparr>) = txn_slot vs ps"
  "txn_slot vs (ps\<lparr>has_type := b\<rparr>) = txn_slot vs ps"
  "type_slot vs (ps\<lparr>ps_timestamp := t, has_timestamp := b\<rparr>) = type_slot vs ps"
  "type_slot vs (ps\<lparr>ps_txn := n, has_txn := b\<rparr>) = type_slot vs ps"
  by (simp_all add: time_slot_def txn_slot_def type_slot_def)

lemma slot_assign [simp]:
  "time_slot (vs @ [v]) (ps\<lparr>ps_timestamp := t, has_timestamp := True\<rparr>) \<longleftrightarrow> stoll v = Inr t"
  "txn_slot (vs @ [v]) (ps\<lparr>ps_txn := m, has_txn := True\<rparr>) \<longleftrightarrow> (\<exists>n. stoul v = Inr n \<and> m = ucast n)"
  "type_slot (vs @ [v]) (ps\<lparr>ps_type := ty, has_type := True\<rparr>) \<longleftrightarrow> v = logTypeToString ty"
  "type_slot (vs @ [v]) (ps\<lparr>has_type := False\<rparr>) \<longleftrightarrow> v \<notin> range logTypeToString"
  by (auto simp add: time_slot_def txn_slot_def type_slot_def)

lemma values_of_simps [simp]:
  "values_of key [] = []"
  "values_of key (fs @ [(k, v)]) = values_of key fs @ (if k = key then [v] else [])"
  by (simp_all add: values_of_def)

lemma stringToLogType_branches:
  "(\<exists>ty. v = logTypeToString ty \<and> stringToLogType v out = (True, ty)) \<or>
   v \<notin> range logTypeToString \<and> stringToLogType v out = (False, out)"
proof (cases "v \<in> range logTypeToString")
  case True
  then show ?thesis by auto
next
  case False
  then have "\<not> fst (stringToLogType v out)" by (simp add: stringToLogType_known)
  then have "stringToLogType v out = (False, out)" by (auto simp: stringToLogType_def split: if_splits)
  with False show ?thesis by blast
qed

lemma parse_field_ok:
  assumes "fields_state fs ps" and "parse_field k v ps = Inr ps'"
  shows "fields_state (fs @ [(k, v)]) ps'" and "numbers_ok fs \<Longrightarrow> numbers_ok (fs @ [(k, v)])"
proof -
  consider (ts) t where "k = ''timestamp''" "stoll v = Inr t"
      "ps' = ps\<lparr>ps_timestamp := t, has_timestamp := True\<rparr>"
    | (txn) n where "k = ''txn''" "stoul v = Inr n" "ps' = ps\<lparr>ps_txn := ucast n, has_txn := True\<rparr>"
    | (ty) ty where "k = ''type''" "v = logTypeToString ty" "ps' = ps\<lparr>ps_type := ty, has_type := True\<rparr>"
    | (no) "k = ''type''" "v \<notin> range logTypeToString" "ps' = ps\<lparr>has_type := False\<rparr>"
    | (other) "k \<noteq> ''timestamp''" "k \<noteq> ''txn''" "k \<noteq> ''type''" "ps' = ps"
  proof (cases "k = ''type''")
    case True
    show ?thesis using stringToLogType_branches [of v "ps_type ps"]
    proof (elim disjE exE conjE)
      fix t assume v: "v = logTypeToString t" and "stringToLogType v (ps_type ps) = (True, t)"
      then have "ps' = ps\<lparr>ps_type := t, has_type := True\<rparr>"
        using assms(2) True by (simp add: parse_field_def)
      with True v ty show ?thesis by blast
    next
      assume "v \<notin> range logTypeToString" and "stringToLogType v (ps_type ps) = (False, ps_type ps)"
      moreover from this have "ps' = ps\<lparr>has_type := False\<rparr>"
        using assms(2) True by (simp add: parse_field_def)
      ultimately show ?thesis using True no by blast
    qed
  next
    case False
    then show ?thesis
      using assms(2) ts txn other by (auto simp: parse_field_def split: sum.splits if_splits)
  qed
  note cases = this
  show "fields_state (fs @ [(k, v)]) ps'"
  proof (cases rule: cases)
    case ts
    then show ?thesis using assms(1) unfolding fields_state_def by simp
  next
    case txn
    then show ?thesis using assms(1) unfolding fields_state_def by simp
  next
    case ty
    then show ?thesis using assms(1) unfolding fields_state_def by simp
  next
    case no
    then show ?thesis using assms(1) unfolding fields_state_def by simp
  next
    case other
    then show ?thesis using assms(1) unfolding fields_state_def by simp
  qed
  show "numbers_ok fs \<Longrightarrow> numbers_ok (fs @ [(k, v)])"
    by (cases rule: cases) (simp_all add: numbers_ok_def parses_def)
qed

lemma parse_field_error: "parse_field k v ps = Inl e \<Longrightarrow> \<not> numbers_ok (fs @ [(k, v)])"
  by (auto simp: parse_field_def numbers_ok_def parses_def Let_def split: sum.splits if_splits prod.splits)

lemma parse_segments_state:
  assumes "fields_state fs ps"
  shows "case parse_segments segs ps of
      Inl e \<Rightarrow> \<not> numbers_ok (fs @ fields_of segs)
    | Inr ps' \<Rightarrow> fields_state (fs @ fields_of segs) ps' \<and>
        (numbers_ok fs \<longrightarrow> numbers_ok (fs @ fields_of segs))"
  using assms
proof (induction segs arbitrary: fs ps)
  case Nil
  then show ?case by simp
next
  case (Cons seg segs)
  show ?case
  proof (cases "split_field seg")
    case None
    then have "fields_of (seg # segs) = fields_of segs" "parse_segments (seg # segs) ps = parse_segments segs ps"
      by simp_all
    then show ?thesis using Cons.IH [OF Cons.prems] by (simp only:)
  next
    case (Some kv)
    obtain k v where kv: "kv = (k, v)" by (cases kv)
    have app: "fs @ fields_of (seg # segs) =
        (fs @ [(k, v)]) @ fields_of segs"
      using Some kv by simp
    show ?thesis
    proof (cases "parse_field k v ps")
      case (Inl e)
      then have "\<not> numbers_ok (fs @ [(k, v)])" by (rule parse_field_error)
      then have "\<not> numbers_ok ((fs @ [(k, v)]) @ fields_of segs)"
        by (auto simp: numbers_ok_def values_of_def)
      then show ?thesis using Some kv Inl app by simp
    next
      case (Inr ps')
      then have "fields_state (fs @ [(k, v)]) ps'" "numbers_ok fs \<longrightarrow> numbers_ok (fs @ [(k, v)])"
        using parse_field_ok [OF Cons.prems] by blast+
      then show ?thesis
        using Cons.IH [of "fs @ [(k, v)]" ps'] Some kv Inr unfolding app
        by (auto split: sum.splits)
    qed
  qed
qed

lemma fromString_spec:
  "case fromString s of
     Inl e \<Rightarrow> \<not> numbers_ok (line_fields s)
   | Inr None \<Rightarrow> numbers_ok (line_fields s) \<and>
       (values_of ''timestamp'' (line_fields s) = [] \<or> values_of ''txn'' (line_fields s) = [] \<or>
        values_of ''type'' (line_fields s) = [] \<or>
        last (values_of ''type'' (line_fields s)) \<notin> range logTypeToString)
   | Inr (Some r) \<Rightarrow> numbers_ok (line_fields s) \<and>
       values_of ''timestamp'' (line_fields s) \<noteq> [] \<and> values_of ''txn'' (line_fields s) \<noteq> [] \<and>
       values_of ''type'' (line_fields s) \<noteq> [] \<and>
       stoll (last (values_of ''timestamp'' (line_fields s))) = Inr (getTimestamp r) \<and>
       (\<exists>n. stoul (last (values_of ''txn'' (line_fields s))) = Inr n \<and> getTransactionId r = ucast n) \<and>
       last (values_of ''type'' (line_fields s)) = logTypeToString (getLogType r)"
proof -
  have start: "fields_state [] parse_start" "numbers_ok []"
    by (simp_all add: fields_state_def time_slot_def txn_slot_def type_slot_def parse_start_def numbers_ok_def)
  note run = parse_segments_state [OF start(1), of "getlines (CHR '','') s", folded line_fields_def]
  show ?thesis
  proof (cases "parse_segments (getlines (CHR '','') s) parse_start")
    case (Inl e)
    with run show ?thesis by (simp add: fromString_def line_fields_def)
  next
    case (Inr ps)
    with run start(2) have ok: "numbers_ok (line_fields s)"
      and st: "time_slot (values_of ''timestamp'' (line_fields s)) ps"
        "txn_slot (values_of ''txn'' (line_fields s)) ps"
        "type_slot (values_of ''type'' (line_fields s)) ps"
      by (simp_all add: line_fields_def fields_state_def)
    show ?thesis
    proof (cases "has_timestamp ps \<and> has_txn ps \<and> has_type ps")
      case True
      with ok st Inr show ?thesis
        by (simp add: fromString_def time_slot_def txn_slot_def type_slot_def split: if_splits)
    next
      case False
      then have "fromString s = Inr None" using Inr by (auto simp: fromString_def)
      moreover have "values_of ''timestamp'' (line_fields s) = [] \<or> values_of ''txn'' (line_fields s) = [] \<or>
          values_of ''type'' (line_fields s) = [] \<or>
          last (values_of ''type'' (line_fields s)) \<notin> range logTypeToString"
        using False st by (auto simp: time_slot_def txn_slot_def type_slot_def split: if_splits)
      ultimately show ?thesis using ok by simp
    qed
  qed
qed

lemma logTypeToString_inject [simp]: "logTypeToString a = logTypeToString b \<longleftrightarrow> a = b"
  by (metis prod.inject stringToLogType_name)

section \<open>Properties\<close>

text \<open>
  C24: the text format loses nothing: parsing the printed form of a log record gives back
  that record, for every transaction id, every type and every 64-bit signed time stamp,
  negative ones included.
\<close>
theorem log_record_roundtrip: "fromString (toString r) = Inr (Some r)"
  by (rule fromString_toString)

text \<open>
  C36: what \<open>fromString\<close> accepts: it returns the record \<open>r\<close> exactly when every time stamp
  and transaction id on the line is a number in range, all three keys occur, and the last
  occurrence of each key gives the corresponding component of \<open>r\<close> (a transaction id cut to
  32 bits); it throws exactly when one of the numbers does not convert, which no missing
  field or unknown type name causes.
\<close>
theorem fromString_accepts:
  "(fromString s = Inr (Some r) \<longleftrightarrow>
      numbers_ok (line_fields s) \<and>
      values_of ''timestamp'' (line_fields s) \<noteq> [] \<and> values_of ''txn'' (line_fields s) \<noteq> [] \<and>
      values_of ''type'' (line_fields s) \<noteq> [] \<and>
      stoll (last (values_of ''timestamp'' (line_fields s))) = Inr (getTimestamp r) \<and>
      (\<exists>n. stoul (last (values_of ''txn'' (line_fields s))) = Inr n \<and> getTransactionId r = ucast n) \<and>
      last (values_of ''type'' (line_fields s)) = logTypeToString (getLogType r)) \<and>
   ((\<exists>e. fromString s = Inl e) \<longleftrightarrow> \<not> numbers_ok (line_fields s))"
proof (cases "fromString s")
  case (Inl e)
  with fromString_spec [of s] show ?thesis by simp
next
  case (Inr q)
  note spec = fromString_spec [of s]
  show ?thesis
  proof (cases q)
    case None
    with spec Inr show ?thesis by auto
  next
    case (Some r')
    with spec Inr show ?thesis
      by (auto simp: getTransactionId_def getLogType_def getTimestamp_def)
  qed
qed

end
