(* ===== verification/LogManager.thy ===== *)
theory LogManager
  imports LogRecord "HOL-Library.Sublist"
begin

text \<open>
  The log manager, \<^verbatim>\<open>src/recovery/LogManager.cpp\<close>: an append-only text file
  written through a buffered output stream and read back line by line. The state separates
  what is on disk from what the stream still holds, so that a flush, a crash between
  flushes and a torn last line are all expressible. How many buffered bytes an output
  operation pushes to the file and whether opening the file for writing succeeds are
  oracles. A file that exists can be opened for reading, and writing bytes to an open file
  succeeds.
\<close>

section \<open>State and operations\<close>

record LogManager =
  log_open :: bool
  log_pending :: string
  log_disk :: "string option"
  log_buffer :: "LogRecord list"
  io_opens :: "bool oracle_seq"
  io_spill :: "nat oracle_seq"

definition disk_text :: "LogManager \<Rightarrow> string" where
  "disk_text m = (case log_disk m of None \<Rightarrow> [] | Some d \<Rightarrow> d)"

text \<open>\<^verbatim>\<open>log_file_.open(path, std::ios::app)\<close> creates a missing file.\<close>

definition open_append :: "LogManager \<Rightarrow> LogManager" where
  "open_append m =
     (if draw (io_opens m)
      then m\<lparr>log_open := True, log_disk := Some (disk_text m), io_opens := rest (io_opens m)\<rparr>
      else m\<lparr>io_opens := rest (io_opens m)\<rparr>)"

definition new_LogManager :: "string option \<Rightarrow> bool oracle_seq \<Rightarrow> nat oracle_seq \<Rightarrow> LogManager" where
  "new_LogManager disk opens spill =
     open_append \<lparr>log_open = False, log_pending = [], log_disk = disk, log_buffer = [],
       io_opens = opens, io_spill = spill\<rparr>"

text \<open>Output goes to the stream's buffer, of which a first part may reach the file at once.\<close>

definition put_text :: "string \<Rightarrow> LogManager \<Rightarrow> LogManager" where
  "put_text s m =
     (let p = log_pending m @ s; k = draw (io_spill m)
      in m\<lparr>log_pending := drop k p, log_disk := Some (disk_text m @ take k p),
           io_spill := rest (io_spill m)\<rparr>)"

definition flush_stream :: "LogManager \<Rightarrow> LogManager" where
  "flush_stream m = m\<lparr>log_pending := [], log_disk := Some (disk_text m @ log_pending m)\<rparr>"

definition close_stream :: "LogManager \<Rightarrow> LogManager" where
  "close_stream m = (flush_stream m)\<lparr>log_open := False\<rparr>"

definition flushLogs :: "LogManager \<Rightarrow> LogManager" where
  "flushLogs m = (if log_open m then flush_stream m else m)"

definition writeLog :: "LogRecord option \<Rightarrow> LogManager \<Rightarrow> LogManager" where
  "writeLog r m =
     (case r of None \<Rightarrow> m
      | Some r \<Rightarrow>
          (let m1 = m\<lparr>log_buffer := log_buffer m @ [r]\<rparr>;
               m2 = (if \<not> log_open m1 then open_append m1 else m1)
           in if log_open m2 then put_text (toString r @ [CHR 0x0A]) m2 else m2))"

text \<open>The loop over the lines of the file: empty lines and lines without a record are skipped.\<close>

fun read_lines :: "string list \<Rightarrow> LogRecord list \<Rightarrow> exn + LogRecord list" where
  "read_lines [] records = Inr records"
| "read_lines (line # lines) records =
     (if line = [] then read_lines lines records
      else (case fromString line of Inl e \<Rightarrow> Inl e
            | Inr None \<Rightarrow> read_lines lines records
            | Inr (Some r) \<Rightarrow> read_lines lines (records @ [r])))"

definition readLogs :: "LogManager \<Rightarrow> exn + LogRecord list" where
  "readLogs m =
     (case log_disk m of None \<Rightarrow> Inr []
      | Some d \<Rightarrow> read_lines (getlines (CHR 0x0A) d) [])"

text \<open>Opening with \<^verbatim>\<open>std::ios::trunc\<close> empties or creates the file.\<close>

definition truncate_file :: "LogManager \<Rightarrow> LogManager" where
  "truncate_file m =
     (if draw (io_opens m) then m\<lparr>log_disk := Some [], io_opens := rest (io_opens m)\<rparr>
      else m\<lparr>io_opens := rest (io_opens m)\<rparr>)"

definition clearLogs :: "LogManager \<Rightarrow> LogManager" where
  "clearLogs m =
     (let m1 = m\<lparr>log_buffer := []\<rparr>;
          m2 = (if log_open m1 then close_stream m1 else m1)
      in open_append (truncate_file m2))"

definition delete_LogManager :: "LogManager \<Rightarrow> LogManager" where
  "delete_LogManager m =
     (let m1 = flushLogs m in if log_open m1 then close_stream m1 else m1)"

section \<open>Log text\<close>

definition log_text :: "LogRecord list \<Rightarrow> string" where
  "log_text rs = concat (map (\<lambda>r. toString r @ [CHR 0x0A]) rs)"

lemma log_text_simps [simp]:
  "log_text [] = []" "log_text (r # rs) = toString r @ CHR 0x0A # log_text rs"
  "log_text (rs @ rs') = log_text rs @ log_text rs'"
  by (simp_all add: log_text_def)

lemma log_text_lines:
  "getlines (CHR 0x0A) (log_text rs @ s) = map toString rs @ getlines (CHR 0x0A) s"
  by (induction rs) (simp_all add: getlines_field toString_one_line)

lemma read_lines_append:
  "read_lines (map toString rs @ ls) acc = read_lines ls (acc @ rs)"
  by (induction rs arbitrary: acc) (simp_all add: fromString_toString)

lemma read_log_text:
  "log_disk m = Some (log_text rs @ s) \<Longrightarrow> readLogs m = read_lines (getlines (CHR 0x0A) s) rs"
  by (simp add: readLogs_def log_text_lines read_lines_append)

section \<open>What the log holds\<close>

text \<open>
  Disk and buffer together hold the lines of \<open>rs\<close>: the log was well formed when the file
  was opened and \<open>rs\<close> are its records and all those written since.
\<close>

definition log_holds :: "LogManager \<Rightarrow> LogRecord list \<Rightarrow> bool" where
  "log_holds m rs \<longleftrightarrow> log_open m \<and> log_disk m \<noteq> None \<and> disk_text m @ log_pending m = log_text rs"

lemma disk_text_upd [simp]:
  "disk_text (m\<lparr>log_disk := Some d\<rparr>) = d" "disk_text (m\<lparr>log_open := b\<rparr>) = disk_text m"
  "disk_text (m\<lparr>log_pending := p\<rparr>) = disk_text m" "disk_text (m\<lparr>log_buffer := q\<rparr>) = disk_text m"
  "disk_text (m\<lparr>io_opens := f\<rparr>) = disk_text m" "disk_text (m\<lparr>io_spill := g\<rparr>) = disk_text m"
  by (simp_all add: disk_text_def)

lemma log_holds_new:
  assumes "opens 0" and "disk = Some (log_text rs) \<or> disk = None \<and> rs = []"
  shows "log_holds (new_LogManager disk opens spill) rs"
  using assms by (auto simp: log_holds_def new_LogManager_def open_append_def draw_def disk_text_def)

lemma put_text_content:
  "disk_text (put_text s m) @ log_pending (put_text s m) = disk_text m @ log_pending m @ s"
  by (simp add: put_text_def Let_def del: take_append drop_append)

lemma put_text_open [simp]: "log_open (put_text s m) = log_open m" "log_disk (put_text s m) \<noteq> None"
  by (simp_all add: put_text_def Let_def)

lemma log_holds_write: "log_holds m rs \<Longrightarrow> log_holds (writeLog (Some r) m) (rs @ [r])"
  by (simp add: log_holds_def writeLog_def put_text_content flip: append_assoc)

lemma log_holds_flush: "log_holds m rs \<Longrightarrow> log_holds (flushLogs m) rs"
  by (simp add: log_holds_def flushLogs_def flush_stream_def)

lemma read_flushed: "log_holds m rs \<Longrightarrow> readLogs (flushLogs m) = Inr rs"
  using read_log_text [of "flushLogs m" rs "[]"]
  by (simp add: log_holds_def flushLogs_def flush_stream_def)

text \<open>
  The contract of a durable log, stated apart from files: appending extends what the log
  holds, synchronising keeps it, and after synchronising it can be read back in order.
\<close>

locale durable_log =
  fixes holds :: "'s \<Rightarrow> 'r list \<Rightarrow> bool" and append :: "'r \<Rightarrow> 's \<Rightarrow> 's"
    and sync :: "'s \<Rightarrow> 's" and read :: "'s \<Rightarrow> exn + 'r list"
  assumes holds_append: "holds s rs \<Longrightarrow> holds (append r s) (rs @ [r])"
    and holds_sync: "holds s rs \<Longrightarrow> holds (sync s) rs"
    and read_sync: "holds s rs \<Longrightarrow> read (sync s) = Inr rs"
begin

lemma holds_appends: "holds s rs \<Longrightarrow> holds (fold append rs' s) (rs @ rs')"
proof (induction rs' arbitrary: s rs)
  case (Cons r rs')
  then show ?case using holds_append [of s rs r] Cons.IH [of "append r s" "rs @ [r]"] by simp
qed simp

lemma read_appends: "holds s rs \<Longrightarrow> read (sync (fold append rs' s)) = Inr (rs @ rs')"
  by (rule read_sync [OF holds_appends])

lemma read_determined: "holds s rs \<Longrightarrow> holds s rs' \<Longrightarrow> rs = rs'"
  using read_sync [of s rs] read_sync [of s rs'] by simp

lemma sync_twice: "holds s rs \<Longrightarrow> read (sync (sync s)) = read (sync s)"
  by (simp add: read_sync holds_sync)

end

interpretation text_log: durable_log log_holds "\<lambda>r. writeLog (Some r)" flushLogs readLogs
  by unfold_locales (simp_all add: log_holds_write log_holds_flush read_flushed)

section \<open>Torn lines\<close>

text \<open>
  A crash may leave a first part of a line at the end of the file. What the parser makes
  of it depends on where the line was cut.
\<close>

lemma digits_value_append: "digits_value (a @ b) \<ge> digits_value a"
proof (induction b rule: rev_induct)
  case (snoc c b)
  then show ?case by (simp add: digits_value_snoc flip: append_assoc)
qed simp

lemma prefix_digits:
  assumes "prefix v (nat_to_string n)"
  shows "\<forall>c\<in>set v. is_digit c" and "digits_value v \<le> n"
proof -
  obtain u where u: "nat_to_string n = v @ u" using assms by (auto simp: prefix_def)
  then show "\<forall>c\<in>set v. is_digit c" using nat_to_string_digits [of _ n] by auto
  show "digits_value v \<le> n" using digits_value_append [of v u] by (simp flip: u)
qed

lemma scan_digits: "v \<noteq> [] \<Longrightarrow> \<forall>c\<in>set v. is_digit c \<Longrightarrow> scan_number v = Some (False, digits_value v)"
  by (simp add: scan_number_def scan_sign_digits dropWhile_space_digits takeWhile_eq_all_conv [THEN iffD2])

lemma scan_torn:
  assumes "prefix v (int_to_string i)"
  shows "if v = [] \<or> v = ''-'' then scan_number v = None
         else (\<exists>m. scan_number v = Some (i < 0, m) \<and> m \<le> nat \<bar>i\<bar>)"
proof (cases "i < 0")
  case True
  have minus: "\<not> is_space (CHR ''-'')" "\<not> is_digit (CHR ''-'')" by (simp_all add: is_space_def is_digit_def)
  show ?thesis
  proof (cases v)
    case Nil
    then show ?thesis by (simp add: scan_number_def scan_sign_def)
  next
    case (Cons c u)
    then have c: "c = CHR ''-''" and u: "prefix u (nat_to_string (nat (- i)))"
      using assms True by (simp_all add: int_to_string_def)
    have "scan_number v = (if u = [] then None else Some (True, digits_value u))"
      using prefix_digits(1) [OF u]
      by (simp add: Cons c minus scan_number_def scan_sign_def takeWhile_eq_all_conv [THEN iffD2])
    then show ?thesis using prefix_digits(2) [OF u] True by (cases "u = []") (simp_all add: Cons c)
  qed
next
  case False
  then have v: "prefix v (nat_to_string (nat i))" using assms by (simp add: int_to_string_def)
  have "v \<noteq> ''-''" using prefix_digits(1) [OF v] by (auto simp: is_digit_def)
  moreover have "scan_number [] = None" by (simp add: scan_number_def scan_sign_def)
  ultimately show ?thesis
    using scan_digits [OF _ prefix_digits(1) [OF v]] prefix_digits(2) [OF v] False by simp
qed

lemma stoll_torn:
  fixes w :: "64 word"
  assumes "prefix v (int_to_string (sint w))"
  shows "if v = [] \<or> v = ''-'' then stoll v = Inl Invalid_argument else (\<exists>t. stoll v = Inr t)"
proof (cases "v = [] \<or> v = ''-''")
  case True
  then show ?thesis using scan_torn [OF assms] by (auto simp: stoll_def)
next
  case False
  then obtain m where m: "scan_number v = Some (sint w < 0, m)" "m \<le> nat \<bar>sint w\<bar>"
    using scan_torn [OF assms] by (auto split: if_splits)
  then have "\<not> signed_value (sint w < 0) m < - (2 ^ 63)" "\<not> signed_value (sint w < 0) m > 2 ^ 63 - 1"
    using sint_bounds [of w] by (auto simp: signed_value_def)
  then show ?thesis using m(1) False by (simp add: stoll_def)
qed

lemma stoul_torn:
  fixes w :: u32
  assumes "prefix v (int_to_string (uint w))"
  shows "if v = [] then stoul v = Inl Invalid_argument else (\<exists>t. stoul v = Inr t)"
proof (cases "v = []")
  case True
  then show ?thesis using scan_torn [OF assms] by (auto simp: stoul_def)
next
  case False
  have "v \<noteq> ''-''" using assms prefix_digits(1) by (fastforce simp: int_to_string_def is_digit_def)
  then obtain m where m: "scan_number v = Some (False, m)" "m \<le> nat (uint w)"
    using scan_torn [OF assms] False by auto
  have "unat w < 2 ^ 32" using unsigned_less [of w, where ?'a = nat] by simp
  then have "m \<le> 2 ^ 64 - 1" using m(2) by simp
  then show ?thesis using m(1) False by (simp add: stoul_def not_less)
qed

lemma type_name_prefix: "prefix (logTypeToString a) (logTypeToString b) \<Longrightarrow> a = b"
  by (cases a; cases b; simp)

lemma torn_cases:
  assumes "prefix q (key @ CHR ''='' # v)" and "CHR ''='' \<notin> set key"
  obtains (before) "split_field q = None" "\<forall>u. q \<noteq> key @ CHR ''='' # u"
    | (inside) v' where "prefix v' v" "q = key @ CHR ''='' # v'" "split_field q = Some (key, v')"
proof (cases "prefix q key")
  case True
  then have "CHR ''='' \<notin> set q" using assms(2) by (auto simp: prefix_def)
  then show ?thesis by (intro before) (auto simp: split_field_def)
next
  case False
  then obtain v' where "q = key @ CHR ''='' # v'" "prefix v' v"
    using assms(1) by (auto simp: prefix_append prefix_Cons)
  then show ?thesis using inside split_field_eq [OF assms(2)] by blast
qed

text \<open>The three fields of a printed record.\<close>

abbreviation time_field :: "LogRecord \<Rightarrow> string" where
  "time_field r \<equiv> ''timestamp'' @ CHR ''='' # int_to_string (sint (log_timestamp r))"

abbreviation txn_field :: "LogRecord \<Rightarrow> string" where
  "txn_field r \<equiv> ''txn'' @ CHR ''='' # int_to_string (uint (log_txn r))"

abbreviation type_field :: "LogRecord \<Rightarrow> string" where
  "type_field r \<equiv> ''type'' @ CHR ''='' # logTypeToString (log_type r)"

lemma toString_fields:
  "toString r = time_field r @ CHR '','' # txn_field r @ CHR '','' # type_field r"
  by (simp add: toString_def)

lemma field_chars:
  "CHR '','' \<notin> set (time_field r)" "CHR '','' \<notin> set (txn_field r)" "CHR '','' \<notin> set (type_field r)"
  by (simp_all add: int_to_string_no_sep logTypeToString_chars)

lemma prefix_sep:
  "prefix p (a @ c # b) \<longleftrightarrow> prefix p a \<or> (\<exists>q. p = a @ c # q \<and> prefix q b)"
  by (auto simp: prefix_append prefix_Cons)

lemma prefix_no_char: "prefix p a \<Longrightarrow> c \<notin> set a \<Longrightarrow> c \<notin> set p"
  by (auto simp: prefix_def)

text \<open>The line cut in its first, second and third field.\<close>

lemma torn_time:
  assumes "prefix p (time_field r)"
  shows "fromString p =
    (if p = ''timestamp='' \<or> p = ''timestamp=-'' then Inl Invalid_argument else Inr None)"
proof -
  have segs: "getlines (CHR '','') p = (if p = [] then [] else [p])"
    using prefix_no_char [OF assms field_chars(1)] by (rule getlines_last)
  have key: "CHR ''='' \<notin> set ''timestamp''" by simp
  from assms key show ?thesis
  proof (cases rule: torn_cases)
    case before
    have "p \<noteq> ''timestamp=''" "p \<noteq> ''timestamp=-''"
      using before(2) [THEN spec, of "[]"] before(2) [THEN spec, of "''-''"] by simp_all
    then show ?thesis using before by (simp add: fromString_def segs parse_start_def)
  next
    case (inside v)
    then show ?thesis
      using stoll_torn [OF inside(1)]
      unfolding fromString_def segs
      by (cases "v = [] \<or> v = ''-''") (auto simp: parse_field_def parse_start_def inside)
  qed
qed

lemma parse_time_field:
  "parse_segments (time_field r # segs) ps =
   parse_segments segs (ps\<lparr>ps_timestamp := log_timestamp r, has_timestamp := True\<rparr>)"
  unfolding parse_segments.simps split_three option.case prod.case
  by (simp add: parse_field_def stoll_print)

lemma parse_txn_field:
  "parse_segments (txn_field r # segs) ps =
   parse_segments segs (ps\<lparr>ps_txn := log_txn r, has_txn := True\<rparr>)"
  unfolding parse_segments.simps split_three option.case prod.case
  by (simp add: parse_field_def stoul_print)

lemma torn_txn:
  assumes "prefix q (txn_field r)"
  shows "fromString (time_field r @ CHR '','' # q) =
    (if q = ''txn='' then Inl Invalid_argument else Inr None)"
proof -
  have "getlines (CHR '','') q = (if q = [] then [] else [q])"
    using prefix_no_char [OF assms field_chars(2)] by (rule getlines_last)
  then have segs: "getlines (CHR '','') (time_field r @ CHR '','' # q) =
      time_field r # (if q = [] then [] else [q])"
    using getlines_field [OF field_chars(1)] by simp
  have key: "CHR ''='' \<notin> set ''txn''" by simp
  from assms key show ?thesis
  proof (cases rule: torn_cases)
    case before
    have "q \<noteq> ''txn=''" using before(2) [THEN spec, of "[]"] by simp
    then show ?thesis
      unfolding fromString_def segs parse_time_field by (simp add: parse_start_def before(1))
  next
    case (inside v)
    then show ?thesis
      using stoul_torn [OF inside(1)] unfolding fromString_def segs parse_time_field
      by (cases "v = []"; auto simp: parse_field_def parse_start_def inside)
  qed
qed

lemma torn_type:
  assumes "prefix q (type_field r)"
  shows "fromString (time_field r @ CHR '','' # txn_field r @ CHR '','' # q) =
    (if q = type_field r then Inr (Some r) else Inr None)"
proof -
  have "getlines (CHR '','') q = (if q = [] then [] else [q])"
    using prefix_no_char [OF assms field_chars(3)] by (rule getlines_last)
  then have segs: "getlines (CHR '','') (time_field r @ CHR '','' # txn_field r @ CHR '','' # q) =
      time_field r # txn_field r # (if q = [] then [] else [q])"
    using getlines_field [OF field_chars(1)] getlines_field [OF field_chars(2)] by simp
  have key: "CHR ''='' \<notin> set ''type''" by simp
  from assms key show ?thesis
  proof (cases rule: torn_cases)
    case before
    have "q \<noteq> type_field r" by (rule before(2) [THEN spec])
    then show ?thesis
      unfolding fromString_def segs parse_time_field parse_txn_field
      by (simp add: parse_start_def before(1))
  next
    case (inside v)
    show ?thesis
    proof (cases "v = logTypeToString (log_type r)")
      case True
      then have "q = type_field r" using inside(2) by simp
      moreover have "fromString (time_field r @ CHR '','' # txn_field r @ CHR '','' # type_field r) = Inr (Some r)"
        by (simp only: fromString_toString flip: toString_fields)
      ultimately show ?thesis by (simp only: refl if_True)
    next
      case False
      then have "v \<notin> range logTypeToString" using inside(1) type_name_prefix by blast
      then have "stringToLogType v BEGIN = (False, BEGIN)"
        using stringToLogType_branches [of v BEGIN] by blast
      moreover have "q \<noteq> type_field r" using inside(2) False by simp
      ultimately show ?thesis
        unfolding fromString_def segs parse_time_field parse_txn_field
        by (simp add: parse_field_def parse_start_def inside(3))
    qed
  qed
qed

lemma torn_line:
  assumes "prefix p (toString r)"
  shows "fromString p =
    (if p = toString r then Inr (Some r)
     else if p = ''timestamp='' \<or> p = ''timestamp=-'' \<or> p = time_field r @ '',txn='' then Inl Invalid_argument
     else Inr None)"
proof -
  consider "prefix p (time_field r)"
    | q where "p = time_field r @ CHR '','' # q" "prefix q (txn_field r)"
    | q where "p = time_field r @ CHR '','' # txn_field r @ CHR '','' # q" "prefix q (type_field r)"
    using assms unfolding toString_fields prefix_sep by blast
  then show ?thesis
  proof cases
    case 1
    have "p \<noteq> toString r" "p \<noteq> time_field r @ '',txn=''"
      using prefix_length_le [OF 1] by (auto simp: toString_fields)
    then show ?thesis using torn_time [OF 1] by simp
  next
    case (2 q)
    have "p \<noteq> toString r" using 2 prefix_length_le [OF 2(2)] by (auto simp: toString_fields)
    moreover have "p \<noteq> ''timestamp=''" "p \<noteq> ''timestamp=-''" "p = time_field r @ '',txn='' \<longleftrightarrow> q = ''txn=''"
      using 2(1) by (auto dest!: arg_cong [of _ _ "\<lambda>s. CHR '','' \<in> set s"])
    ultimately show ?thesis using torn_txn [OF 2(2)] 2(1) by simp
  next
    case (3 q)
    have "p \<noteq> ''timestamp=''" "p \<noteq> ''timestamp=-''" "p \<noteq> time_field r @ '',txn=''"
      using 3(1) by (auto dest!: arg_cong [of _ _ "\<lambda>s. CHR '','' \<in> set s"])
    moreover have "p = toString r \<longleftrightarrow> q = type_field r" using 3(1) by (simp add: toString_fields)
    ultimately show ?thesis using torn_type [OF 3(2)] 3(1) by simp
  qed
qed

section \<open>Crashes\<close>

text \<open>
  A crash loses the stream's buffer; the next process opens the file that is on disk.
\<close>

definition crash_restart :: "LogManager \<Rightarrow> bool oracle_seq \<Rightarrow> nat oracle_seq \<Rightarrow> LogManager" where
  "crash_restart m opens spill = new_LogManager (log_disk m) opens spill"

abbreviation write_all :: "LogRecord list \<Rightarrow> LogManager \<Rightarrow> LogManager" where
  "write_all rs m \<equiv> fold (\<lambda>r. writeLog (Some r)) rs m"

lemma readLogs_crash:
  "log_disk m \<noteq> None \<Longrightarrow> readLogs (crash_restart m opens spill) = readLogs m"
  by (auto simp: readLogs_def crash_restart_def new_LogManager_def open_append_def disk_text_def)

lemma disk_grows_open: "prefix (disk_text m) (disk_text (open_append m))"
  by (simp add: open_append_def)

lemma disk_grows_put: "prefix (disk_text m) (disk_text (put_text s m))"
  by (simp add: put_text_def Let_def)

lemma disk_grows_write: "prefix (disk_text m) (disk_text (writeLog (Some r) m))"
proof -
  define m1 where "m1 = m\<lparr>log_buffer := log_buffer m @ [r]\<rparr>"
  define m2 where "m2 = (if \<not> log_open m1 then open_append m1 else m1)"
  have "prefix (disk_text m) (disk_text m2)"
    using disk_grows_open [of m1] by (simp add: m1_def m2_def)
  moreover have "writeLog (Some r) m =
      (if log_open m2 then put_text (toString r @ [CHR 0x0A]) m2 else m2)"
    by (simp add: writeLog_def Let_def m1_def m2_def)
  moreover have "prefix (disk_text m2) (disk_text (put_text (toString r @ [CHR 0x0A]) m2))"
    by (rule disk_grows_put)
  ultimately show ?thesis by (simp split: if_splits)
qed

lemma disk_grows: "prefix (disk_text m) (disk_text (write_all rs m))"
proof (induction rs arbitrary: m)
  case (Cons r rs)
  then show ?case using disk_grows_write prefix_order.trans by fastforce
qed simp

lemma prefix_log_text:
  assumes "prefix s (log_text rs)"
  shows "\<exists>k p. s = log_text (take k rs) @ p \<and> (p = [] \<or> k < length rs \<and> prefix p (toString (rs ! k)))"
  using assms
proof (induction rs arbitrary: s)
  case Nil
  then show ?case by simp
next
  case (Cons r rs)
  have "prefix s (toString r @ CHR 0x0A # log_text rs)" using Cons.prems by simp
  then consider "prefix s (toString r)" | q where "s = toString r @ CHR 0x0A # q" "prefix q (log_text rs)"
    unfolding prefix_sep by blast
  then show ?case
  proof cases
    case 1
    then show ?thesis by (intro exI [of _ 0] exI [of _ s]) simp
  next
    case (2 q)
    with Cons.IH obtain k p where "q = log_text (take k rs) @ p"
      "p = [] \<or> k < length rs \<and> prefix p (toString (rs ! k))" by blast
    with 2 show ?thesis by (intro exI [of _ "Suc k"] exI [of _ p]) simp
  qed
qed

lemma read_torn:
  assumes "log_disk m = Some (log_text rs @ p)" and "p = [] \<or> prefix p (toString r)"
  shows "readLogs m \<in> {Inr rs, Inr (rs @ [r]), Inl Invalid_argument}"
proof (cases "p = []")
  case True
  then show ?thesis using assms read_log_text [of m rs "[]"] by simp
next
  case False
  then have p: "prefix p (toString r)" using assms(2) by simp
  then have "getlines (CHR 0x0A) p = [p]"
    using False getlines_last [OF prefix_no_char [OF p toString_one_line]] by simp
  then have "readLogs m = read_lines [p] rs" using assms(1) read_log_text by simp
  then show ?thesis using False torn_line [OF p] by (simp split: if_splits)
qed

lemma flushed_disk: "log_holds m rs \<Longrightarrow> log_disk (flushLogs m) = Some (log_text rs)"
  by (simp add: log_holds_def flushLogs_def flush_stream_def)

lemma crash_disk:
  assumes "log_holds m rs"
  obtains s where "log_disk (write_all rs' (flushLogs m)) = Some (log_text rs @ s)"
    and "prefix s (log_text rs')"
proof -
  let ?m = "write_all rs' (flushLogs m)"
  have "log_holds ?m (rs @ rs')"
    by (rule text_log.holds_appends [OF log_holds_flush [OF assms]])
  then obtain d where d: "log_disk ?m = Some d" and all: "d @ log_pending ?m = log_text rs @ log_text rs'"
    by (auto simp: log_holds_def disk_text_def)
  have "prefix (log_text rs) d"
    using disk_grows [of "flushLogs m" rs'] d flushed_disk [OF assms] by (simp add: disk_text_def)
  then obtain s where "d = log_text rs @ s" by (auto simp: prefix_def)
  moreover from this all have "log_text rs' = s @ log_pending ?m" by simp
  ultimately show ?thesis using d that [of s] by (simp add: prefix_def)
qed

text \<open>What a reader makes of a file that ends with a part of the text of some records.\<close>

lemma torn_reads:
  assumes d: "log_disk m = Some (log_text rs @ s)" and "prefix s (log_text rs')"
  shows "readLogs (crash_restart m opens spill) = Inl Invalid_argument \<or>
    (\<exists>k. readLogs (crash_restart m opens spill) = Inr (rs @ take k rs'))"
proof -
  obtain k p where s: "s = log_text (take k rs') @ p"
    and p: "p = [] \<or> k < length rs' \<and> prefix p (toString (rs' ! k))"
    using prefix_log_text assms(2) by blast
  have "log_disk m = Some (log_text (rs @ take k rs') @ p)"
    using d s by simp
  then have "readLogs m \<in> {Inr (rs @ take k rs'), Inr ((rs @ take k rs') @ [rs' ! k]), Inl Invalid_argument}"
    by (rule read_torn) (use p in blast)
  moreover have "k < length rs' \<or> readLogs m = Inr (rs @ take k rs')"
    using p d s read_log_text [of _ "rs @ take k rs'" "[]"] by auto
  ultimately show ?thesis
    using d readLogs_crash [of m]
    by (auto simp: take_Suc_conv_app_nth intro: exI [of _ k] exI [of _ "Suc k"])
qed

lemma crash_reads:
  assumes "log_holds m rs"
  shows "readLogs (crash_restart (write_all rs' (flushLogs m)) opens spill) = Inl Invalid_argument \<or>
    (\<exists>k. readLogs (crash_restart (write_all rs' (flushLogs m)) opens spill) = Inr (rs @ take k rs'))"
  using crash_disk [OF assms] torn_reads by metis

section \<open>Properties\<close>

text \<open>
  C35: the log survives a restart and an orderly run: a manager opened on the file of an
  earlier run, given any further records and flushed, reads back the earlier records
  followed by the new ones, in order, however the stream's buffer was spilled meanwhile.
\<close>
theorem log_write_flush_read:
  assumes "opens 0"
  shows "readLogs (flushLogs (write_all rs' (new_LogManager (Some (log_text rs)) opens spill))) = Inr (rs @ rs')"
  using assms by (intro text_log.read_appends log_holds_new) auto

theorem log_write_flush_read_witness:
  "readLogs (flushLogs (write_all [new_LogRecord 7 COMMIT 12]
      (new_LogManager (Some (log_text [new_LogRecord 7 BEGIN (-3)])) (\<lambda>_. True) (\<lambda>n. 5 * n + 3)))) =
   Inr [new_LogRecord 7 BEGIN (-3), new_LogRecord 7 COMMIT 12]"
  using log_write_flush_read [of "\<lambda>_. True" "[new_LogRecord 7 COMMIT 12]" "[new_LogRecord 7 BEGIN (-3)]"]
  by simp

text \<open>
  C23: a crash loses nothing that was flushed and keeps the order: whatever was written
  after the last flush, at whatever byte the crash cut it, the next process either reads
  the flushed records followed by a first part of the later ones, or, when the last line
  was cut right where a number should start, gets an exception from \<open>readLogs\<close>.
\<close>
theorem crash_keeps_flushed:
  assumes "log_holds m rs"
  shows "readLogs (crash_restart (write_all rs' (flushLogs m)) opens spill) = Inl Invalid_argument \<or>
    (\<exists>k. readLogs (crash_restart (write_all rs' (flushLogs m)) opens spill) = Inr (rs @ take k rs'))"
  using assms by (rule crash_reads)

theorem crash_keeps_flushed_witness:
  "readLogs (crash_restart (write_all [new_LogRecord 1 UPDATE 5, new_LogRecord 1 COMMIT 6]
      (flushLogs (new_LogManager None (\<lambda>_. True) (\<lambda>_. 40)))) (\<lambda>_. True) (\<lambda>_. 0)) = Inl Invalid_argument \<or>
   (\<exists>k. readLogs (crash_restart (write_all [new_LogRecord 1 UPDATE 5, new_LogRecord 1 COMMIT 6]
      (flushLogs (new_LogManager None (\<lambda>_. True) (\<lambda>_. 40)))) (\<lambda>_. True) (\<lambda>_. 0)) =
      Inr (take k [new_LogRecord 1 UPDATE 5, new_LogRecord 1 COMMIT 6]))"
  using crash_keeps_flushed [of "new_LogManager None (\<lambda>_. True) (\<lambda>_. 40)" "[]"
      "[new_LogRecord 1 UPDATE 5, new_LogRecord 1 COMMIT 6]" "\<lambda>_. True" "\<lambda>_. 0",
      OF log_holds_new]
  by simp

text \<open>
  The exception is reachable, and permanent: a log whose last line was cut right after
  \<open>timestamp=\<close> or after \<open>txn=\<close> makes \<open>readLogs\<close> throw
  \<^verbatim>\<open>std::invalid_argument\<close> in every later process, however many good records
  precede it, although the reader means to skip lines that are not records.
\<close>
theorem torn_line_throws:
  "readLogs (new_LogManager (Some (log_text rs @ ''timestamp='')) opens spill) = Inl Invalid_argument \<and>
   readLogs (new_LogManager (Some (log_text rs @ time_field r @ '',txn='')) opens spill) = Inl Invalid_argument"
proof -
  have disk: "log_disk (new_LogManager (Some d) opens spill) = Some d" for d
    by (simp add: new_LogManager_def open_append_def disk_text_def)
  have "readLogs (new_LogManager (Some (log_text rs @ p)) opens spill) = Inl Invalid_argument"
    if "prefix p (toString r)" "p \<noteq> toString r" "p = ''timestamp='' \<or> p = time_field r @ '',txn=''" for p
  proof -
    have "p \<noteq> []" using that(3) by auto
    then have "getlines (CHR 0x0A) p = [p]"
      using getlines_last [OF prefix_no_char [OF that(1) toString_one_line]] by simp
    moreover have "p = ''timestamp='' \<or> p = ''timestamp=-'' \<or> p = time_field r @ '',txn=''"
      using that(3) by blast
    then have "fromString p = Inl Invalid_argument"
      by (simp only: torn_line [OF that(1)] if_not_P [OF that(2)] if_True)
    ultimately show ?thesis using read_log_text [OF disk, of rs p] \<open>p \<noteq> []\<close> by simp
  qed
  moreover have "prefix ''timestamp='' (toString r)" "''timestamp='' \<noteq> toString r"
    "prefix (time_field r @ '',txn='') (toString r)" "time_field r @ '',txn='' \<noteq> toString r"
    by (simp_all add: toString_def)
  ultimately show ?thesis by blast
qed

lemma clearLogs_holds:
  assumes "log_open m" and "io_opens m 0" and "io_opens m 1"
  shows "log_holds (clearLogs m) []" and "log_disk (clearLogs m) = Some []" and "log_buffer (clearLogs m) = []"
  using assms
  by (simp_all add: log_holds_def clearLogs_def open_append_def truncate_file_def close_stream_def
      flush_stream_def draw_def rest_def Let_def)

text \<open>
  \<open>clearLogs\<close> empties the log for good: when the file can be opened, nothing written
  before is read back any more, not even what the stream still held, and the manager is
  ready for new records.
\<close>
theorem clearLogs_empties:
  assumes "log_open m" and "io_opens m 0" and "io_opens m 1"
  shows "readLogs (clearLogs m) = Inr [] \<and> log_buffer (clearLogs m) = [] \<and>
    readLogs (flushLogs (write_all rs (clearLogs m))) = Inr rs"
  using clearLogs_holds [OF assms] text_log.read_appends [of "clearLogs m" "[]" rs] by (simp add: readLogs_def)

theorem clearLogs_empties_witness:
  "readLogs (clearLogs (writeLog (Some (new_LogRecord 1 BEGIN 5))
      (new_LogManager (Some ''timestamp='') (\<lambda>_. True) (\<lambda>_. 4)))) = Inr [] \<and>
   readLogs (flushLogs (write_all [new_LogRecord 2 BEGIN 8]
      (clearLogs (writeLog (Some (new_LogRecord 1 BEGIN 5))
        (new_LogManager (Some ''timestamp='') (\<lambda>_. True) (\<lambda>_. 4)))))) =
   Inr [new_LogRecord 2 BEGIN 8]"
proof -
  let ?m = "writeLog (Some (new_LogRecord 1 BEGIN 5))
    (new_LogManager (Some ''timestamp='') (\<lambda>_. True) (\<lambda>_. 4))"
  have "log_open ?m" "io_opens ?m 0" "io_opens ?m 1"
    by (simp_all add: writeLog_def new_LogManager_def open_append_def put_text_def draw_def rest_def Let_def)
  from clearLogs_empties [OF this, of "[new_LogRecord 2 BEGIN 8]"] show ?thesis by simp
qed

end
