(* ===== verification/Recovery.thy ===== *)
theory Recovery
  imports LogManager Utils
begin

text \<open>
  Crash recovery, \<^verbatim>\<open>src/recovery/RecoveryManager.cpp\<close>: the analysis of the log,
  the collection of the records to redo and the abort records written for the
  transactions without an outcome. The shared log manager is a component of the state. An
  exception of \<open>readLogs\<close> leaves the manager in the phase it was in: the left summand
  carries that state. The records that undo creates are stamped from the clock oracle.
\<close>

section \<open>State and operations\<close>

record RecoveryManager =
  log_manager :: LogManager
  recovery_state :: RecoveryState
  committed_txns :: "u32 fset"
  incomplete_txns :: "u32 fset"
  redo_records :: "LogRecord list"
  undo_records :: "LogRecord list"
  rec_clock :: "64 word oracle_seq"

type_synonym recovered = "exn \<times> RecoveryManager + RecoveryManager"

definition new_RecoveryManager :: "LogManager \<Rightarrow> 64 word oracle_seq \<Rightarrow> RecoveryManager" where
  "new_RecoveryManager lm clock = \<lparr>log_manager = lm, recovery_state = ANALYSIS,
     committed_txns = {||}, incomplete_txns = {||}, redo_records = [], undo_records = [],
     rec_clock = clock\<rparr>"

definition isDataModificationType :: "LogType \<Rightarrow> bool" where
  "isDataModificationType ty \<longleftrightarrow> ty = INSERT \<or> ty = UPDATE \<or> ty = DELETE"

text \<open>The analysis loop carries the committed and the active transactions.\<close>

fun analyze_loop :: "LogRecord list \<Rightarrow> u32 fset \<Rightarrow> u32 fset \<Rightarrow> u32 fset \<times> u32 fset" where
  "analyze_loop [] committed active = (committed, active)"
| "analyze_loop (r # rs) committed active =
     (case getLogType r of
        BEGIN \<Rightarrow> analyze_loop rs committed (finsert (getTransactionId r) active)
      | COMMIT \<Rightarrow> analyze_loop rs (finsert (getTransactionId r) committed)
                    (active |-| {|getTransactionId r|})
      | ABORT \<Rightarrow> analyze_loop rs committed (active |-| {|getTransactionId r|})
      | _ \<Rightarrow> analyze_loop rs committed active)"

definition analyze :: "RecoveryManager \<Rightarrow> recovered" where
  "analyze m =
     (let m1 = m\<lparr>committed_txns := {||}, incomplete_txns := {||}\<rparr>
      in case readLogs (log_manager m1) of Inl e \<Rightarrow> Inl (e, m1)
         | Inr logs \<Rightarrow>
             (let (committed, active) = analyze_loop logs {||} {||}
              in Inr (m1\<lparr>committed_txns := committed, incomplete_txns := active\<rparr>)))"

fun redo_loop :: "u32 fset \<Rightarrow> LogRecord list \<Rightarrow> LogRecord list \<Rightarrow> LogRecord list" where
  "redo_loop committed [] acc = acc"
| "redo_loop committed (r # rs) acc =
     (if getTransactionId r |\<notin>| committed then redo_loop committed rs acc
      else if isDataModificationType (getLogType r) then redo_loop committed rs (acc @ [r])
      else redo_loop committed rs acc)"

definition redo :: "RecoveryManager \<Rightarrow> recovered" where
  "redo m =
     (let m1 = m\<lparr>redo_records := []\<rparr>
      in case readLogs (log_manager m1) of Inl e \<Rightarrow> Inl (e, m1)
         | Inr logs \<Rightarrow> Inr (m1\<lparr>redo_records := redo_loop (committed_txns m1) logs []\<rparr>))"

definition undo_one :: "u32 \<Rightarrow> RecoveryManager \<Rightarrow> RecoveryManager" where
  "undo_one t m =
     (let r = new_LogRecord t ABORT (draw (rec_clock m))
      in m\<lparr>rec_clock := rest (rec_clock m), log_manager := writeLog (Some r) (log_manager m),
           undo_records := undo_records m @ [r]\<rparr>)"

definition undo :: "RecoveryManager \<Rightarrow> RecoveryManager" where
  "undo m =
     (let m1 = m\<lparr>undo_records := []\<rparr>;
          txn_ids = sort (set_elems (incomplete_txns m1));
          m2 = fold undo_one txn_ids m1
      in if txn_ids \<noteq> [] then m2\<lparr>log_manager := flushLogs (log_manager m2)\<rparr> else m2)"

definition performRecovery :: "RecoveryManager \<Rightarrow> recovered" where
  "performRecovery m =
     (case analyze (m\<lparr>recovery_state := ANALYSIS\<rparr>) of Inl err \<Rightarrow> Inl err
      | Inr m1 \<Rightarrow>
          (case redo (m1\<lparr>recovery_state := REDO\<rparr>) of Inl err \<Rightarrow> Inl err
           | Inr m2 \<Rightarrow> Inr ((undo (m2\<lparr>recovery_state := UNDO\<rparr>))\<lparr>recovery_state := COMPLETE\<rparr>)))"

definition getRecoveryState :: "RecoveryManager \<Rightarrow> RecoveryState" where
  "getRecoveryState m = recovery_state m"

definition getCommittedTransactionIds :: "RecoveryManager \<Rightarrow> u32 list" where
  "getCommittedTransactionIds m = set_elems (committed_txns m)"

definition getIncompleteTransactionIds :: "RecoveryManager \<Rightarrow> u32 list" where
  "getIncompleteTransactionIds m = set_elems (incomplete_txns m)"

definition getRedoRecords :: "RecoveryManager \<Rightarrow> LogRecord list" where
  "getRedoRecords m = redo_records m"

definition getUndoRecords :: "RecoveryManager \<Rightarrow> LogRecord list" where
  "getUndoRecords m = undo_records m"

section \<open>What the log says\<close>

text \<open>
  The specification: a transaction is committed when the log has a commit record of it,
  and incomplete when its last control record is a begin record.
\<close>

definition has_record :: "LogType \<Rightarrow> u32 \<Rightarrow> LogRecord list \<Rightarrow> bool" where
  "has_record ty t rs \<longleftrightarrow> (\<exists>r\<in>set rs. getLogType r = ty \<and> getTransactionId r = t)"

definition is_control :: "u32 \<Rightarrow> LogRecord \<Rightarrow> bool" where
  "is_control t r \<longleftrightarrow> getTransactionId r = t \<and> getLogType r \<in> {BEGIN, COMMIT, ABORT}"

definition log_committed :: "LogRecord list \<Rightarrow> u32 set" where
  "log_committed rs = {t. has_record COMMIT t rs}"

definition log_incomplete :: "LogRecord list \<Rightarrow> u32 set" where
  "log_incomplete rs = {t. filter (is_control t) rs \<noteq> [] \<and> getLogType (last (filter (is_control t) rs)) = BEGIN}"

definition log_redo :: "LogRecord list \<Rightarrow> LogRecord list" where
  "log_redo rs = filter (\<lambda>r. getTransactionId r \<in> log_committed rs \<and> isDataModificationType (getLogType r)) rs"

lemma has_record_simps [simp]:
  "\<not> has_record ty t []"
  "has_record ty t (rs @ [r]) \<longleftrightarrow> has_record ty t rs \<or> getLogType r = ty \<and> getTransactionId r = t"
  by (auto simp: has_record_def)

lemma analyze_loop_append:
  "analyze_loop (rs @ rs') c a = (let (c', a') = analyze_loop rs c a in analyze_loop rs' c' a')"
  by (induction rs c a rule: analyze_loop.induct) (auto split: LogType.split)

lemma log_incomplete_snoc:
  "log_incomplete (rs @ [r]) =
     (case getLogType r of BEGIN \<Rightarrow> insert (getTransactionId r) (log_incomplete rs)
      | COMMIT \<Rightarrow> log_incomplete rs - {getTransactionId r}
      | ABORT \<Rightarrow> log_incomplete rs - {getTransactionId r}
      | _ \<Rightarrow> log_incomplete rs)"
  by (auto simp: log_incomplete_def is_control_def split: LogType.split)

lemma analyze_loop_spec:
  "fset (fst (analyze_loop rs {||} {||})) = log_committed rs \<and>
   fset (snd (analyze_loop rs {||} {||})) = log_incomplete rs"
proof (induction rs rule: rev_induct)
  case Nil
  then show ?case by (simp add: log_committed_def log_incomplete_def)
next
  case (snoc r rs)
  obtain c a where ca: "analyze_loop rs {||} {||} = (c, a)" by fastforce
  have "log_committed (rs @ [r]) =
      (if getLogType r = COMMIT then insert (getTransactionId r) (log_committed rs) else log_committed rs)"
    by (auto simp: log_committed_def)
  then show ?case
    using snoc ca by (auto simp: analyze_loop_append log_incomplete_snoc split: LogType.split)
qed

lemma redo_loop_filter:
  "redo_loop c rs acc = acc @ filter (\<lambda>r. getTransactionId r |\<in>| c \<and> isDataModificationType (getLogType r)) rs"
  by (induction c rs acc rule: redo_loop.induct) auto

section \<open>The phases\<close>

lemma analyze_ok:
  assumes "readLogs (log_manager m) = Inr rs"
  obtains c a where "analyze m = Inr (m\<lparr>committed_txns := c, incomplete_txns := a\<rparr>)"
    and "fset c = log_committed rs" and "fset a = log_incomplete rs"
proof -
  obtain c a where "analyze_loop rs {||} {||} = (c, a)" by fastforce
  moreover from this have "fset c = log_committed rs" "fset a = log_incomplete rs"
    using analyze_loop_spec [of rs] by simp_all
  ultimately show ?thesis using assms by (intro that) (simp_all add: analyze_def)
qed

lemma redo_ok:
  assumes "readLogs (log_manager m) = Inr rs" and "fset (committed_txns m) = log_committed rs"
  shows "redo m = Inr (m\<lparr>redo_records := log_redo rs\<rparr>)"
  using assms by (simp add: redo_def redo_loop_filter log_redo_def)

text \<open>The abort records that undo writes, one per transaction, stamped in order.\<close>

fun abort_records :: "64 word oracle_seq \<Rightarrow> u32 list \<Rightarrow> LogRecord list" where
  "abort_records clock [] = []"
| "abort_records clock (t # ts) = new_LogRecord t ABORT (draw clock) # abort_records (rest clock) ts"

lemma abort_records_txns [simp]: "map getTransactionId (abort_records clock ts) = ts"
  by (induction clock ts rule: abort_records.induct) simp_all

lemma abort_records_type: "r \<in> set (abort_records clock ts) \<Longrightarrow> getLogType r = ABORT"
  by (induction clock ts rule: abort_records.induct) auto

lemma abort_records_empty [simp]: "abort_records clock ts = [] \<longleftrightarrow> ts = []"
  by (cases ts) simp_all

lemma fold_undo_one:
  "fold undo_one ts m =
     m\<lparr>rec_clock := (rest ^^ length ts) (rec_clock m),
       log_manager := write_all (abort_records (rec_clock m) ts) (log_manager m),
       undo_records := undo_records m @ abort_records (rec_clock m) ts\<rparr>"
  by (induction ts arbitrary: m) (simp_all add: undo_one_def Let_def funpow_swap1)

lemma sort_set_elems [simp]: "sort (set_elems s) = set_elems s"
  by (simp add: sorted_sort_id)

lemma set_elems_eq_empty [simp]: "set_elems s = [] \<longleftrightarrow> s = {||}"
  by (metis bot_fset.rep_eq fset_inverse list.set(1) set_elems_empty set_set_elems)

abbreviation aborts_of :: "RecoveryManager \<Rightarrow> u32 fset \<Rightarrow> LogRecord list" where
  "aborts_of m a \<equiv> abort_records (rec_clock m) (set_elems a)"

lemma undo_result:
  "undo m =
     m\<lparr>rec_clock := (rest ^^ length (set_elems (incomplete_txns m))) (rec_clock m),
       log_manager :=
         (if incomplete_txns m = {||} then log_manager m
          else flushLogs (write_all (aborts_of m (incomplete_txns m)) (log_manager m))),
       undo_records := aborts_of m (incomplete_txns m)\<rparr>"
  by (cases "incomplete_txns m = {||}") (simp_all add: undo_def Let_def fold_undo_one)

text \<open>What a recovery that could read the log leaves behind.\<close>

lemma performRecovery_ok:
  assumes "readLogs (log_manager m) = Inr rs"
  obtains m' where "performRecovery m = Inr m'"
    and "getRecoveryState m' = COMPLETE"
    and "fset (committed_txns m') = log_committed rs"
    and "fset (incomplete_txns m') = log_incomplete rs"
    and "getRedoRecords m' = log_redo rs"
    and "getUndoRecords m' = aborts_of m (incomplete_txns m')"
    and "log_manager m' =
      (if log_incomplete rs = {} then log_manager m
       else flushLogs (write_all (getUndoRecords m') (log_manager m)))"
proof -
  let ?m0 = "m\<lparr>recovery_state := ANALYSIS\<rparr>"
  have "readLogs (log_manager ?m0) = Inr rs" using assms by simp
  then obtain c a where an: "analyze ?m0 = Inr (?m0\<lparr>committed_txns := c, incomplete_txns := a\<rparr>)"
    and c: "fset c = log_committed rs" and a: "fset a = log_incomplete rs"
    by (rule analyze_ok)
  let ?m1 = "?m0\<lparr>committed_txns := c, incomplete_txns := a, recovery_state := REDO\<rparr>"
  have re: "redo ?m1 = Inr (?m1\<lparr>redo_records := log_redo rs\<rparr>)"
    by (rule redo_ok) (simp_all add: assms c)
  have empty: "a = {||} \<longleftrightarrow> log_incomplete rs = {}" using a by (metis bot_fset.rep_eq fset_inject)
  show ?thesis
    by (rule that [of "(undo (?m1\<lparr>redo_records := log_redo rs, recovery_state := UNDO\<rparr>))\<lparr>recovery_state := COMPLETE\<rparr>"])
      (use re in \<open>simp_all add: performRecovery_def an undo_result getRecoveryState_def
        getRedoRecords_def getUndoRecords_def c a empty\<close>)
qed

lemma performRecovery_error:
  assumes "readLogs (log_manager m) = Inl e"
  shows "performRecovery m = Inl (e, m\<lparr>recovery_state := ANALYSIS, committed_txns := {||}, incomplete_txns := {||}\<rparr>)"
  using assms by (simp add: performRecovery_def analyze_def)

section \<open>The log after recovery\<close>

lemma log_after_aborts:
  assumes "\<forall>r\<in>set rs'. getLogType r = ABORT" and "getTransactionId ` set rs' = log_incomplete rs"
  shows "log_incomplete (rs @ rs') = {}" and "log_committed (rs @ rs') = log_committed rs"
    and "log_redo (rs @ rs') = log_redo rs"
proof -
  have "log_incomplete (rs @ rs') = log_incomplete rs - getTransactionId ` set rs'"
    using assms(1)
    by (induction rs' rule: rev_induct)
      (auto simp: log_incomplete_snoc simp flip: append_assoc)
  then show "log_incomplete (rs @ rs') = {}" using assms(2) by simp
  show c: "log_committed (rs @ rs') = log_committed rs"
    using assms(1) by (auto simp: log_committed_def has_record_def)
  show "log_redo (rs @ rs') = log_redo rs"
    using assms(1) by (simp add: log_redo_def c isDataModificationType_def filter_empty_conv)
qed

text \<open>
  A log reuses an id when a transaction begins under an id that an earlier transaction
  committed under.
\<close>

definition reuses_id :: "LogRecord list \<Rightarrow> bool" where
  "reuses_id rs \<longleftrightarrow>
     (\<exists>xs r ys. rs = xs @ r # ys \<and> getLogType r = BEGIN \<and> has_record COMMIT (getTransactionId r) xs)"

lemma reuses_id_snoc:
  "reuses_id (rs @ [r]) \<longleftrightarrow>
     reuses_id rs \<or> getLogType r = BEGIN \<and> has_record COMMIT (getTransactionId r) rs"
proof
  assume "reuses_id (rs @ [r])"
  then obtain xs q ys where eq: "rs @ [r] = xs @ q # ys" and q: "getLogType q = BEGIN"
    "has_record COMMIT (getTransactionId q) xs" unfolding reuses_id_def by blast
  show "reuses_id rs \<or> getLogType r = BEGIN \<and> has_record COMMIT (getTransactionId r) rs"
  proof (cases ys rule: rev_cases)
    case Nil
    then show ?thesis using eq q by simp
  next
    case (snoc zs z)
    then have "rs = xs @ q # zs" using eq by simp
    then show ?thesis using q unfolding reuses_id_def by blast
  qed
next
  assume "reuses_id rs \<or> getLogType r = BEGIN \<and> has_record COMMIT (getTransactionId r) rs"
  then show "reuses_id (rs @ [r])"
  proof
    assume "reuses_id rs"
    then obtain xs q ys where "rs = xs @ q # ys" "getLogType q = BEGIN"
      "has_record COMMIT (getTransactionId q) xs" unfolding reuses_id_def by blast
    then show ?thesis unfolding reuses_id_def by (intro exI [of _ xs] exI [of _ q] exI [of _ "ys @ [r]"]) simp
  next
    assume "getLogType r = BEGIN \<and> has_record COMMIT (getTransactionId r) rs"
    then show ?thesis unfolding reuses_id_def by blast
  qed
qed

lemma no_reuse_disjoint: "\<not> reuses_id rs \<Longrightarrow> log_committed rs \<inter> log_incomplete rs = {}"
proof (induction rs rule: rev_induct)
  case Nil
  then show ?case by (simp add: log_committed_def)
next
  case (snoc r rs)
  then have ih: "log_committed rs \<inter> log_incomplete rs = {}"
    and new: "getLogType r = BEGIN \<Longrightarrow> getTransactionId r \<notin> log_committed rs"
    by (auto simp: reuses_id_snoc log_committed_def)
  have "log_committed (rs @ [r]) =
      (if getLogType r = COMMIT then insert (getTransactionId r) (log_committed rs) else log_committed rs)"
    by (auto simp: log_committed_def)
  then show ?case using ih new by (auto simp: log_incomplete_snoc split: LogType.splits if_splits)
qed

lemma log_redo_append: "subseq (log_redo rs) (log_redo (rs @ rs'))"
proof -
  let ?p = "\<lambda>t r. getTransactionId r \<in> t \<and> isDataModificationType (getLogType r)"
  have "log_committed rs \<subseteq> log_committed (rs @ rs')" by (auto simp: log_committed_def has_record_def)
  then have "filter (?p (log_committed rs)) rs =
      filter (\<lambda>r. getTransactionId r \<in> log_committed rs) (filter (?p (log_committed (rs @ rs'))) rs)"
    unfolding filter_filter by (intro filter_cong) auto
  then have "subseq (filter (?p (log_committed rs)) rs) (filter (?p (log_committed (rs @ rs'))) rs)"
    by (simp only: subseq_filter_left)
  then show ?thesis unfolding log_redo_def filter_append by (rule subseq_rev_drop_many)
qed

section \<open>Properties\<close>

text \<open>
  C13: what recovery computes: when the log can be read, \<open>performRecovery\<close> ends in the state
  COMPLETE; the committed ids are those with a commit record, the incomplete ids those
  whose last begin, commit or abort record is a begin; the redo records are the insert,
  update and delete records of committed ids in log order; and there is exactly one abort
  record for every incomplete id, in ascending order.
\<close>
theorem recovery_classifies:
  assumes "readLogs (log_manager m) = Inr rs"
  shows "\<exists>m'. performRecovery m = Inr m' \<and> getRecoveryState m' = COMPLETE \<and>
    set (getCommittedTransactionIds m') = {t. has_record COMMIT t rs} \<and>
    set (getIncompleteTransactionIds m') =
      {t. filter (is_control t) rs \<noteq> [] \<and> getLogType (last (filter (is_control t) rs)) = BEGIN} \<and>
    getRedoRecords m' = filter (\<lambda>r. has_record COMMIT (getTransactionId r) rs \<and>
      isDataModificationType (getLogType r)) rs \<and>
    map getTransactionId (getUndoRecords m') = getIncompleteTransactionIds m' \<and>
    (\<forall>r\<in>set (getUndoRecords m'). getLogType r = ABORT) \<and>
    sorted_wrt (<) (getIncompleteTransactionIds m')"
  using assms
  by (rule performRecovery_ok)
    (auto simp: getCommittedTransactionIds_def getIncompleteTransactionIds_def log_committed_def
      log_incomplete_def log_redo_def strict_sorted_set_elems dest: abort_records_type)

definition sample_log :: "LogRecord list" where
  "sample_log =
     [new_LogRecord 1 BEGIN 10, new_LogRecord 2 BEGIN 11, new_LogRecord 1 UPDATE 12,
      new_LogRecord 2 UPDATE 13, new_LogRecord 1 COMMIT 14, new_LogRecord 3 BEGIN 15]"

definition sample_manager :: "LogRecord list \<Rightarrow> RecoveryManager" where
  "sample_manager rs =
     new_RecoveryManager (new_LogManager (Some (log_text rs)) (\<lambda>_. True) (\<lambda>_. 16)) (\<lambda>_. 20)"

lemma sample_log_holds:
  "log_holds (log_manager (sample_manager rs)) rs" "log_pending (log_manager (sample_manager rs)) = []"
  by (simp_all add: sample_manager_def new_RecoveryManager_def log_holds_new)
    (simp add: new_LogManager_def open_append_def draw_def)

lemma pending_empty_reads:
  assumes "log_holds m rs" and "log_pending m = []"
  shows "readLogs m = Inr rs"
  using assms read_log_text [of m rs "[]"] by (auto simp: log_holds_def disk_text_def)

theorem recovery_classifies_witness:
  "\<exists>m'. performRecovery (sample_manager sample_log) = Inr m' \<and> getRecoveryState m' = COMPLETE \<and>
    set (getCommittedTransactionIds m') = {1} \<and> set (getIncompleteTransactionIds m') = {2, 3} \<and>
    getRedoRecords m' = [new_LogRecord 1 UPDATE 12]"
proof -
  have "{t. has_record COMMIT t sample_log} = {1}" by (auto simp: has_record_def sample_log_def)
  moreover have "{t. filter (is_control t) sample_log \<noteq> [] \<and>
      getLogType (last (filter (is_control t) sample_log)) = BEGIN} = {2, 3}"
    by (auto simp: sample_log_def is_control_def split: if_splits)
  moreover have "filter (\<lambda>r. has_record COMMIT (getTransactionId r) sample_log \<and>
      isDataModificationType (getLogType r)) sample_log = [new_LogRecord 1 UPDATE 12]"
    by (simp add: sample_log_def has_record_def isDataModificationType_def)
  ultimately show ?thesis
    using recovery_classifies [OF pending_empty_reads [OF sample_log_holds], of sample_log] by metis
qed

text \<open>
  C22: recovery is idempotent and leaves a clean log: after a recovery from a flushed log the
  log on disk is the old one followed by the abort records; recovering again, as after a
  second crash, finds the same committed ids and the same records to redo, no incomplete
  transaction, and writes nothing.
\<close>
theorem recovery_idempotent:
  assumes "log_holds (log_manager m) rs" and "log_pending (log_manager m) = []"
    and "performRecovery m = Inr m1"
  shows "readLogs (log_manager m1) = Inr (rs @ getUndoRecords m1) \<and>
    (\<exists>m2. performRecovery m1 = Inr m2 \<and>
      getCommittedTransactionIds m2 = getCommittedTransactionIds m1 \<and>
      getRedoRecords m2 = getRedoRecords m1 \<and>
      getIncompleteTransactionIds m2 = [] \<and> getUndoRecords m2 = [] \<and> log_manager m2 = log_manager m1)"
proof -
  have read: "readLogs (log_manager m) = Inr rs" using assms(1,2) by (rule pending_empty_reads)
  then obtain m' where m': "performRecovery m = Inr m'"
    and c: "fset (committed_txns m') = log_committed rs"
    and a: "fset (incomplete_txns m') = log_incomplete rs"
    and r: "getRedoRecords m' = log_redo rs"
    and u: "getUndoRecords m' = aborts_of m (incomplete_txns m')"
    and l: "log_manager m' = (if log_incomplete rs = {} then log_manager m
      else flushLogs (write_all (getUndoRecords m') (log_manager m)))"
    by (rule performRecovery_ok)
  have eq: "m1 = m'" using m' assms(3) by simp
  have ids: "getTransactionId ` set (getUndoRecords m') = log_incomplete rs"
    using a u by (metis abort_records_txns list.set_map set_set_elems)
  have aborts: "\<forall>q\<in>set (getUndoRecords m'). getLogType q = ABORT"
    using u abort_records_type by metis
  have read': "readLogs (log_manager m') = Inr (rs @ getUndoRecords m')"
  proof (cases "log_incomplete rs = {}")
    case True
    then have "getUndoRecords m' = []" using ids by simp
    then show ?thesis using True l read by simp
  next
    case False
    then show ?thesis using l text_log.read_appends [OF assms(1)] by simp
  qed
  note after = log_after_aborts [OF aborts ids]
  obtain m2 where m2: "performRecovery m' = Inr m2"
    and c2: "fset (committed_txns m2) = log_committed rs"
    and a2: "fset (incomplete_txns m2) = {}" and r2: "getRedoRecords m2 = log_redo rs"
    and u2: "getUndoRecords m2 = aborts_of m' (incomplete_txns m2)"
    and l2: "log_manager m2 = log_manager m'"
    by (rule performRecovery_ok [OF read']) (simp add: after)
  have "committed_txns m2 = committed_txns m'" using c c2 by (simp add: fset_inject [symmetric])
  moreover have "incomplete_txns m2 = {||}" using a2 by (simp add: fset_inject [symmetric])
  ultimately show ?thesis
    using eq read' m2 r r2 u2 l2
    by (simp add: getCommittedTransactionIds_def getIncompleteTransactionIds_def)
qed

theorem recovery_idempotent_witness:
  "\<exists>m1 m2. performRecovery (sample_manager sample_log) = Inr m1 \<and> performRecovery m1 = Inr m2 \<and>
     readLogs (log_manager m1) = Inr (sample_log @ getUndoRecords m1) \<and>
     getRedoRecords m2 = getRedoRecords m1 \<and> getUndoRecords m2 = []"
proof -
  obtain m1 where m1: "performRecovery (sample_manager sample_log) = Inr m1"
    by (rule performRecovery_ok [OF pending_empty_reads [OF sample_log_holds]])
  show ?thesis using recovery_idempotent [OF sample_log_holds m1] m1 by blast
qed

text \<open>
  C16: durability across a crash: take a log that held \<open>rs\<close> when it was last flushed, any
  records written since, and a crash at any byte. If the next process can read the log and
  recovers, every transaction whose commit record was flushed counts as committed, and the
  flushed modifications that were due for redo are redone, in their order.
\<close>
theorem flushed_commits_survive:
  assumes "log_holds m rs"
    and "performRecovery (new_RecoveryManager (crash_restart (write_all rs' (flushLogs m)) opens spill) clock) = Inr m'"
  shows "{t. has_record COMMIT t rs} \<subseteq> set (getCommittedTransactionIds m') \<and>
    subseq (log_redo rs) (getRedoRecords m')"
proof -
  let ?lm = "crash_restart (write_all rs' (flushLogs m)) opens spill"
  have lm: "log_manager (new_RecoveryManager ?lm clock) = ?lm" by (simp add: new_RecoveryManager_def)
  obtain k where read: "readLogs ?lm = Inr (rs @ take k rs')"
    using crash_reads [OF assms(1), of rs' opens spill] assms(2)
      performRecovery_error [of "new_RecoveryManager ?lm clock"] lm by auto
  obtain m'' where "performRecovery (new_RecoveryManager ?lm clock) = Inr m''"
    and c: "fset (committed_txns m'') = log_committed (rs @ take k rs')"
    and r: "getRedoRecords m'' = log_redo (rs @ take k rs')"
    by (rule performRecovery_ok [of "new_RecoveryManager ?lm clock"]) (simp_all add: lm read)
  then have "m'' = m'" using assms(2) by simp
  with c r log_redo_append [of rs "take k rs'"] show ?thesis
    by (auto simp: getCommittedTransactionIds_def log_committed_def has_record_def)
qed

theorem flushed_commits_survive_witness:
  "\<exists>m'. performRecovery (new_RecoveryManager (crash_restart (write_all []
      (flushLogs (log_manager (sample_manager sample_log)))) (\<lambda>_. True) (\<lambda>_. 0)) (\<lambda>_. 30)) = Inr m' \<and>
     {t. has_record COMMIT t sample_log} \<subseteq> set (getCommittedTransactionIds m') \<and>
     subseq (log_redo sample_log) (getRedoRecords m')"
proof -
  let ?lm = "crash_restart (write_all [] (flushLogs (log_manager (sample_manager sample_log)))) (\<lambda>_. True) (\<lambda>_. 0)"
  have "readLogs ?lm = Inr sample_log"
    using flushed_disk [OF sample_log_holds(1)] read_flushed [OF sample_log_holds(1)]
    by (simp add: readLogs_crash)
  then have "readLogs (log_manager (new_RecoveryManager ?lm (\<lambda>_. 30))) = Inr sample_log"
    by (simp add: new_RecoveryManager_def)
  then obtain m' where "performRecovery (new_RecoveryManager ?lm (\<lambda>_. 30)) = Inr m'"
    by (rule performRecovery_ok)
  then show ?thesis using flushed_commits_survive [OF sample_log_holds(1)] by blast
qed

text \<open>
  Redo and undo do not overlap as long as ids are not reused: in a log in which no
  transaction begins under an id that committed before, no id is both committed and
  incomplete, so no redo record belongs to a transaction that recovery aborts.
\<close>
theorem redo_undo_disjoint:
  assumes "readLogs (log_manager m) = Inr rs" and "\<not> reuses_id rs" and "performRecovery m = Inr m'"
  shows "set (getCommittedTransactionIds m') \<inter> set (getIncompleteTransactionIds m') = {} \<and>
    (\<forall>r\<in>set (getRedoRecords m'). \<forall>u\<in>set (getUndoRecords m'). getTransactionId r \<noteq> getTransactionId u)"
proof -
  obtain m'' where "performRecovery m = Inr m''"
    and c: "fset (committed_txns m'') = log_committed rs" and a: "fset (incomplete_txns m'') = log_incomplete rs"
    and r: "getRedoRecords m'' = log_redo rs" and u: "getUndoRecords m'' = aborts_of m (incomplete_txns m'')"
    by (rule performRecovery_ok [OF assms(1)])
  then have "m'' = m'" using assms(3) by simp
  moreover have "getTransactionId ` set (getUndoRecords m'') = log_incomplete rs"
    using a u by (metis abort_records_txns list.set_map set_set_elems)
  moreover have "getTransactionId ` set (getRedoRecords m'') \<subseteq> log_committed rs"
    using r by (auto simp: log_redo_def)
  ultimately show ?thesis
    using c a no_reuse_disjoint [OF assms(2)]
    by (fastforce simp: getCommittedTransactionIds_def getIncompleteTransactionIds_def)
qed

theorem redo_undo_disjoint_witness:
  "\<exists>m'. performRecovery (sample_manager sample_log) = Inr m' \<and>
     set (getCommittedTransactionIds m') \<inter> set (getIncompleteTransactionIds m') = {}"
proof -
  have "\<not> reuses_id sample_log"
    using reuses_id_snoc [of "[]"] reuses_id_snoc [of "[_]"] reuses_id_snoc [of "[_, _]"]
      reuses_id_snoc [of "[_, _, _]"] reuses_id_snoc [of "[_, _, _, _]"] reuses_id_snoc [of "[_, _, _, _, _]"]
    by (simp add: sample_log_def has_record_def) (simp add: reuses_id_def)
  moreover obtain m' where "performRecovery (sample_manager sample_log) = Inr m'"
    by (rule performRecovery_ok [OF pending_empty_reads [OF sample_log_holds]])
  ultimately show ?thesis
    using redo_undo_disjoint [OF pending_empty_reads [OF sample_log_holds]] by blast
qed

text \<open>
  And they do overlap when ids are reused, which the program does: ids start at 1 in
  every process while the log file is appended to. After a run that committed transaction 1
  and a second run that crashed inside its own transaction 1, recovery reports id 1 both as
  committed and as incomplete, and hands out for redo the update of the transaction it aborts.
\<close>
theorem reused_id_redone:
  "\<exists>m'. performRecovery (sample_manager [new_LogRecord 1 BEGIN 10, new_LogRecord 1 COMMIT 11,
      new_LogRecord INITIAL_TXN_ID BEGIN 12, new_LogRecord INITIAL_TXN_ID UPDATE 13]) = Inr m' \<and>
    getCommittedTransactionIds m' = [1] \<and> getIncompleteTransactionIds m' = [1] \<and>
    getRedoRecords m' = [new_LogRecord INITIAL_TXN_ID UPDATE 13] \<and>
    getUndoRecords m' = [new_LogRecord 1 ABORT 20]"
proof -
  let ?rs = "[new_LogRecord 1 BEGIN 10, new_LogRecord 1 COMMIT 11,
    new_LogRecord INITIAL_TXN_ID BEGIN 12, new_LogRecord INITIAL_TXN_ID UPDATE 13]"
  obtain m' where m': "performRecovery (sample_manager ?rs) = Inr m'"
    and c: "fset (committed_txns m') = log_committed ?rs"
    and a: "fset (incomplete_txns m') = log_incomplete ?rs"
    and r: "getRedoRecords m' = log_redo ?rs"
    and u: "getUndoRecords m' = aborts_of (sample_manager ?rs) (incomplete_txns m')"
    by (rule performRecovery_ok [OF pending_empty_reads [OF sample_log_holds]])
  have "log_committed ?rs = {1}" by (auto simp: log_committed_def has_record_def)
  moreover have "log_incomplete ?rs = {1}"
    by (auto simp: log_incomplete_def is_control_def INITIAL_TXN_ID_def split: if_splits)
  moreover have "log_redo ?rs = [new_LogRecord INITIAL_TXN_ID UPDATE 13]"
    by (simp add: log_redo_def log_committed_def has_record_def isDataModificationType_def INITIAL_TXN_ID_def)
  moreover have "set_elems {|1::u32|} = [1]" by (simp add: set_elems_def sorted_list_of_fset.rep_eq)
  moreover have one: "committed_txns m' = {|1|}" "incomplete_txns m' = {|1|}"
    using c a calculation by (simp_all add: fset_inject [symmetric])
  ultimately show ?thesis
    using m' r u
    by (simp add: getCommittedTransactionIds_def getIncompleteTransactionIds_def sample_manager_def
        new_RecoveryManager_def draw_def)
qed

text \<open>
  Recovery does not survive a torn log line: when the crash cut the last line right
  after \<open>timestamp=\<close>, \<open>performRecovery\<close> throws during analysis, keeping the phase ANALYSIS
  and reporting nothing, however many complete records the log has.
\<close>
theorem torn_log_stops_recovery:
  "performRecovery (new_RecoveryManager (new_LogManager (Some (log_text rs @ ''timestamp='')) opens spill) clock) =
   Inl (Invalid_argument, new_RecoveryManager (new_LogManager (Some (log_text rs @ ''timestamp='')) opens spill) clock)"
proof -
  let ?lm = "new_LogManager (Some (log_text rs @ ''timestamp='')) opens spill"
  have "log_disk ?lm = Some (log_text rs @ ''timestamp='')"
    by (simp add: new_LogManager_def open_append_def disk_text_def)
  moreover have "getlines (CHR 0x0A) ''timestamp='' = [''timestamp='']" by (simp add: getlines_last)
  moreover have "fromString ''timestamp='' = Inl Invalid_argument"
    using torn_line [of "''timestamp=''"] by (simp add: toString_def)
  ultimately have "readLogs ?lm = Inl Invalid_argument"
    by (simp add: read_log_text)
  then show ?thesis
    using performRecovery_error [of "new_RecoveryManager ?lm clock"] by (simp add: new_RecoveryManager_def)
qed

end
