(* ===== verification/App.thy ===== *)
theory App
  imports Storage Transactions LockProps Recovery
begin

text \<open>
  The interactive program, \<^verbatim>\<open>src/main.cpp\<close>: the command loop that composes the
  transaction manager, the lock manager, the log and the data store, with the retry of
  waiting commands. The local variables of \<open>main\<close> that its lambdas capture are one
  record; every printed line is appended to \<open>out\<close>; the two clocks are oracles. An
  exception that leaves \<open>main\<close> is a left value.
\<close>

section \<open>Commands and state\<close>

record Command =
  cmd_op :: string
  txn_label :: string
  resource_name :: string
  cmd_value :: "32 word"

record App =
  tm :: TransactionManager
  lock_mgr :: LockManager
  log_mgr :: LogManager
  data_store :: DataStore
  txn_ids :: "(string, u32) fmap"
  resource_ids :: "(string, u32) fmap"
  txn_held_resources :: "(u32, u32 fset) fmap"
  pending :: "Command list"
  next_resource_id :: u32
  out :: "string list"
  sys_clock :: "time_point oracle_seq"
  wall_clock :: "64 word oracle_seq"

definition intToBytes :: "32 word \<Rightarrow> bytes" where
  "intToBytes v = map (\<lambda>c. word_of_nat (of_char c)) (int_to_string (sint v))"

definition bytesToInt :: "bytes \<Rightarrow> exn + 32 word" where
  "bytesToInt d = (if d = [] then Inr 0 else stoi (map (\<lambda>b. char_of (unat b)) d))"

definition println :: "string \<Rightarrow> App \<Rightarrow> App" where
  "println s a = a\<lparr>out := out a @ [s]\<rparr>"

definition printHelp :: "App \<Rightarrow> App" where
  "printHelp a = println ''Commands: BEGIN <TXN>, READ <TXN> <KEY>, WRITE <TXN> <KEY> <VAL>, COMMIT <TXN>, ABORT <TXN>, SHOW <KEY>, STATUS, CHECKPOINT, RECOVER, HELP, EXIT'' a"

text \<open>\<^verbatim>\<open>log_mgr->writeLog(std::make_shared<LogRecord>(id, type))\<close>\<close>

definition log_event :: "u32 \<Rightarrow> LogType \<Rightarrow> App \<Rightarrow> App" where
  "log_event t ty a =
     a\<lparr>log_mgr := writeLog (Some (new_LogRecord t ty (draw (wall_clock a)))) (log_mgr a),
       wall_clock := rest (wall_clock a)\<rparr>"

section \<open>Resources\<close>

text \<open>A new record holding the printed integer, inserted into the store.\<close>

definition create_record :: "u32 \<Rightarrow> 32 word \<Rightarrow> App \<Rightarrow> exn + App" where
  "create_record rid v a =
     (let c1 = sys_clock a; c2 = rest c1; c3 = rest c2
      in case setData (intToBytes v) (draw c3) (new_Record rid (draw c1) (draw c2)) of
           Inl e \<Rightarrow> Inl e
         | Inr r \<Rightarrow> Inr (a\<lparr>sys_clock := rest c3, data_store := snd (insertRecord (Some r) (data_store a))\<rparr>))"

definition new_resource :: "string \<Rightarrow> u32 \<Rightarrow> App \<Rightarrow> exn + u32 \<times> App" where
  "new_resource path last_id a =
     (let rid = next_resource_id a;
          a1 = a\<lparr>next_resource_id := next_resource_id a + 1,
                 resource_ids := fmupd path rid (resource_ids a)\<rparr>;
          a2 = (if last_id \<noteq> 0
                then a1\<lparr>lock_mgr := setResourceParent rid last_id (lock_mgr a1)\<rparr> else a1)
      in case create_record rid (if path = ''A'' then 10 else 0) a2 of
           Inl e \<Rightarrow> Inl e
         | Inr a3 \<Rightarrow> Inr (rid, a3))"

fun ensure_loop :: "string list \<Rightarrow> string \<Rightarrow> u32 \<Rightarrow> App \<Rightarrow> exn + u32 \<times> App" where
  "ensure_loop [] path last_id a = Inr (last_id, a)"
| "ensure_loop (segment # segments) path last_id a =
     (if segment = [] then ensure_loop segments path last_id a
      else
        (let path' = (if path = [] then segment else path @ ''.'' @ segment)
         in case fmlookup (resource_ids a) path' of
              Some rid \<Rightarrow> ensure_loop segments path' rid a
            | None \<Rightarrow>
                (case new_resource path' last_id a of Inl e \<Rightarrow> Inl e
                 | Inr (rid, a') \<Rightarrow> ensure_loop segments path' rid a')))"

definition ensureResource :: "string \<Rightarrow> App \<Rightarrow> exn + u32 \<times> App" where
  "ensureResource name a =
     (case ensure_loop (getlines (CHR ''.'') name) [] 0 a of Inl e \<Rightarrow> Inl e
      | Inr (last_id, a1) \<Rightarrow>
          if last_id = 0 then
            (let rid = next_resource_id a1;
                 a2 = a1\<lparr>next_resource_id := next_resource_id a1 + 1,
                         resource_ids := fmupd name rid (resource_ids a1)\<rparr>
             in case create_record rid 0 a2 of Inl e \<Rightarrow> Inl e | Inr a3 \<Rightarrow> Inr (rid, a3))
          else Inr (last_id, a1))"

section \<open>Reading and writing\<close>

definition hold_resource :: "u32 \<Rightarrow> u32 \<Rightarrow> App \<Rightarrow> App" where
  "hold_resource t rid a =
     a\<lparr>txn_held_resources := fmupd t (finsert rid (map_at {||} (txn_held_resources a) t)) (txn_held_resources a)\<rparr>"

text \<open>\<^verbatim>\<open>record ? bytesToInt(record->getData()) : 0\<close>\<close>

definition stored_value :: "u32 \<Rightarrow> App \<Rightarrow> exn + 32 word" where
  "stored_value rid a =
     (case getRecord rid (data_store a) of None \<Rightarrow> Inr 0 | Some r \<Rightarrow> bytesToInt (getData r))"

definition waiting_message :: "Command \<Rightarrow> bool \<Rightarrow> App \<Rightarrow> App" where
  "waiting_message cmd from_pending a =
     (if \<not> from_pending then println (txn_label cmd @ '' waiting for lock on '' @ resource_name cmd) a else a)"

definition execute_read :: "u32 \<Rightarrow> Command \<Rightarrow> bool \<Rightarrow> App \<Rightarrow> exn + bool \<times> App" where
  "execute_read t cmd from_pending a =
     (case ensureResource (resource_name cmd) a of Inl e \<Rightarrow> Inl e
      | Inr (rid, a1) \<Rightarrow>
          (let (granted, lm) = requestLock t rid SHARED (lock_mgr a1); a2 = a1\<lparr>lock_mgr := lm\<rparr>
           in if \<not> granted then Inr (False, waiting_message cmd from_pending a2)
              else
                (let a3 = hold_resource t rid a2
                 in case stored_value rid a3 of Inl e \<Rightarrow> Inl e
                    | Inr v \<Rightarrow> Inr (True, println (txn_label cmd @ '' reads '' @ resource_name cmd @ '' = '' @
                                  int_to_string (sint v)) a3))))"

definition execute_write :: "u32 \<Rightarrow> Command \<Rightarrow> bool \<Rightarrow> App \<Rightarrow> exn + bool \<times> App" where
  "execute_write t cmd from_pending a =
     (case ensureResource (resource_name cmd) a of Inl e \<Rightarrow> Inl e
      | Inr (rid, a1) \<Rightarrow>
          (let (granted, lm) = requestLock t rid EXCLUSIVE (lock_mgr a1); a2 = a1\<lparr>lock_mgr := lm\<rparr>
           in if \<not> granted then Inr (False, waiting_message cmd from_pending a2)
              else
                (let a3 = hold_resource t rid a2
                 in case updateRecord rid (intToBytes (cmd_value cmd)) (draw (sys_clock a3)) (data_store a3) of
                      Inl e \<Rightarrow> Inl e
                    | Inr (_, ds) \<Rightarrow>
                        (let a4 = a3\<lparr>data_store := ds, sys_clock := rest (sys_clock a3)\<rparr>;
                             a5 = log_event t UPDATE a4
                         in Inr (True, println (txn_label cmd @ '' writes '' @ resource_name cmd @ '' = '' @
                                  int_to_string (sint (cmd_value cmd))) a5)))))"

definition executeCommand :: "Command \<Rightarrow> bool \<Rightarrow> App \<Rightarrow> exn + bool \<times> App" where
  "executeCommand cmd from_pending a =
     (case fmlookup (txn_ids a) (txn_label cmd) of None \<Rightarrow> Inr (False, a)
      | Some t \<Rightarrow>
          if \<not> isTransactionActive t (tm a) then Inr (False, a)
          else if cmd_op cmd = ''READ'' then execute_read t cmd from_pending a
          else if cmd_op cmd = ''WRITE'' then execute_write t cmd from_pending a
          else Inr (False, a))"

section \<open>Retrying waiting commands\<close>

definition hasPendingForTxn :: "string \<Rightarrow> App \<Rightarrow> bool" where
  "hasPendingForTxn label a = list_ex (\<lambda>c. txn_label c = label) (pending a)"

text \<open>The announcement that a transaction goes on, made once it holds the lock.\<close>

definition announce :: "Command \<Rightarrow> u32 \<Rightarrow> string fset \<Rightarrow> App \<Rightarrow> exn + string fset \<times> App" where
  "announce cmd t resumed a =
     (if txn_label cmd |\<notin>| resumed \<and> resource_name cmd \<noteq> [] then
        (case ensureResource (resource_name cmd) a of Inl e \<Rightarrow> Inl e
         | Inr (rid, a1) \<Rightarrow>
             if hasLock t rid (lock_mgr a1)
             then Inr (finsert (txn_label cmd) resumed, println (txn_label cmd @ '' resumes'') a1)
             else Inr (resumed, a1))
      else Inr (resumed, a))"

text \<open>
  One pass over the waiting commands; \<open>kept\<close> are the commands before the iterator that
  stay in the vector.
\<close>

fun pending_pass ::
  "Command list \<Rightarrow> Command list \<Rightarrow> string fset \<Rightarrow> bool \<Rightarrow> App \<Rightarrow>
   exn + Command list \<times> string fset \<times> bool \<times> App" where
  "pending_pass [] kept resumed made_progress a = Inr (kept, resumed, made_progress, a)"
| "pending_pass (cmd # cmds) kept resumed made_progress a =
     (case fmlookup (txn_ids a) (txn_label cmd) of
        None \<Rightarrow> pending_pass cmds kept resumed made_progress a
      | Some t \<Rightarrow>
          if \<not> isTransactionActive t (tm a) then pending_pass cmds kept resumed made_progress a
          else
            (case announce cmd t resumed a of Inl e \<Rightarrow> Inl e
             | Inr (resumed', a1) \<Rightarrow>
                 (case executeCommand cmd True a1 of Inl e \<Rightarrow> Inl e
                  | Inr (executed, a2) \<Rightarrow>
                      if executed then pending_pass cmds kept resumed' True a2
                      else pending_pass cmds (kept @ [cmd]) resumed' made_progress a2)))"

lemma pending_pass_length:
  "pending_pass cmds kept resumed mp a = Inr (kept', resumed', mp', a') \<Longrightarrow>
     length kept' \<le> length kept + length cmds \<and>
     (mp' \<and> \<not> mp \<longrightarrow> length kept' < length kept + length cmds)"
proof (induction cmds kept resumed mp a rule: pending_pass.induct)
  case (2 cmd cmds kept resumed mp a)
  show ?case
    using "2.prems" "2.IH" by (fastforce split: option.splits if_splits sum.splits)
qed simp

text \<open>Every pass that makes progress executes, and so removes, at least one command.\<close>

function process_loop :: "string fset \<Rightarrow> App \<Rightarrow> exn + App" where
  "process_loop resumed a =
     (case pending_pass (pending a) [] resumed False a of Inl e \<Rightarrow> Inl e
      | Inr (kept, resumed', made_progress, a1) \<Rightarrow>
          (let a2 = a1\<lparr>pending := kept\<rparr>
           in if made_progress then process_loop resumed' a2 else Inr a2))"
  by pat_completeness auto

termination
  by (relation "measure (\<lambda>(resumed, a). length (pending a))") (auto dest: pending_pass_length)

declare process_loop.simps [simp del]

definition processPending :: "App \<Rightarrow> exn + App" where
  "processPending a = process_loop {||} a"

section \<open>The command loop\<close>

text \<open>
  Formatted input from the line: \<^verbatim>\<open>parser >> text\<close> skips white space and takes
  the next word, leaving an empty one at the end of the line; \<^verbatim>\<open>parser >> number\<close>
  stores 0 when no digits follow and the nearest bound of \<open>int\<close> when they do not fit.
\<close>

definition next_word :: "string \<Rightarrow> string \<times> string" where
  "next_word s =
     (let t = dropWhile is_space s
      in (takeWhile (\<lambda>c. \<not> is_space c) t, dropWhile (\<lambda>c. \<not> is_space c) t))"

definition next_int :: "string \<Rightarrow> 32 word" where
  "next_int s =
     (case scan_number s of None \<Rightarrow> 0
      | Some (neg, m) \<Rightarrow>
          if signed_value neg m < - (2 ^ 31) then word_of_int (- (2 ^ 31))
          else if signed_value neg m > 2 ^ 31 - 1 then word_of_int (2 ^ 31 - 1)
          else word_of_int (signed_value neg m))"

definition cmd_begin :: "string \<Rightarrow> App \<Rightarrow> App" where
  "cmd_begin args a =
     (let (label, _) = next_word args
      in if label = [] then println ''Invalid BEGIN command'' a
         else if fmlookup (txn_ids a) label \<noteq> None then println (label @ '' already exists'') a
         else
           (let (txn, tm') = beginTransaction (draw (sys_clock a)) (draw (rest (sys_clock a))) (tm a);
                t = Transactions.getTransactionId txn;
                a1 = a\<lparr>tm := tm', sys_clock := rest (rest (sys_clock a)), txn_ids := fmupd label t (txn_ids a)\<rparr>
            in println (label @ '' started'') (log_event t BEGIN a1)))"

text \<open>A READ or WRITE is queued behind the waiting commands of its transaction, or tried at once.\<close>

definition submit :: "Command \<Rightarrow> App \<Rightarrow> exn + App" where
  "submit cmd a =
     (if fmlookup (txn_ids a) (txn_label cmd) = None then Inr (println (txn_label cmd @ '' not found'') a)
      else if hasPendingForTxn (txn_label cmd) a then Inr (a\<lparr>pending := pending a @ [cmd]\<rparr>)
      else
        (case executeCommand cmd False a of Inl e \<Rightarrow> Inl e
         | Inr (executed, a1) \<Rightarrow>
             if \<not> executed then Inr (a1\<lparr>pending := pending a1 @ [cmd]\<rparr>) else Inr a1))"

definition cmd_read :: "string \<Rightarrow> App \<Rightarrow> exn + App" where
  "cmd_read args a =
     (let (label, args1) = next_word args; (name, _) = next_word args1
      in if label = [] \<or> name = [] then Inr (println ''Invalid READ command'' a)
         else submit \<lparr>cmd_op = ''READ'', txn_label = label, resource_name = name, cmd_value = 0\<rparr> a)"

definition cmd_write :: "string \<Rightarrow> App \<Rightarrow> exn + App" where
  "cmd_write args a =
     (let (label, args1) = next_word args; (name, args2) = next_word args1
      in if label = [] \<or> name = [] then Inr (println ''Invalid WRITE command'' a)
         else submit \<lparr>cmd_op = ''WRITE'', txn_label = label, resource_name = name,
                       cmd_value = next_int args2\<rparr> a)"

text \<open>What COMMIT and ABORT do once the transaction manager has accepted the outcome.\<close>

definition finish :: "string \<Rightarrow> u32 \<Rightarrow> LogType \<Rightarrow> string \<Rightarrow> App \<Rightarrow> exn + App" where
  "finish label t ty message a =
     (let a1 = a\<lparr>lock_mgr := snd (completeTransaction t (lock_mgr a)),
                 txn_held_resources := fmdrop t (txn_held_resources a)\<rparr>
      in processPending (println (label @ message) (log_event t ty a1)))"

definition cmd_commit :: "string \<Rightarrow> App \<Rightarrow> exn + App" where
  "cmd_commit args a =
     (let (label, _) = next_word args
      in case fmlookup (txn_ids a) label of None \<Rightarrow> Inr (println (label @ '' not found'') a)
         | Some t \<Rightarrow>
             (case commitTransaction t (draw (sys_clock a)) (tm a) of
                (False, _) \<Rightarrow> Inr (println (label @ '' is not active'') a)
              | (True, tm') \<Rightarrow>
                  finish label t COMMIT '' committed'' (a\<lparr>tm := tm', sys_clock := rest (sys_clock a)\<rparr>)))"

definition cmd_abort :: "string \<Rightarrow> App \<Rightarrow> exn + App" where
  "cmd_abort args a =
     (let (label, _) = next_word args
      in case fmlookup (txn_ids a) label of None \<Rightarrow> Inr (println (label @ '' not found'') a)
         | Some t \<Rightarrow>
             (case abortTransaction t (draw (sys_clock a)) (tm a) of
                (False, _) \<Rightarrow> Inr (println (label @ '' is not active'') a)
              | (True, tm') \<Rightarrow>
                  finish label t ABORT '' aborted'' (a\<lparr>tm := tm', sys_clock := rest (sys_clock a)\<rparr>)))"

definition cmd_show :: "string \<Rightarrow> App \<Rightarrow> exn + App" where
  "cmd_show args a =
     (let (name, _) = next_word args
      in if name = [] then Inr (println ''Invalid SHOW command'' a)
         else
           (case ensureResource name a of Inl e \<Rightarrow> Inl e
            | Inr (rid, a1) \<Rightarrow>
                (case stored_value rid a1 of Inl e \<Rightarrow> Inl e
                 | Inr v \<Rightarrow> Inr (println (name @ '' = '' @ int_to_string (sint v)) a1))))"

definition cmd_status :: "App \<Rightarrow> App" where
  "cmd_status a =
     println (''active_transactions='' @ int_to_string (uint (getActiveTransactionCount (tm a))) @
       '' pending_commands='' @ nat_to_string (length (pending a)) @
       '' committed='' @ int_to_string (uint (getCommittedCount (tm a))) @
       '' aborted='' @ int_to_string (uint (getAbortedCount (tm a)))) a"

definition cmd_checkpoint :: "App \<Rightarrow> App" where
  "cmd_checkpoint a =
     (let a1 = log_event 0 CHECKPOINT a; a2 = a1\<lparr>log_mgr := flushLogs (log_mgr a1)\<rparr>
      in println ''checkpoint written'' a2)"

fun complete_all :: "u32 list \<Rightarrow> App \<Rightarrow> App" where
  "complete_all [] a = a"
| "complete_all (t # ts) a =
     complete_all ts (a\<lparr>lock_mgr := snd (completeTransaction t (lock_mgr a)),
                       txn_held_resources := fmdrop t (txn_held_resources a)\<rparr>)"

definition cmd_recover :: "App \<Rightarrow> exn + App" where
  "cmd_recover a =
     (let active_ids = getActiveTransactionIds (tm a);
          a1 = a\<lparr>tm := abortAllTransactions (sys_clock a) (tm a),
                 sys_clock := (rest ^^ length active_ids) (sys_clock a)\<rparr>;
          a2 = (complete_all active_ids a1)\<lparr>pending := []\<rparr>;
          lm = flushLogs (log_mgr a2)
      in case performRecovery (new_RecoveryManager lm (wall_clock a2)) of
           Inl (e, _) \<Rightarrow> Inl e
         | Inr rm \<Rightarrow>
             Inr (println (''recovery complete: redo='' @ nat_to_string (length (getRedoRecords rm)) @
                    '' undo='' @ nat_to_string (length (getUndoRecords rm)))
                  (a2\<lparr>log_mgr := log_manager rm, wall_clock := rec_clock rm\<rparr>)))"

text \<open>One line of input; the flag says whether the loop goes on.\<close>

definition process_line :: "string \<Rightarrow> App \<Rightarrow> exn + bool \<times> App" where
  "process_line line a =
     (if line = [] then Inr (True, a)
      else
        (let (op, args) = next_word line; go = map_sum id (Pair True)
         in if op = ''HELP'' then Inr (True, printHelp a)
            else if op = ''EXIT'' then Inr (False, a)
            else if op = ''BEGIN'' then Inr (True, cmd_begin args a)
            else if op = ''READ'' then go (cmd_read args a)
            else if op = ''WRITE'' then go (cmd_write args a)
            else if op = ''COMMIT'' then go (cmd_commit args a)
            else if op = ''ABORT'' then go (cmd_abort args a)
            else if op = ''SHOW'' then go (cmd_show args a)
            else if op = ''STATUS'' then Inr (True, cmd_status a)
            else if op = ''CHECKPOINT'' then Inr (True, cmd_checkpoint a)
            else if op = ''RECOVER'' then go (cmd_recover a)
            else Inr (True, println (''Unknown command: '' @ op) a)))"

fun command_loop :: "string list \<Rightarrow> App \<Rightarrow> exn + App" where
  "command_loop [] a = Inr a"
| "command_loop (line # lines) a =
     (case process_line line a of Inl e \<Rightarrow> Inl e
      | Inr (goes_on, a1) \<Rightarrow> if goes_on then command_loop lines a1 else Inr a1)"

text \<open>
  The environment of a run: what is on disk, the oracles, and the text of the input stream.
\<close>

record Environment =
  env_disk :: "string option"
  env_opens :: "bool oracle_seq"
  env_spill :: "nat oracle_seq"
  env_alloc :: "nat oracle_seq"
  env_sys_clock :: "time_point oracle_seq"
  env_wall_clock :: "64 word oracle_seq"

definition start_app :: "Environment \<Rightarrow> App" where
  "start_app env = \<lparr>tm = new_TransactionManager, lock_mgr = new_LockManager (env_alloc env),
     log_mgr = new_LogManager (env_disk env) (env_opens env) (env_spill env),
     data_store = new_DataStore, txn_ids = fmempty, resource_ids = fmempty,
     txn_held_resources = fmempty, pending = [], next_resource_id = 1, out = [],
     sys_clock = env_sys_clock env, wall_clock = env_wall_clock env\<rparr>"

definition main_program :: "Environment \<Rightarrow> string \<Rightarrow> exn + App" where
  "main_program env input =
     (case command_loop (getlines (CHR 0x0A) input) (printHelp (start_app env)) of Inl e \<Rightarrow> Inl e
      | Inr a \<Rightarrow> Inr (a\<lparr>log_mgr := delete_LogManager (flushLogs (log_mgr a))\<rparr>))"

end
