(* ===== verification/AppSteps.thy ===== *)
theory AppSteps
  imports App
begin

text \<open>
  The program as a transition system over its components. Each atomic effect of a command
  (a resource created, a lock requested, a record overwritten, a log record written, a
  transaction begun or finished, a recovery) is a step with the guard under which the code
  performs it, and every command line is shown to be a sequence of such steps. Invariants
  and isolation are then arguments about single steps.
\<close>

named_theorems app_obs

section \<open>Steps\<close>

definition same_core :: "App \<Rightarrow> App \<Rightarrow> bool" where
  "same_core a a' \<longleftrightarrow> tm a' = tm a \<and> lock_mgr a' = lock_mgr a \<and> log_mgr a' = log_mgr a \<and>
     data_store a' = data_store a \<and> txn_ids a' = txn_ids a"

inductive app_step :: "App \<Rightarrow> App \<Rightarrow> bool" where
  app_quiet: "same_core a a' \<Longrightarrow> app_step a a'"
| app_resource: "lm = lock_mgr a \<or> lm = setResourceParent rid p (lock_mgr a) \<Longrightarrow>
    create_record rid v (a\<lparr>next_resource_id := n, resource_ids := rs, lock_mgr := lm\<rparr>) = Inr a' \<Longrightarrow>
    app_step a a'"
| app_request: "isTransactionActive t (tm a) \<Longrightarrow>
    app_step a (a\<lparr>lock_mgr := snd (requestLock t rid ty (lock_mgr a))\<rparr>)"
| app_update: "isTransactionActive t (tm a) \<Longrightarrow> holds_lock (lock_mgr a) t rid EXCLUSIVE \<Longrightarrow>
    updateRecord rid (intToBytes v) now (data_store a) = Inr (b, ds) \<Longrightarrow>
    app_step a (a\<lparr>data_store := ds\<rparr>)"
| app_log_update: "isTransactionActive t (tm a) \<Longrightarrow> app_step a (log_event t UPDATE a)"
| app_begin: "next_transaction_id (tm a) \<noteq> -1 \<Longrightarrow> app_step a (cmd_begin args a)"
| app_commit: "commitTransaction t now (tm a) = (True, tm') \<Longrightarrow>
    app_step a (log_event t COMMIT (a\<lparr>tm := tm', lock_mgr := snd (completeTransaction t (lock_mgr a))\<rparr>))"
| app_abort: "abortTransaction t now (tm a) = (True, tm') \<Longrightarrow>
    app_step a (log_event t ABORT (a\<lparr>tm := tm', lock_mgr := snd (completeTransaction t (lock_mgr a))\<rparr>))"
| app_checkpoint: "app_step a (cmd_checkpoint a)"
| app_recover: "cmd_recover a = Inr a' \<Longrightarrow> app_step a a'"

abbreviation app_steps :: "App \<Rightarrow> App \<Rightarrow> bool" where
  "app_steps \<equiv> app_step\<^sup>*\<^sup>*"

lemma quiet_steps: "same_core a a' \<Longrightarrow> app_steps a a'"
  by (rule r_into_rtranclp) (rule app_quiet)

lemma same_core_upd [simp]:
  "same_core a a" "same_core a (a\<lparr>pending := ps\<rparr>)" "same_core a (a\<lparr>out := os\<rparr>)"
  "same_core a (println s a)" "same_core a (hold_resource t r a)"
  "same_core a (a\<lparr>sys_clock := c\<rparr>)" "same_core a (a\<lparr>txn_held_resources := h\<rparr>)"
  "same_core a (printHelp a)" "same_core a (cmd_status a)" "same_core a (waiting_message cmd fp a)"
  by (simp_all add: same_core_def println_def hold_resource_def printHelp_def cmd_status_def
      waiting_message_def)

section \<open>What a command leaves alone\<close>

text \<open>Creating resources and executing reads and writes do not touch the transaction tables.\<close>

definition same_txns :: "App \<Rightarrow> App \<Rightarrow> bool" where
  "same_txns a a' \<longleftrightarrow> tm a' = tm a \<and> txn_ids a' = txn_ids a \<and> pending a' = pending a"

lemma same_txns_refl [simp]: "same_txns a a"
  by (simp add: same_txns_def)

lemma same_txns_trans: "same_txns a b \<Longrightarrow> same_txns b c \<Longrightarrow> same_txns a c"
  by (simp add: same_txns_def)

lemma same_txns_upd [simp]:
  "same_txns a (println s b) = same_txns a b" "same_txns a (hold_resource t r b) = same_txns a b"
  "same_txns a (waiting_message cmd fp b) = same_txns a b" "same_txns a (log_event t ty b) = same_txns a b"
  "same_txns a (b\<lparr>lock_mgr := lm\<rparr>) = same_txns a b" "same_txns a (b\<lparr>data_store := ds\<rparr>) = same_txns a b"
  "same_txns a (b\<lparr>sys_clock := c\<rparr>) = same_txns a b" "same_txns a (b\<lparr>next_resource_id := n\<rparr>) = same_txns a b"
  "same_txns a (b\<lparr>resource_ids := rs\<rparr>) = same_txns a b"
  "same_txns (a\<lparr>next_resource_id := n\<rparr>) b = same_txns a b"
  "same_txns (a\<lparr>resource_ids := rs\<rparr>) b = same_txns a b"
  "same_txns (a\<lparr>lock_mgr := lm\<rparr>) b = same_txns a b"
  by (simp_all add: same_txns_def println_def hold_resource_def waiting_message_def log_event_def)

lemma create_record_frame:
  assumes "create_record rid v a = Inr a'"
  shows "same_txns a a'" and "log_mgr a' = log_mgr a" and "lock_mgr a' = lock_mgr a"
    and "resource_ids a' = resource_ids a" and "next_resource_id a' = next_resource_id a"
    and "out a' = out a"
  using assms by (auto simp: create_record_def same_txns_def Let_def split: sum.splits)

lemma new_resource_steps:
  assumes "new_resource path last_id a = Inr (rid, a')"
  shows "app_steps a a' \<and> same_txns a a' \<and> out a' = out a"
proof -
  let ?n = "next_resource_id a"
  let ?lm = "if last_id \<noteq> 0 then setResourceParent ?n last_id (lock_mgr a) else lock_mgr a"
  have c: "create_record ?n (if path = ''A'' then 10 else 0)
      (a\<lparr>next_resource_id := ?n + 1, resource_ids := fmupd path ?n (resource_ids a), lock_mgr := ?lm\<rparr>) = Inr a'"
    using assms by (auto simp: new_resource_def Let_def split: sum.splits if_splits)
  have "app_step a a'" by (rule app_resource [OF _ c]) auto
  then show ?thesis using create_record_frame [OF c] by auto
qed

lemma ensure_loop_steps:
  "ensure_loop segs path last_id a = Inr (rid, a') \<Longrightarrow> app_steps a a' \<and> same_txns a a' \<and> out a' = out a"
proof (induction segs arbitrary: path last_id a)
  case Nil
  then show ?case by simp
next
  case (Cons seg segs)
  let ?path = "if path = [] then seg else path @ ''.'' @ seg"
  show ?case
  proof (cases "seg = []")
    case True
    then show ?thesis using Cons by simp
  next
    case False
    show ?thesis
    proof (cases "fmlookup (resource_ids a) ?path")
      case (Some r)
      then show ?thesis using Cons.IH [of ?path r a] Cons.prems False by (simp add: Let_def)
    next
      case None
      then obtain r b where b: "new_resource ?path last_id a = Inr (r, b)"
        and "ensure_loop segs ?path r b = Inr (rid, a')"
        using Cons.prems False by (auto simp: Let_def split: sum.splits)
      then show ?thesis
        using new_resource_steps [OF b] Cons.IH [of ?path r b] same_txns_trans rtranclp_trans [of app_step]
        by metis
    qed
  qed
qed

lemma ensureResource_steps:
  assumes "ensureResource name a = Inr (rid, a')"
  shows "app_steps a a' \<and> same_txns a a' \<and> out a' = out a"
proof -
  obtain last_id b where b: "ensure_loop (getlines (CHR ''.'') name) [] 0 a = Inr (last_id, b)"
    using assms by (auto simp: ensureResource_def split: sum.splits)
  note steps = ensure_loop_steps [OF b]
  show ?thesis
  proof (cases "last_id = 0")
    case False
    then show ?thesis using assms b steps by (simp add: ensureResource_def)
  next
    case True
    let ?n = "next_resource_id b"
    have c: "create_record ?n 0 (b\<lparr>next_resource_id := ?n + 1,
        resource_ids := fmupd name ?n (resource_ids b), lock_mgr := lock_mgr b\<rparr>) = Inr a'"
      using assms b True by (auto simp: ensureResource_def Let_def split: sum.splits)
    have "app_step b a'" by (rule app_resource [OF _ c]) simp
    then show ?thesis
      using steps create_record_frame [OF c] same_txns_trans [of a b a']
      by (auto intro: rtranclp.rtrancl_into_rtrancl)
  qed
qed

section \<open>Commands as sequences of steps\<close>

lemma request_step:
  assumes "app_steps a b" and "isTransactionActive t (tm b)"
  shows "app_steps a (b\<lparr>lock_mgr := snd (requestLock t rid ty (lock_mgr b))\<rparr>)"
  using assms app_request by (meson rtranclp.rtrancl_into_rtrancl)

lemma quiet_after: "app_steps a b \<Longrightarrow> same_core b c \<Longrightarrow> app_steps a c"
  by (meson quiet_steps rtranclp_trans)

lemma execute_read_steps:
  assumes "isTransactionActive t (tm a)" and "execute_read t cmd fp a = Inr (b, a')"
  shows "app_steps a a' \<and> same_txns a a'"
proof -
  obtain rid a1 where a1: "ensureResource (resource_name cmd) a = Inr (rid, a1)"
    using assms(2) by (auto simp: execute_read_def split: sum.splits)
  define lm where "lm = snd (requestLock t rid SHARED (lock_mgr a1))"
  have act: "isTransactionActive t (tm a1)" using ensureResource_steps [OF a1] assms(1) by (simp add: same_txns_def)
  have steps: "app_steps a (a1\<lparr>lock_mgr := lm\<rparr>)"
    unfolding lm_def using request_step [OF _ act] ensureResource_steps [OF a1] by blast
  consider "a' = waiting_message cmd fp (a1\<lparr>lock_mgr := lm\<rparr>)"
    | s where "a' = println s (hold_resource t rid (a1\<lparr>lock_mgr := lm\<rparr>))"
    using assms(2) a1
    by (auto simp: execute_read_def lm_def Let_def case_prod_beta split: sum.splits if_splits)
  then show ?thesis
  proof cases
    case 1
    then show ?thesis
      using quiet_after [OF steps] ensureResource_steps [OF a1] by simp
  next
    case (2 s)
    have "app_steps a (hold_resource t rid (a1\<lparr>lock_mgr := lm\<rparr>))" by (rule quiet_after [OF steps]) simp
    then show ?thesis using 2 quiet_after ensureResource_steps [OF a1] by simp
  qed
qed

text \<open>
  A write that gets its lock overwrites the record while the transaction holds an
  EXCLUSIVE lock on the resource, and then logs the update.
\<close>

lemma granted_exclusive:
  assumes "requestLock t rid EXCLUSIVE lm = (True, lm')"
  shows "holds_lock lm' t rid EXCLUSIVE"
  using requestLock_granted [OF assms] by blast

lemma write_steps:
  assumes "isTransactionActive t (tm a)" and "holds_lock (lock_mgr a) t rid EXCLUSIVE"
    and "updateRecord rid (intToBytes v) now (data_store a) = Inr (b, ds)"
  shows "app_steps a (log_event t UPDATE (a\<lparr>data_store := ds, sys_clock := c\<rparr>))"
proof -
  have "app_steps a (a\<lparr>data_store := ds\<rparr>)"
    by (rule r_into_rtranclp) (rule app_update [OF assms])
  then have "app_steps a (a\<lparr>data_store := ds, sys_clock := c\<rparr>)"
    by (rule quiet_after) (simp add: same_core_def)
  then show ?thesis
    by (rule rtranclp.rtrancl_into_rtrancl) (rule app_log_update, use assms(1) in simp)
qed

lemma execute_write_steps:
  assumes "isTransactionActive t (tm a)" and "execute_write t cmd fp a = Inr (b, a')"
  shows "app_steps a a' \<and> same_txns a a'"
proof -
  obtain rid a1 where a1: "ensureResource (resource_name cmd) a = Inr (rid, a1)"
    using assms(2) by (auto simp: execute_write_def split: sum.splits)
  obtain g lm where g: "requestLock t rid EXCLUSIVE (lock_mgr a1) = (g, lm)" by fastforce
  let ?a2 = "a1\<lparr>lock_mgr := lm\<rparr>"
  let ?a3 = "hold_resource t rid ?a2"
  have act: "isTransactionActive t (tm a1)"
    using ensureResource_steps [OF a1] assms(1) by (simp add: same_txns_def)
  have steps: "app_steps a ?a2"
    using request_step [OF _ act, of a rid EXCLUSIVE] ensureResource_steps [OF a1] g by simp
  show ?thesis
  proof (cases g)
    case False
    then have "a' = waiting_message cmd fp ?a2" using assms(2) a1 g by (simp add: execute_write_def)
    then show ?thesis using quiet_after [OF steps] ensureResource_steps [OF a1] by simp
  next
    case True
    then obtain u ds where u: "updateRecord rid (intToBytes (cmd_value cmd)) (draw (sys_clock ?a3)) (data_store ?a3) = Inr (u, ds)"
      and a': "a' = println (txn_label cmd @ '' writes '' @ resource_name cmd @ '' = '' @
          int_to_string (sint (cmd_value cmd)))
        (log_event t UPDATE (?a3\<lparr>data_store := ds, sys_clock := rest (sys_clock ?a3)\<rparr>))"
      using assms(2) a1 g by (auto simp: execute_write_def Let_def split: sum.splits)
    have h: "holds_lock (lock_mgr ?a3) t rid EXCLUSIVE" and act3: "isTransactionActive t (tm ?a3)"
      using granted_exclusive g True act by (auto simp: hold_resource_def)
    have "app_steps a ?a3" by (rule quiet_after [OF steps]) simp
    then have "app_steps a (log_event t UPDATE (?a3\<lparr>data_store := ds, sys_clock := rest (sys_clock ?a3)\<rparr>))"
      using write_steps [OF act3 h u] by (rule rtranclp_trans)
    then show ?thesis using quiet_after [OF _ same_core_upd(4)] ensureResource_steps [OF a1] a' by simp
  qed
qed

lemma executeCommand_steps:
  "executeCommand cmd fp a = Inr (b, a') \<Longrightarrow> app_steps a a' \<and> same_txns a a'"
  by (auto simp: executeCommand_def execute_read_steps execute_write_steps split: option.splits if_splits)

lemma announce_steps:
  assumes "announce cmd t resumed a = Inr (resumed', a')"
  shows "app_steps a a' \<and> same_txns a a'"
proof (cases "txn_label cmd |\<notin>| resumed \<and> resource_name cmd \<noteq> []")
  case True
  then obtain rid a1 where a1: "ensureResource (resource_name cmd) a = Inr (rid, a1)"
    and "a' = a1 \<or> a' = println (txn_label cmd @ '' resumes'') a1"
    using assms by (auto simp: announce_def split: sum.splits if_splits)
  then show ?thesis using ensureResource_steps [OF a1] quiet_after [OF _ same_core_upd(4)] by auto
next
  case False
  then show ?thesis using assms by (auto simp: announce_def)
qed

lemma pending_pass_steps:
  "pending_pass cmds kept resumed mp a = Inr (kept', resumed', mp', a') \<Longrightarrow> app_steps a a' \<and> same_txns a a'"
proof (induction cmds arbitrary: kept resumed mp a)
  case Nil
  then show ?case by simp
next
  case (Cons cmd cmds)
  show ?case
  proof (cases "fmlookup (txn_ids a) (txn_label cmd)")
    case None
    then show ?thesis using Cons by simp
  next
    case (Some t)
    show ?thesis
    proof (cases "isTransactionActive t (tm a)")
      case False
      then show ?thesis using Cons Some by simp
    next
      case True
      then obtain res1 a1 ex a2 where a1: "announce cmd t resumed a = Inr (res1, a1)"
        and a2: "executeCommand cmd True a1 = Inr (ex, a2)"
        and rest: "(if ex then pending_pass cmds kept res1 True a2
            else pending_pass cmds (kept @ [cmd]) res1 mp a2) = Inr (kept', resumed', mp', a')"
        using Cons.prems Some by (auto split: sum.splits)
      have "app_steps a2 a' \<and> same_txns a2 a'"
        using rest Cons.IH [of kept res1 True a2] Cons.IH [of "kept @ [cmd]" res1 mp a2] by (cases ex) auto
      then show ?thesis
        using announce_steps [OF a1] executeCommand_steps [OF a2] same_txns_trans
        by (meson rtranclp_trans)
    qed
  qed
qed

lemma process_loop_steps:
  "process_loop resumed a = Inr a' \<Longrightarrow> app_steps a a' \<and> tm a' = tm a \<and> txn_ids a' = txn_ids a"
proof (induction resumed a rule: process_loop.induct)
  case (1 resumed a)
  obtain kept res1 mp a1 where p: "pending_pass (pending a) [] resumed False a = Inr (kept, res1, mp, a1)"
    and rest: "(if mp then process_loop res1 (a1\<lparr>pending := kept\<rparr>) else Inr (a1\<lparr>pending := kept\<rparr>)) = Inr a'"
    using 1(2) by (subst (asm) process_loop.simps) (auto simp: Let_def split: sum.splits)
  have steps: "app_steps a (a1\<lparr>pending := kept\<rparr>)"
    using quiet_after [OF conjunct1 [OF pending_pass_steps [OF p]]] by simp
  have same: "tm a1 = tm a" "txn_ids a1 = txn_ids a"
    using pending_pass_steps [OF p] by (simp_all add: same_txns_def)
  show ?case
  proof (cases mp)
    case True
    then have "app_steps (a1\<lparr>pending := kept\<rparr>) a' \<and> tm a' = tm (a1\<lparr>pending := kept\<rparr>) \<and>
        txn_ids a' = txn_ids (a1\<lparr>pending := kept\<rparr>)"
      using 1(1) [OF p refl refl refl refl True] rest by simp
    then show ?thesis using steps same rtranclp_trans by fastforce
  next
    case False
    then show ?thesis using rest steps same by auto
  qed
qed

lemma submit_steps:
  assumes "submit cmd a = Inr a'"
  shows "app_steps a a'"
proof -
  consider "same_core a a'" | b a1 where "executeCommand cmd False a = Inr (b, a1)" "same_core a1 a'"
    using assms by (auto simp: submit_def split: if_splits sum.splits)
  then show ?thesis
    using quiet_steps executeCommand_steps quiet_after by cases blast+
qed

lemma finish_steps:
  assumes "app_step a (log_event t ty (a\<lparr>tm := tm', lock_mgr := snd (completeTransaction t (lock_mgr a))\<rparr>))"
    and "finish label t ty msg (a\<lparr>tm := tm', sys_clock := c\<rparr>) = Inr a'"
  shows "app_steps a a'"
proof -
  obtain a1 where a1: "processPending a1 = Inr a'"
    and same: "same_core (log_event t ty (a\<lparr>tm := tm', lock_mgr := snd (completeTransaction t (lock_mgr a))\<rparr>)) a1"
    using assms(2) by (auto simp: finish_def Let_def same_core_def log_event_def println_def)
  have "app_steps a1 a'" using process_loop_steps a1 unfolding processPending_def by blast
  then show ?thesis
    using assms(1) quiet_steps [OF same] by (meson converse_rtranclp_into_rtranclp rtranclp_trans)
qed

lemma cmd_commit_cases:
  assumes "cmd_commit args a = Inr a'"
  obtains (message) s where "a' = println s a"
    | (finished) label t tm' where "commitTransaction t (draw (sys_clock a)) (tm a) = (True, tm')"
      "finish label t COMMIT '' committed'' (a\<lparr>tm := tm', sys_clock := rest (sys_clock a)\<rparr>) = Inr a'"
  using assms by (cases "next_word args") (auto simp: cmd_commit_def split: option.splits bool.splits prod.splits)

lemma cmd_commit_steps:
  assumes "cmd_commit args a = Inr a'"
  shows "app_steps a a'"
  using assms
proof (cases rule: cmd_commit_cases)
  case (message s)
  then show ?thesis by (simp add: quiet_steps)
next
  case (finished label t tm')
  show ?thesis by (rule finish_steps [OF app_commit [OF finished(1)] finished(2)])
qed

lemma cmd_abort_cases:
  assumes "cmd_abort args a = Inr a'"
  obtains (message) s where "a' = println s a"
    | (finished) label t tm' where "abortTransaction t (draw (sys_clock a)) (tm a) = (True, tm')"
      "finish label t ABORT '' aborted'' (a\<lparr>tm := tm', sys_clock := rest (sys_clock a)\<rparr>) = Inr a'"
  using assms by (cases "next_word args") (auto simp: cmd_abort_def split: option.splits bool.splits prod.splits)

lemma cmd_abort_steps:
  assumes "cmd_abort args a = Inr a'"
  shows "app_steps a a'"
  using assms
proof (cases rule: cmd_abort_cases)
  case (message s)
  then show ?thesis by (simp add: quiet_steps)
next
  case (finished label t tm')
  show ?thesis by (rule finish_steps [OF app_abort [OF finished(1)] finished(2)])
qed

lemma cmd_show_steps:
  assumes "cmd_show args a = Inr a'"
  shows "app_steps a a'"
proof -
  consider "same_core a a'" | name rid a1 where "ensureResource name a = Inr (rid, a1)" "same_core a1 a'"
    using assms by (auto simp: cmd_show_def case_prod_beta split: if_splits sum.splits)
  then show ?thesis using quiet_steps ensureResource_steps quiet_after by cases blast+
qed

lemma cmd_read_steps: "cmd_read args a = Inr a' \<Longrightarrow> app_steps a a'"
  by (auto simp: cmd_read_def case_prod_beta quiet_steps submit_steps split: if_splits)

lemma cmd_write_steps: "cmd_write args a = Inr a' \<Longrightarrow> app_steps a a'"
  by (auto simp: cmd_write_def case_prod_beta quiet_steps submit_steps split: if_splits)

lemmas command_steps = cmd_read_steps cmd_write_steps cmd_commit_steps cmd_abort_steps cmd_show_steps

lemma map_go: "map_sum id (Pair True) x = Inr (go, a') \<Longrightarrow> x = Inr a'"
  by (cases x) auto

text \<open>One input line is a sequence of steps, as long as transaction ids are left.\<close>

lemma process_line_steps:
  assumes "process_line line a = Inr (go, a')" and "next_transaction_id (tm a) \<noteq> -1"
  shows "app_steps a a'"
proof -
  obtain cmd args where nw: "next_word line = (cmd, args)" by fastforce
  consider "same_core a a'" | "a' = cmd_begin args a" | "a' = cmd_checkpoint a" | "cmd_recover a = Inr a'"
    | "cmd_read args a = Inr a'" | "cmd_write args a = Inr a'" | "cmd_commit args a = Inr a'"
    | "cmd_abort args a = Inr a'" | "cmd_show args a = Inr a'"
    using assms(1) unfolding process_line_def nw Let_def prod.case
    by (simp split: if_splits) (auto dest: map_go)
  then show ?thesis
  proof cases
    case 2
    then show ?thesis using app_begin [OF assms(2)] by blast
  next
    case 3
    then show ?thesis using app_checkpoint by blast
  next
    case 4
    then show ?thesis using app_recover by blast
  qed (blast intro: quiet_steps command_steps)+
qed

section \<open>The id counter\<close>

lemma finish_next:
  assumes "finish label t ty msg a = Inr a'"
  shows "tm a' = tm a"
  using assms process_loop_steps [of "{||}"] unfolding finish_def processPending_def
  by (fastforce simp: Let_def println_def log_event_def)

lemma next_id_commit [app_obs]:
  "next_transaction_id (snd (commitTransaction t now m)) = next_transaction_id m"
  "next_transaction_id (snd (abortTransaction t now m)) = next_transaction_id m"
  by (simp_all add: commitTransaction_def abortTransaction_def Let_def split: option.split)

lemma next_id_abort_loop [app_obs]: "next_transaction_id (abort_loop ts clk m) = next_transaction_id m"
  by (induction ts clk m rule: abort_loop.induct) (simp_all add: next_id_commit)

lemma complete_all_frame:
  "tm (complete_all ts a) = tm a" "log_mgr (complete_all ts a) = log_mgr a"
  "data_store (complete_all ts a) = data_store a" "txn_ids (complete_all ts a) = txn_ids a"
  "wall_clock (complete_all ts a) = wall_clock a" "resource_ids (complete_all ts a) = resource_ids a"
  by (induction ts a rule: complete_all.induct) simp_all

lemma cmd_recover_tm:
  "cmd_recover a = Inr a' \<Longrightarrow> tm a' = abortAllTransactions (sys_clock a) (tm a)"
  by (auto simp: cmd_recover_def Let_def complete_all_frame println_def split: sum.splits)

lemma submit_tm: "submit cmd a = Inr a' \<Longrightarrow> tm a' = tm a"
  by (auto simp: submit_def println_def dest!: executeCommand_steps
      simp: same_txns_def split: if_splits sum.splits)

lemma cmd_begin_next:
  "next_transaction_id (tm (cmd_begin args a)) \<in> {next_transaction_id (tm a), next_transaction_id (tm a) + 1}"
  by (simp add: cmd_begin_def case_prod_beta Let_def println_def log_event_def beginTransaction_def)

lemma process_line_next:
  assumes "process_line line a = Inr (go, a')"
  shows "next_transaction_id (tm a') \<in> {next_transaction_id (tm a), next_transaction_id (tm a) + 1}"
proof -
  obtain cmd args where nw: "next_word line = (cmd, args)" by fastforce
  consider "tm a' = tm a" | "a' = cmd_begin args a" | "cmd_recover a = Inr a'"
    | "cmd_read args a = Inr a'" | "cmd_write args a = Inr a'" | "cmd_commit args a = Inr a'"
    | "cmd_abort args a = Inr a'" | "cmd_show args a = Inr a'"
    using assms unfolding process_line_def nw Let_def prod.case
    by (simp split: if_splits)
      (auto dest: map_go simp: printHelp_def println_def cmd_status_def cmd_checkpoint_def log_event_def Let_def)
  then show ?thesis
  proof cases
    case 2
    then show ?thesis using cmd_begin_next by simp
  next
    case 3
    then show ?thesis by (simp add: cmd_recover_tm abortAllTransactions_def next_id_abort_loop)
  next
    case 4
    then show ?thesis by (auto simp: cmd_read_def case_prod_beta println_def dest!: submit_tm split: if_splits)
  next
    case 5
    then show ?thesis by (auto simp: cmd_write_def case_prod_beta println_def dest!: submit_tm split: if_splits)
  next
    case 6
    then show ?thesis
      by (auto simp: cmd_commit_def case_prod_beta println_def next_id_commit dest!: finish_next
          split: option.splits bool.splits prod.splits)
  next
    case 7
    then show ?thesis
      by (auto simp: cmd_abort_def case_prod_beta println_def next_id_commit dest!: finish_next
          split: option.splits bool.splits prod.splits)
  next
    case 8
    then show ?thesis
      by (auto simp: cmd_show_def case_prod_beta println_def same_txns_def dest!: ensureResource_steps
          split: if_splits sum.splits)
  qed simp
qed

text \<open>
  A run of fewer lines than there are transaction ids left is a sequence of steps.
\<close>

lemma room_not_max: "unat n + Suc k < 2 ^ 32 \<Longrightarrow> n \<noteq> -1" for n :: u32
  by (rule unat_less_max [of n k]) simp

lemma command_loop_steps:
  "command_loop lines a = Inr a' \<Longrightarrow> unat (next_transaction_id (tm a)) + length lines < 2 ^ 32 \<Longrightarrow>
   app_steps a a'"
proof (induction lines arbitrary: a)
  case Nil
  then show ?case by simp
next
  case (Cons line lines)
  have n: "next_transaction_id (tm a) \<noteq> -1" by (rule room_not_max) (use Cons.prems(2) in simp)
  obtain go a1 where a1: "process_line line a = Inr (go, a1)"
    and rest: "(if go then command_loop lines a1 else Inr a1) = Inr a'"
    using Cons.prems(1) by (auto split: sum.splits)
  note step = process_line_steps [OF a1 n]
  show ?case
  proof (cases go)
    case True
    have "unat (next_transaction_id (tm a1)) \<le> Suc (unat (next_transaction_id (tm a)))"
      using process_line_next [OF a1] unat_add_one [OF n] by auto
    then have "app_steps a1 a'" using Cons.IH [of a1] rest True Cons.prems(2) by simp
    then show ?thesis using step by (rule rtranclp_trans [rotated])
  next
    case False
    then show ?thesis using step rest by simp
  qed
qed

end
