(* ===== verification/AppProps.thy ===== *)
theory AppProps
  imports AppSteps
begin

text \<open>
  The invariant of the running program, which ties its components together, and the
  properties that follow: no run on a readable log ends in an exception, a lock protects
  its resource until the holder finishes, and the log has a commit record for exactly the
  committed transactions.
\<close>

section \<open>What a step does to each component\<close>

lemma app_step_tm: "app_step a a' \<Longrightarrow> tm a' = tm a \<or> tm_step (tm a) (tm a')"
proof (induction rule: app_step.induct)
  case (app_quiet a a')
  then show ?case by (simp add: same_core_def)
next
  case (app_resource lm a rid p v n rs a')
  then show ?case using create_record_frame(1) by (fastforce simp: same_txns_def)
next
  case (app_begin a args)
  then show ?case
    using tm_begin [OF app_begin, of "draw (sys_clock a)" "draw (rest (sys_clock a))"]
    by (auto simp: cmd_begin_def case_prod_beta Let_def println_def log_event_def)
next
  case (app_commit t now a tm')
  then show ?case using tm_commit [of "tm a" t now] by (simp add: log_event_def)
next
  case (app_abort t now a tm')
  then show ?case using tm_abort [of "tm a" t now] by (simp add: log_event_def)
next
  case (app_recover a a')
  then show ?case using tm_abort_all by (simp add: cmd_recover_tm)
qed (simp_all add: log_event_def cmd_checkpoint_def println_def Let_def)

lemma complete_all_locks: "lm_step\<^sup>*\<^sup>* (lock_mgr a) (lock_mgr (complete_all ts a))"
proof (induction ts a rule: complete_all.induct)
  case (2 t ts a)
  have "lm_step (lock_mgr a) (snd (completeTransaction t (lock_mgr a)))"
    using lm_complete by (metis prod.collapse)
  with 2 show ?case by (simp add: converse_rtranclp_into_rtranclp)
qed simp

lemma recover_lock_mgr:
  "cmd_recover a = Inr a' \<Longrightarrow>
     \<exists>b. lock_mgr a' = lock_mgr (complete_all (getActiveTransactionIds (tm a)) b) \<and> lock_mgr b = lock_mgr a"
  by (auto simp: cmd_recover_def Let_def println_def split: sum.splits
      intro!: exI [of _ "a\<lparr>tm := abortAllTransactions (sys_clock a) (tm a),
        sys_clock := (rest ^^ length (getActiveTransactionIds (tm a))) (sys_clock a)\<rparr>"])

lemma app_step_locks: "app_step a a' \<Longrightarrow> lm_step\<^sup>*\<^sup>* (lock_mgr a) (lock_mgr a')"
proof (induction rule: app_step.induct)
  case (app_quiet a a')
  then show ?case by (simp add: same_core_def)
next
  case (app_resource lm a rid p v n rs a')
  then have "lock_mgr a' = lm" using create_record_frame(3) by fastforce
  with app_resource show ?case using lm_parent by (elim disjE) auto
next
  case (app_request t a rid ty)
  then show ?case using lm_request by (simp, metis prod.collapse r_into_rtranclp)
next
  case (app_begin a args)
  then show ?case by (simp add: cmd_begin_def case_prod_beta Let_def println_def log_event_def)
next
  case (app_commit t now a tm')
  then show ?case using lm_complete by (simp add: log_event_def, metis prod.collapse r_into_rtranclp)
next
  case (app_abort t now a tm')
  then show ?case using lm_complete by (simp add: log_event_def, metis prod.collapse r_into_rtranclp)
next
  case (app_recover a a')
  then show ?case using recover_lock_mgr complete_all_locks by metis
qed (simp_all add: log_event_def cmd_checkpoint_def println_def Let_def)

text \<open>Completed transactions, as the lock manager knows them.\<close>

abbreviation done_txns :: "App \<Rightarrow> u32 fset" where
  "done_txns a \<equiv> completed_txns (lock_mgr a)"

lemma done_complete: "completed_txns (snd (completeTransaction t lm)) = finsert t (completed_txns lm)"
  using completed_completeTransaction by (metis prod.collapse)

lemma done_request: "completed_txns (snd (requestLock t rid ty lm)) = completed_txns lm"
  using requestLock_frame by (metis prod.collapse)

lemma done_complete_all: "done_txns (complete_all ts a) = fset_of_list ts |\<union>| done_txns a"
  by (induction ts a rule: complete_all.induct) (auto simp: done_complete)

section \<open>The store holds numbers\<close>

definition int_store :: "DataStore \<Rightarrow> bool" where
  "int_store ds \<longleftrightarrow> (\<forall>rid r. fmlookup (records ds) rid = Some r \<longrightarrow> getData r \<in> range intToBytes)"

lemma bytes_of_string: "map (\<lambda>b. char_of (unat b)) (map (\<lambda>c. word_of_nat (of_char c) :: u8) s) = s"
proof (induction s)
  case (Cons c s)
  have "(of_char c :: nat) < 256" by (cases c) simp
  then have "unat (word_of_nat (of_char c) :: u8) = of_char c" by (simp add: unat_of_nat)
  with Cons show ?case by simp
qed simp

lemma bytesToInt_intToBytes: "bytesToInt (intToBytes v) = Inr v"
  unfolding bytesToInt_def intToBytes_def bytes_of_string by (simp add: stoi_print)

lemma nat_to_string_length: "n < 10 ^ k \<Longrightarrow> 0 < k \<Longrightarrow> length (nat_to_string n) \<le> k"
proof (induction n arbitrary: k rule: nat_to_string.induct)
  case (1 n)
  show ?case
  proof (cases "n < 10")
    case True
    then show ?thesis using 1 by (subst nat_to_string.simps) simp
  next
    case False
    then obtain j where j: "k = Suc j" "0 < j" using 1(2,3) by (cases k; cases "k - 1") auto
    then have "n div 10 < 10 ^ j" using 1(2) by (simp add: div_less_iff_less_mult mult.commute)
    then have "length (nat_to_string (n div 10)) \<le> j" using 1(1) False j by simp
    then show ?thesis using False j by (subst nat_to_string.simps) simp
  qed
qed

lemma intToBytes_length: "length (intToBytes v) \<le> 11"
proof -
  have "nat \<bar>sint v\<bar> < 10 ^ 10" using sint_bounds [of v] by auto
  then have "length (nat_to_string (nat \<bar>sint v\<bar>)) \<le> 10" by (rule nat_to_string_length) simp
  then show ?thesis by (auto simp: intToBytes_def int_to_string_def)
qed

lemma setData_int: "setData (intToBytes v) now r = Inr (r\<lparr>data := intToBytes v, modified_time := now\<rparr>)"
  using intToBytes_length [of v] by (simp add: setData_def MAX_RECORD_SIZE_def)

lemma int_store_insert:
  "int_store ds \<Longrightarrow> getData r \<in> range intToBytes \<Longrightarrow> int_store (snd (insertRecord (Some r) ds))"
  by (auto simp: int_store_def insertRecord_def)

lemma int_store_update:
  "int_store ds \<Longrightarrow> updateRecord rid (intToBytes v) now ds = Inr (b, ds') \<Longrightarrow> int_store ds'"
  by (auto simp: int_store_def updateRecord_def setData_int getData_def split: option.splits if_splits)

lemma app_step_store: "app_step a a' \<Longrightarrow> int_store (data_store a) \<Longrightarrow> int_store (data_store a')"
proof (induction rule: app_step.induct)
  case (app_quiet a a')
  then show ?case by (simp add: same_core_def)
next
  case (app_resource lm a rid p v n rs a')
  then show ?case
    by (auto simp: create_record_def Let_def setData_int getData_def split: sum.splits intro!: int_store_insert)
next
  case (app_update t a rid v now b ds)
  then show ?case using int_store_update by simp
next
  case (app_recover a a')
  then show ?case
    by (auto simp: cmd_recover_def Let_def complete_all_frame println_def split: sum.splits)
qed (simp_all add: log_event_def cmd_checkpoint_def cmd_begin_def case_prod_beta println_def Let_def)

section \<open>Live transactions are not completed\<close>

definition live_ok :: "App \<Rightarrow> bool" where
  "live_ok a \<longleftrightarrow>
     (\<forall>t. t |\<in>| done_txns a \<longrightarrow> t < next_transaction_id (tm a) \<and> \<not> isTransactionActive t (tm a))"

lemma active_commit:
  "isTransactionActive t (snd (commitTransaction i now m)) \<longleftrightarrow> t \<noteq> i \<and> isTransactionActive t m"
  "isTransactionActive t (snd (abortTransaction i now m)) \<longleftrightarrow> t \<noteq> i \<and> isTransactionActive t m"
  by (auto simp: isTransactionActive_def commitTransaction_def abortTransaction_def Let_def split: option.splits)

lemma active_abort_all: "\<not> isTransactionActive t (abortAllTransactions clk m)"
  by (auto simp: isTransactionActive_def abortAllTransactions_def abort_loop_lookup
      getActiveTransactionIds_def in_fmdom_iff split: option.splits)

lemma next_id_abort_all [app_obs]:
  "next_transaction_id (abortAllTransactions clk m) = next_transaction_id m"
  by (simp add: abortAllTransactions_def next_id_abort_loop)

lemma finished_below:
  assumes "tm_inv m" and "commitTransaction t now m = (True, m') \<or> abortTransaction t now m = (True, m')"
  shows "t < next_transaction_id m"
  using assms by (auto simp: tm_inv_def tm_tables_def commitTransaction_def abortTransaction_def Let_def
      split: option.splits)

lemma finish_live:
  assumes "commitTransaction t now m = (True, m') \<or> abortTransaction t now m = (True, m')"
  shows "next_transaction_id m' = next_transaction_id m"
    and "isTransactionActive x m' \<longleftrightarrow> x \<noteq> t \<and> isTransactionActive x m"
  using assms next_id_commit [of t now m] active_commit [of x t now m] by auto

lemma live_ok_same:
  "live_ok a \<Longrightarrow> tm a' = tm a \<Longrightarrow> done_txns a' = done_txns a \<Longrightarrow> live_ok a'"
  by (simp add: live_ok_def)

lemma cmd_begin_tm:
  "tm (cmd_begin args a) = tm a \<or>
   (\<exists>now1 now2. tm (cmd_begin args a) = snd (beginTransaction now1 now2 (tm a)))"
proof -
  have "tm (cmd_begin args a) = tm a \<or> tm (cmd_begin args a) =
      snd (beginTransaction (draw (sys_clock a)) (draw (rest (sys_clock a))) (tm a))"
    by (simp add: cmd_begin_def case_prod_beta Let_def println_def log_event_def)
  then show ?thesis by blast
qed

lemma app_step_live: "app_step a a' \<Longrightarrow> live_ok a \<Longrightarrow> tm_inv (tm a) \<Longrightarrow> live_ok a'"
proof (induction rule: app_step.induct)
  case (app_quiet a a')
  then show ?case using live_ok_same [of a a'] by (simp add: same_core_def)
next
  case (app_resource lm a rid p v n rs a')
  have "tm a' = tm a" "lock_mgr a' = lm" using create_record_frame [OF app_resource(2)] by (simp_all add: same_txns_def)
  moreover have "completed_txns lm = done_txns a" using app_resource(1) by (auto simp: lock_obs)
  ultimately show ?case using live_ok_same [of a a'] app_resource by simp
next
  case (app_request t a rid ty)
  then show ?case by (simp add: live_ok_def done_request)
next
  case (app_begin a args)
  consider "tm (cmd_begin args a) = tm a"
    | now1 now2 where "tm (cmd_begin args a) = snd (beginTransaction now1 now2 (tm a))"
    using cmd_begin_tm by blast
  moreover have "done_txns (cmd_begin args a) = done_txns a"
    by (simp add: cmd_begin_def case_prod_beta Let_def println_def log_event_def)
  ultimately show ?case
  proof cases
    case 1
    then show ?thesis
      using live_ok_same [of a] app_begin(2) \<open>done_txns (cmd_begin args a) = done_txns a\<close> by simp
  next
    case (2 now1 now2)
    have "t < next_transaction_id (tm a) + 1 \<and> t \<noteq> next_transaction_id (tm a)"
      if "t < next_transaction_id (tm a)" for t
      using that less_add_one [OF app_begin(1), of t] less_imp_le less_irrefl by metis
    moreover have "isTransactionActive t (tm (cmd_begin args a)) \<longleftrightarrow>
        t = next_transaction_id (tm a) \<or> isTransactionActive t (tm a)" for t
      unfolding 2 by (simp add: beginTransaction_def Let_def isTransactionActive_def transaction_defs)
    moreover have "next_transaction_id (tm (cmd_begin args a)) = next_transaction_id (tm a) + 1"
      unfolding 2 by (simp add: beginTransaction_def Let_def)
    ultimately show ?thesis
      using app_begin(2) \<open>done_txns (cmd_begin args a) = done_txns a\<close> unfolding live_ok_def by metis
  qed
next
  case (app_commit t now a tm')
  have "t < next_transaction_id (tm a)" using finished_below [of "tm a" t now tm'] app_commit by simp
  then show ?case
    using app_commit(2) finish_live [of t now "tm a" tm'] app_commit(1)
    by (simp add: live_ok_def log_event_def done_complete)
next
  case (app_abort t now a tm')
  have "t < next_transaction_id (tm a)" using finished_below [of "tm a" t now tm'] app_abort by simp
  then show ?case
    using app_abort(2) finish_live [of t now "tm a" tm'] app_abort(1)
    by (simp add: live_ok_def log_event_def done_complete)
next
  case (app_recover a a')
  obtain b where b: "lock_mgr a' = lock_mgr (complete_all (getActiveTransactionIds (tm a)) b)"
    "lock_mgr b = lock_mgr a" using recover_lock_mgr [OF app_recover(1)] by blast
  have "t < next_transaction_id (tm a)" if "t \<in> set (getActiveTransactionIds (tm a))" for t
    using that app_recover(3) by (auto simp: getActiveTransactionIds_def in_fmdom_iff tm_inv_def tm_tables_def)
  then show ?case
    using app_recover(2) cmd_recover_tm [OF app_recover(1)] b
    by (auto simp: live_ok_def done_complete_all active_abort_all next_id_abort_all fset_of_list.rep_eq)
qed (simp_all add: live_ok_def log_event_def cmd_checkpoint_def println_def Let_def)

section \<open>The log holds everything the run wrote\<close>

definition run_log :: "App \<Rightarrow> LogRecord list" where
  "run_log a = log_buffer (log_mgr a)"

definition log_ok :: "LogRecord list \<Rightarrow> App \<Rightarrow> bool" where
  "log_ok rs0 a \<longleftrightarrow> log_holds (log_mgr a) (rs0 @ run_log a)"

lemma log_buffer_write [simp]: "log_buffer (writeLog (Some r) m) = log_buffer m @ [r]"
  by (simp add: writeLog_def Let_def put_text_def open_append_def)

lemma log_buffer_write_all [simp]: "log_buffer (write_all rs m) = log_buffer m @ rs"
  by (induction rs arbitrary: m) simp_all

lemma log_buffer_flush [simp]: "log_buffer (flushLogs m) = log_buffer m"
  by (simp add: flushLogs_def flush_stream_def)

text \<open>The records one step appends to the log.\<close>

lemma recover_log:
  assumes "cmd_recover a = Inr a'" and "log_ok rs0 a"
  obtains us where "run_log a' = run_log a @ us" and "\<forall>r\<in>set us. getLogType r = ABORT"
    and "log_ok rs0 a'" and "getTransactionId ` set us = log_incomplete (rs0 @ run_log a)"
    and "readLogs (log_mgr a') = Inr (rs0 @ run_log a')" and "log_disk (log_mgr a') = Some (log_text (rs0 @ run_log a'))"
proof -
  let ?m = "new_RecoveryManager (flushLogs (log_mgr a)) (wall_clock a)"
  obtain rm where rm: "performRecovery ?m = Inr rm" and a': "log_mgr a' = log_manager rm"
    using assms(1) by (auto simp: cmd_recover_def Let_def complete_all_frame println_def split: sum.splits)
  have read: "readLogs (log_manager ?m) = Inr (rs0 @ run_log a)"
    using read_flushed [OF assms(2) [unfolded log_ok_def]] by (simp add: new_RecoveryManager_def)
  then obtain m' where m': "performRecovery ?m = Inr m'"
    and u: "getUndoRecords m' = aborts_of ?m (incomplete_txns m')"
    and i: "fset (incomplete_txns m') = log_incomplete (rs0 @ run_log a)"
    and l: "log_manager m' = (if log_incomplete (rs0 @ run_log a) = {} then log_manager ?m
      else flushLogs (write_all (getUndoRecords m') (log_manager ?m)))"
    by (rule performRecovery_ok)
  have eq: "m' = rm" using rm m' by simp
  have holds: "log_holds (log_manager ?m) (rs0 @ run_log a)"
    using log_holds_flush [OF assms(2) [unfolded log_ok_def]] by (simp add: new_RecoveryManager_def)
  have buf: "log_buffer (log_manager ?m) = run_log a" by (simp add: new_RecoveryManager_def run_log_def)
  have ids: "getTransactionId ` set (getUndoRecords m') = log_incomplete (rs0 @ run_log a)"
    using i u by (metis abort_records_txns list.set_map set_set_elems)
  define us where "us = (if log_incomplete (rs0 @ run_log a) = {} then [] else getUndoRecords m')"
  have "run_log a' = run_log a @ us" using l eq a' buf by (simp add: us_def run_log_def)
  moreover have "\<forall>r\<in>set us. getLogType r = ABORT" using u abort_records_type by (auto simp: us_def)
  moreover have "\<exists>m. log_holds m (rs0 @ run_log a @ us) \<and> log_mgr a' = flushLogs m"
  proof (cases "log_incomplete (rs0 @ run_log a) = {}")
    case True
    then show ?thesis
      using l eq a' assms(2) by (intro exI [of _ "log_mgr a"]) (simp add: us_def log_ok_def new_RecoveryManager_def)
  next
    case False
    then show ?thesis
      using l eq a' text_log.holds_appends [OF holds, of us]
      by (intro exI [of _ "write_all us (log_manager ?m)"]) (simp add: us_def)
  qed
  then obtain m where m: "log_holds m (rs0 @ run_log a @ us)" "log_mgr a' = flushLogs m" by blast
  moreover have "getTransactionId ` set us = log_incomplete (rs0 @ run_log a)"
    using ids by (simp add: us_def)
  moreover have "log_ok rs0 a'" "readLogs (log_mgr a') = Inr (rs0 @ run_log a')"
    "log_disk (log_mgr a') = Some (log_text (rs0 @ run_log a'))"
    using log_holds_flush [OF m(1)] read_flushed [OF m(1)] flushed_disk [OF m(1)] calculation(1)
    by (simp_all add: log_ok_def m(2))
  ultimately show ?thesis using that by blast
qed

lemma log_ok_event: "log_ok rs0 a \<Longrightarrow> log_ok rs0 (log_event t ty a)"
  using log_holds_write by (fastforce simp: log_ok_def run_log_def log_event_def)

lemma log_ok_same: "log_ok rs0 a \<Longrightarrow> log_mgr a' = log_mgr a \<Longrightarrow> log_ok rs0 a'"
  by (simp add: log_ok_def run_log_def)

lemma cmd_begin_log:
  "log_mgr (cmd_begin args a) = log_mgr a \<or> (\<exists>t b. log_mgr (cmd_begin args a) = log_mgr (log_event t BEGIN b) \<and>
     log_mgr b = log_mgr a)"
  by (auto simp: cmd_begin_def case_prod_beta Let_def println_def intro!: exI)

lemma app_step_log: "app_step a a' \<Longrightarrow> log_ok rs0 a \<Longrightarrow> log_ok rs0 a'"
proof (induction rule: app_step.induct)
  case (app_quiet a a')
  then show ?case using log_ok_same by (simp add: same_core_def)
next
  case (app_resource lm a rid p v n rs a')
  then have "log_mgr a' = log_mgr a" using create_record_frame(2) by fastforce
  then show ?case using log_ok_same app_resource(3) by blast
next
  case (app_begin a args)
  then show ?case using cmd_begin_log [of args a] log_ok_same log_ok_event by metis
next
  case (app_commit t now a tm')
  then show ?case by (intro log_ok_event) (rule log_ok_same, simp_all)
next
  case (app_abort t now a tm')
  then show ?case by (intro log_ok_event) (rule log_ok_same, simp_all)
next
  case (app_checkpoint a)
  have "log_ok rs0 (log_event 0 CHECKPOINT a)" by (rule log_ok_event [OF app_checkpoint])
  then show ?case
    using log_holds_flush by (fastforce simp: cmd_checkpoint_def Let_def log_ok_def run_log_def println_def)
next
  case (app_recover a a')
  then show ?case by (meson recover_log)
qed (simp_all add: log_ok_event log_ok_same)

section \<open>The log agrees with the transaction manager\<close>

definition committed_in :: "TransactionManager \<Rightarrow> u32 \<Rightarrow> bool" where
  "committed_in m t \<longleftrightarrow> (\<exists>x. getTransaction t m = Some x \<and> getState x = COMMITTED)"

lemma committed_in_status: "committed_in m t \<longleftrightarrow> map_option txn_state (getTransaction t m) = Some COMMITTED"
  by (auto simp: committed_in_def getState_def)

lemma active_not_committed:
  "tm_inv m \<Longrightarrow> fmlookup (active_transactions m) t = Some x \<Longrightarrow> \<not> committed_in m t"
  by (auto simp: committed_in_def tm_inv_def tm_tables_def getTransaction_cases getState_def)

lemma committed_in_commit:
  assumes "commitTransaction t now m = (True, m')"
  shows "committed_in m' x \<longleftrightarrow> x = t \<or> committed_in m x"
  using assms
  by (auto simp: committed_in_def commitTransaction_def getTransaction_cases Let_def getState_def setState_def
      split: option.splits if_splits)

lemma committed_in_abort:
  assumes "tm_inv m" and "abortTransaction t now m = (True, m')"
  shows "committed_in m' x \<longleftrightarrow> committed_in m x"
proof -
  obtain y where y: "fmlookup (active_transactions m) t = Some y"
    using assms(2) by (auto simp: abortTransaction_def split: option.splits)
  have "committed_in m' x \<longleftrightarrow> x \<noteq> t \<and> committed_in m x"
    using assms(2) y
    by (auto simp: committed_in_def abortTransaction_def getTransaction_cases Let_def getState_def setState_def
        split: option.splits if_splits)
  then show ?thesis using active_not_committed [OF assms(1) y] by blast
qed

lemma committed_in_abort_all:
  assumes "tm_inv m"
  shows "committed_in (abortAllTransactions clk m) x \<longleftrightarrow> committed_in m x"
proof -
  have "\<not> committed_in m x" if "x \<in> set (getActiveTransactionIds m)"
    using that active_not_committed [OF assms] by (auto simp: getActiveTransactionIds_def in_fmdom_iff)
  then show ?thesis
    using abort_loop_status [of "getActiveTransactionIds m" m x clk]
    by (auto simp: committed_in_status abortAllTransactions_def getActiveTransactionIds_def in_fmdom_iff)
qed

lemma committed_in_begin:
  assumes "tm_inv m"
  shows "committed_in (snd (beginTransaction now1 now2 m)) x \<longleftrightarrow> committed_in m x"
proof -
  have "\<not> committed_in m (next_transaction_id m)"
    using known_below_next [OF assms] by (auto simp: committed_in_def)
  then show ?thesis
    by (auto simp: committed_in_def beginTransaction_def getTransaction_cases Let_def transaction_defs
        split: option.splits)
qed

text \<open>
  The run's log has a commit record for exactly the committed transactions, and the log as
  a whole marks every active transaction as incomplete.
\<close>

definition outcomes_ok :: "LogRecord list \<Rightarrow> App \<Rightarrow> bool" where
  "outcomes_ok rs0 a \<longleftrightarrow>
     (\<forall>t. has_record COMMIT t (run_log a) \<longleftrightarrow> committed_in (tm a) t) \<and>
     (\<forall>t. isTransactionActive t (tm a) \<longrightarrow> t \<in> log_incomplete (rs0 @ run_log a))"

lemma outcomes_ok_same:
  "outcomes_ok rs0 a \<Longrightarrow> tm a' = tm a \<Longrightarrow> run_log a' = run_log a \<Longrightarrow> outcomes_ok rs0 a'"
  by (simp add: outcomes_ok_def)

lemma run_log_event [simp]:
  "run_log (log_event t ty a) = run_log a @ [new_LogRecord t ty (draw (wall_clock a))]"
  by (simp add: run_log_def log_event_def)

lemma run_log_same: "log_mgr a' = log_mgr a \<Longrightarrow> run_log a' = run_log a"
  by (simp add: run_log_def)

lemma tm_log_event [simp]: "tm (log_event t ty a) = tm a"
  by (simp add: log_event_def)

lemma outcomes_neutral:
  assumes "outcomes_ok rs0 a" and "ty \<noteq> BEGIN" "ty \<noteq> COMMIT" "ty \<noteq> ABORT"
  shows "outcomes_ok rs0 (log_event t ty a)"
  using assms log_incomplete_snoc [of "rs0 @ run_log a" "new_LogRecord t ty (draw (wall_clock a))"]
  by (cases ty) (simp_all add: outcomes_ok_def)

lemma cmd_begin_cases:
  obtains (message) s where "cmd_begin args a = println s a"
    | (started) s b where "cmd_begin args a = println s (log_event (next_transaction_id (tm a)) BEGIN b)"
      "log_mgr b = log_mgr a" "\<exists>now1 now2. tm b = snd (beginTransaction now1 now2 (tm a))"
proof -
  obtain label args' where nw: "next_word args = (label, args')" by fastforce
  let ?b = "a\<lparr>tm := snd (beginTransaction (draw (sys_clock a)) (draw (rest (sys_clock a))) (tm a)),
    sys_clock := rest (rest (sys_clock a)), txn_ids := fmupd label (next_transaction_id (tm a)) (txn_ids a)\<rparr>"
  show ?thesis
  proof (cases "label = [] \<or> fmlookup (txn_ids a) label \<noteq> None")
    case True
    have "cmd_begin args a = println ''Invalid BEGIN command'' a \<or>
        cmd_begin args a = println (label @ '' already exists'') a"
      using True nw by (auto simp: cmd_begin_def)
    then show ?thesis using message by blast
  next
    case False
    then have "cmd_begin args a = println (label @ '' started'') (log_event (next_transaction_id (tm a)) BEGIN ?b)"
      using nw by (simp add: cmd_begin_def Let_def beginTransaction_def transaction_defs)
    then show ?thesis by (rule started) auto
  qed
qed

lemma outcomes_begin:
  assumes "outcomes_ok rs0 a" and "tm_inv (tm a)" and "tm b = snd (beginTransaction now1 now2 (tm a))"
    and "log_mgr b = log_mgr a"
  shows "outcomes_ok rs0 (log_event (next_transaction_id (tm a)) BEGIN b)"
proof -
  let ?r = "new_LogRecord (next_transaction_id (tm a)) BEGIN (draw (wall_clock b))"
  have act: "isTransactionActive t (tm b) \<Longrightarrow> t = next_transaction_id (tm a) \<or> isTransactionActive t (tm a)" for t
    unfolding assms(3) by (auto simp: beginTransaction_def Let_def isTransactionActive_def transaction_defs
        split: if_splits)
  have log: "run_log b = run_log a" using assms(4) by (rule run_log_same)
  have com: "committed_in (tm b) t \<longleftrightarrow> committed_in (tm a) t" for t
    unfolding assms(3) by (rule committed_in_begin [OF assms(2)])
  have inc: "log_incomplete (rs0 @ run_log a @ [?r]) =
      insert (next_transaction_id (tm a)) (log_incomplete (rs0 @ run_log a))"
    using log_incomplete_snoc [of "rs0 @ run_log a" ?r] by simp
  have "has_record COMMIT t (run_log a @ [?r]) \<longleftrightarrow> committed_in (tm b) t" for t
    using assms(1) com by (simp add: outcomes_ok_def)
  moreover have "t \<in> log_incomplete (rs0 @ run_log a @ [?r])" if "isTransactionActive t (tm b)" for t
    using act [OF that] assms(1) unfolding inc outcomes_ok_def by blast
  ultimately show ?thesis unfolding outcomes_ok_def tm_log_event run_log_event log by blast
qed

text \<open>A step that finishes \<open>t\<close> and logs its outcome.\<close>

lemma outcomes_finish:
  assumes "outcomes_ok rs0 a" and "run_log b = run_log a" and "ty = COMMIT \<or> ty = ABORT"
    and "\<And>x. committed_in (tm b) x \<longleftrightarrow> ty = COMMIT \<and> x = t \<or> committed_in (tm a) x"
    and "\<And>x. isTransactionActive x (tm b) \<longleftrightarrow> x \<noteq> t \<and> isTransactionActive x (tm a)"
  shows "outcomes_ok rs0 (log_event t ty b)"
proof -
  let ?r = "new_LogRecord t ty (draw (wall_clock b))"
  have inc: "log_incomplete (rs0 @ run_log a @ [?r]) = log_incomplete (rs0 @ run_log a) - {t}"
    using log_incomplete_snoc [of "rs0 @ run_log a" ?r] assms(3) by auto
  have "has_record COMMIT x (run_log a @ [?r]) \<longleftrightarrow> committed_in (tm b) x" for x
    using assms(1) unfolding assms(4) by (auto simp: outcomes_ok_def)
  moreover have "x \<in> log_incomplete (rs0 @ run_log a @ [?r])" if "isTransactionActive x (tm b)" for x
    using that assms(1) unfolding inc assms(5) outcomes_ok_def by blast
  ultimately show ?thesis unfolding outcomes_ok_def tm_log_event run_log_event assms(2) by blast
qed

lemma app_step_outcomes:
  "app_step a a' \<Longrightarrow> outcomes_ok rs0 a \<Longrightarrow> tm_inv (tm a) \<Longrightarrow> log_ok rs0 a \<Longrightarrow> outcomes_ok rs0 a'"
proof (induction rule: app_step.induct)
  case (app_quiet a a')
  then show ?case
    by (intro outcomes_ok_same [OF app_quiet(2)] run_log_same) (simp_all add: same_core_def)
next
  case (app_resource lm a rid p v n rs a')
  have "tm a' = tm a" "log_mgr a' = log_mgr a"
    using create_record_frame [OF app_resource(2)] by (simp_all add: same_txns_def)
  then show ?case using outcomes_ok_same [of rs0 a a'] run_log_same app_resource by blast
next
  case (app_log_update t a)
  then show ?case by (intro outcomes_neutral) simp_all
next
  case (app_begin a args)
  show ?case
  proof (cases rule: cmd_begin_cases [of args a])
    case (message s)
    then show ?thesis
      using outcomes_ok_same [OF app_begin(2), of "println s a"] run_log_same [of "println s a" a]
      by (simp add: println_def)
  next
    case (started s b)
    let ?c = "log_event (next_transaction_id (tm a)) BEGIN b"
    have "outcomes_ok rs0 ?c" using outcomes_begin [OF app_begin(2,3)] started(2,3) by blast
    then show ?thesis
      using outcomes_ok_same [of rs0 ?c "println s ?c"] run_log_same [of "println s ?c" ?c] started(1)
      by (simp add: println_def)
  qed
next
  case (app_commit t now a tm')
  show ?case
  proof (rule outcomes_finish [OF app_commit(2)])
    show "run_log (a\<lparr>tm := tm', lock_mgr := snd (completeTransaction t (lock_mgr a))\<rparr>) = run_log a"
      by (rule run_log_same) simp
  qed (use committed_in_commit [OF app_commit(1)] finish_live(2) [OF disjI1 [OF app_commit(1)]] in simp_all)
next
  case (app_abort t now a tm')
  show ?case
  proof (rule outcomes_finish [OF app_abort(2)])
    show "run_log (a\<lparr>tm := tm', lock_mgr := snd (completeTransaction t (lock_mgr a))\<rparr>) = run_log a"
      by (rule run_log_same) simp
  qed (use committed_in_abort [OF app_abort(3,1)] finish_live(2) [OF disjI2 [OF app_abort(1)]] in simp_all)
next
  case (app_checkpoint a)
  have "outcomes_ok rs0 (log_event 0 CHECKPOINT a)" using app_checkpoint(1) by (rule outcomes_neutral) simp_all
  then show ?case
    by (rule outcomes_ok_same) (simp_all add: cmd_checkpoint_def Let_def run_log_def println_def)
next
  case (app_recover a a')
  obtain us where us: "run_log a' = run_log a @ us" "\<forall>r\<in>set us. getLogType r = ABORT"
    by (rule recover_log [OF app_recover(1,4)])
  have com: "has_record COMMIT t (run_log a @ us) \<longleftrightarrow> has_record COMMIT t (run_log a)" for t
    using us(2) by (auto simp: has_record_def)
  have t: "tm a' = abortAllTransactions (sys_clock a) (tm a)" by (rule cmd_recover_tm [OF app_recover(1)])
  show ?case
    using app_recover(2)
    unfolding outcomes_ok_def us(1) com t committed_in_abort_all [OF app_recover(3)] by (simp add: active_abort_all)
next
  case (app_request t a rid ty)
  show ?case using app_request(2) by (rule outcomes_ok_same) (simp_all add: run_log_def)
next
  case (app_update t a rid v now b ds)
  show ?case using app_update(4) by (rule outcomes_ok_same) (simp_all add: run_log_def)
qed

end
