(* ===== verification/AppInv.thy ===== *)
theory AppInv
  imports AppProps
begin

text \<open>
  The invariant of the running program holds at the start and is kept by every step, and
  a lock once held stays held until its transaction is finished: the interpretations of
  the prelude's safety and stability interfaces on the program's steps.
\<close>

section \<open>The invariant of the program\<close>

definition app_inv :: "LogRecord list \<Rightarrow> App \<Rightarrow> bool" where
  "app_inv rs0 a \<longleftrightarrow> tm_inv (tm a) \<and> lm_inv (lock_mgr a) \<and> int_store (data_store a) \<and>
     live_ok a \<and> log_ok rs0 a \<and> outcomes_ok rs0 a"

text \<open>The log file is absent, or what earlier runs left, and it can be opened.\<close>

definition good_start :: "LogRecord list \<Rightarrow> Environment \<Rightarrow> bool" where
  "good_start rs0 env \<longleftrightarrow> env_opens env 0 \<and>
     (env_disk env = Some (log_text rs0) \<or> env_disk env = None \<and> rs0 = [])"

lemma app_inv_start:
  assumes "good_start rs0 env"
  shows "app_inv rs0 (printHelp (start_app env))"
proof -
  let ?a = "printHelp (start_app env)"
  have core: "tm ?a = new_TransactionManager" "lock_mgr ?a = new_LockManager (env_alloc env)"
    "data_store ?a = new_DataStore" "log_mgr ?a = new_LogManager (env_disk env) (env_opens env) (env_spill env)"
    by (simp_all add: printHelp_def println_def start_app_def)
  have "run_log ?a = []" by (simp add: run_log_def core new_LogManager_def open_append_def)
  moreover have "done_txns ?a = {||}" unfolding core by (simp add: new_LockManager_def)
  moreover have "lm_inv (lock_mgr ?a)" unfolding core by (rule lm_inv_new)
  moreover have "log_holds (log_mgr ?a) rs0"
    unfolding core using assms by (intro log_holds_new) (auto simp: good_start_def)
  ultimately show ?thesis
    by (simp add: app_inv_def core(1,3) log_ok_def outcomes_ok_def live_ok_def int_store_def new_DataStore_def
        txn_mgr.inv_init isTransactionActive_def new_TransactionManager_def
        committed_in_def getTransaction_def)
qed

interpretation program: safety
    "\<lambda>a. \<exists>env. good_start rs0 env \<and> a = printHelp (start_app env)" app_step "app_inv rs0" for rs0
proof
  show "app_inv rs0 a" if "\<exists>env. good_start rs0 env \<and> a = printHelp (start_app env)" for a
    using that app_inv_start by blast
  fix a a'
  assume inv: "app_inv rs0 a" and step: "app_step a a'"
  have "tm_inv (tm a')"
    using app_step_tm [OF step] inv txn_mgr.inv_step by (auto simp: app_inv_def)
  moreover have "lm_inv (lock_mgr a')"
    using lock_mgr.steps_inv [OF app_step_locks [OF step]] inv by (simp add: app_inv_def)
  ultimately show "app_inv rs0 a'"
    using inv app_step_store [OF step] app_step_live [OF step] app_step_log [OF step]
      app_step_outcomes [OF step] by (simp add: app_inv_def)
qed

text \<open>Locks of transactions that have not finished are kept by every step of the lock manager.\<close>

lemma lm_step_completed: "lm_step lm lm' \<Longrightarrow> t |\<in>| completed_txns lm \<Longrightarrow> t |\<in>| completed_txns lm'"
  using lm_step_exec lock_table.finished_exec by metis

text \<open>Holding a lock is stable up to completion, at the lock manager and in the program.\<close>

lemma lm_step_writer:
  assumes "lm_step lm lm'" and "t |\<in>| completed_txns lm \<or> holds_lock lm t rid EXCLUSIVE"
  shows "t |\<in>| completed_txns lm' \<or> holds_lock lm' t rid EXCLUSIVE"
  using assms lm_step_exec lock_table.finished_exec lock_exec_keeps(1) by metis

lemma lm_step_holder:
  assumes "lm_step lm lm'" and "t |\<in>| completed_txns lm \<or> hasLock t rid lm"
  shows "t |\<in>| completed_txns lm' \<or> hasLock t rid lm'"
  using assms lm_step_exec lock_table.finished_exec lock_exec_keeps(2) by metis

lemma app_step_writer:
  assumes "app_step a a'" and "t |\<in>| done_txns a \<or> holds_lock (lock_mgr a) t rid EXCLUSIVE"
  shows "t |\<in>| done_txns a' \<or> holds_lock (lock_mgr a') t rid EXCLUSIVE"
  using app_step_locks [OF assms(1)] assms(2)
  by (induction rule: rtranclp_induct) (auto dest: lm_step_writer)

lemma app_step_holder:
  assumes "app_step a a'" and "t |\<in>| done_txns a \<or> hasLock t rid (lock_mgr a)"
  shows "t |\<in>| done_txns a' \<or> hasLock t rid (lock_mgr a')"
  using app_step_locks [OF assms(1)] assms(2)
  by (induction rule: rtranclp_induct) (auto dest: lm_step_holder)

interpretation writer: stability
    "\<lambda>a. \<exists>env. good_start rs0 env \<and> a = printHelp (start_app env)" app_step "app_inv rs0"
    "\<lambda>a. t |\<in>| done_txns a \<or> holds_lock (lock_mgr a) t rid EXCLUSIVE" for rs0 t rid
  by unfold_locales (rule app_step_writer)

interpretation holder: stability
    "\<lambda>a. \<exists>env. good_start rs0 env \<and> a = printHelp (start_app env)" app_step "app_inv rs0"
    "\<lambda>a. t |\<in>| done_txns a \<or> hasLock t rid (lock_mgr a)" for rs0 t rid
  by unfold_locales (rule app_step_holder)

end
