(* ===== verification/AppTotal.thy ===== *)
theory AppTotal
  imports AppInv
begin

text \<open>
  No command throws: while the store holds printed numbers every command but RECOVER
  returns, and RECOVER does when the log is well formed. The retry of waiting commands
  ends, so a run of the whole program returns.
\<close>

section \<open>No exceptions\<close>

text \<open>
  Progress: while the store holds printed numbers, no command other than RECOVER can throw;
  RECOVER cannot when the log is well formed.
\<close>

definition succeeds :: "exn + 'a \<Rightarrow> bool" where
  "succeeds r \<longleftrightarrow> (\<exists>x. r = Inr x)"

lemma succeeds_simps [simp]: "succeeds (Inr x)" "\<not> succeeds (Inl e)"
  by (simp_all add: succeeds_def)

lemma steps_store: "app_steps a a' \<Longrightarrow> int_store (data_store a) \<Longrightarrow> int_store (data_store a')"
  by (induction rule: rtranclp_induct) (auto intro: app_step_store)

lemma create_record_total: "succeeds (create_record rid v a)"
  by (simp add: create_record_def Let_def setData_int)

lemma new_resource_total: "\<exists>b. new_resource path last_id a = Inr (next_resource_id a, b)"
proof -
  obtain b where "create_record (next_resource_id a) (if path = ''A'' then 10 else 0)
      (if last_id \<noteq> 0 then a\<lparr>next_resource_id := next_resource_id a + 1,
          resource_ids := fmupd path (next_resource_id a) (resource_ids a),
          lock_mgr := setResourceParent (next_resource_id a) last_id (lock_mgr a)\<rparr>
       else a\<lparr>next_resource_id := next_resource_id a + 1,
          resource_ids := fmupd path (next_resource_id a) (resource_ids a)\<rparr>) = Inr b"
    using create_record_total unfolding succeeds_def by blast
  then show ?thesis by (auto simp: new_resource_def Let_def split: if_splits)
qed

lemma ensure_loop_total: "succeeds (ensure_loop segs path last_id a)"
proof (induction segs arbitrary: path last_id a)
  case (Cons seg segs)
  define p where "p = (if path = [] then seg else path @ ''.'' @ seg)"
  obtain b where b: "new_resource p last_id a = Inr (next_resource_id a, b)" using new_resource_total by blast
  show ?case
    using Cons [of p] Cons [of path] b unfolding ensure_loop.simps p_def [symmetric] Let_def
    by (simp split: option.split)
qed simp

lemma obtain_succeeds:
  assumes "succeeds r"
  obtains x where "r = Inr x"
  using assms by (auto simp: succeeds_def)

lemma ensureResource_total: "succeeds (ensureResource name a)"
proof -
  obtain p where "ensure_loop (getlines (CHR ''.'') name) [] 0 a = Inr p"
    using ensure_loop_total by (rule obtain_succeeds)
  moreover obtain last_id b where "p = (last_id, b)" by fastforce
  moreover obtain c where "create_record (next_resource_id b) 0 (b\<lparr>next_resource_id := next_resource_id b + 1,
      resource_ids := fmupd name (next_resource_id b) (resource_ids b)\<rparr>) = Inr c"
    using create_record_total by (rule obtain_succeeds)
  ultimately show ?thesis by (simp add: ensureResource_def Let_def)
qed

lemma ensureResource_obtain:
  obtains rid b where "ensureResource name a = Inr (rid, b)"
  using ensureResource_total [of name a] by (auto simp: succeeds_def)

lemma stored_value_total:
  assumes "int_store (data_store a)"
  shows "succeeds (stored_value rid a)"
proof (cases "getRecord rid (data_store a)")
  case (Some r)
  then have "getData r \<in> range intToBytes" using assms by (simp add: int_store_def getRecord_def split: option.splits)
  then obtain v where "getData r = intToBytes v" by (elim rangeE)
  then show ?thesis using Some by (simp add: stored_value_def bytesToInt_intToBytes)
qed (simp add: stored_value_def)

lemma updateRecord_total: "succeeds (updateRecord rid (intToBytes v) now ds)"
  by (simp add: updateRecord_def setData_int split: option.split)

lemma execute_read_total:
  assumes "int_store (data_store a)"
  shows "succeeds (execute_read t cmd fp a)"
proof -
  obtain rid b where b: "ensureResource (resource_name cmd) a = Inr (rid, b)" by (rule ensureResource_obtain)
  obtain g lm where g: "requestLock t rid SHARED (lock_mgr b) = (g, lm)" by fastforce
  have "int_store (data_store b)" using steps_store ensureResource_steps [OF b] assms by blast
  then have "succeeds (stored_value rid (hold_resource t rid (b\<lparr>lock_mgr := lm\<rparr>)))"
    by (intro stored_value_total) (simp add: hold_resource_def)
  then obtain v where "stored_value rid (hold_resource t rid (b\<lparr>lock_mgr := lm\<rparr>)) = Inr v" by (rule obtain_succeeds)
  then show ?thesis using b g by (simp add: execute_read_def Let_def)
qed

lemma execute_write_total: "succeeds (execute_write t cmd fp a)"
proof -
  obtain rid b where b: "ensureResource (resource_name cmd) a = Inr (rid, b)" by (rule ensureResource_obtain)
  obtain g lm where g: "requestLock t rid EXCLUSIVE (lock_mgr b) = (g, lm)" by fastforce
  define c where "c = hold_resource t rid (b\<lparr>lock_mgr := lm\<rparr>)"
  obtain p where "updateRecord rid (intToBytes (cmd_value cmd)) (draw (sys_clock c)) (data_store c) = Inr p"
    using updateRecord_total by (rule obtain_succeeds)
  moreover obtain u ds where "p = (u, ds)" by fastforce
  ultimately show ?thesis using b g by (simp add: execute_write_def c_def Let_def)
qed

lemma executeCommand_total: "int_store (data_store a) \<Longrightarrow> succeeds (executeCommand cmd fp a)"
  by (simp add: executeCommand_def execute_read_total execute_write_total split: option.split)

lemma announce_total: "succeeds (announce cmd t resumed a)"
proof -
  obtain rid b where "ensureResource (resource_name cmd) a = Inr (rid, b)" by (rule ensureResource_obtain)
  then show ?thesis by (simp add: announce_def)
qed

lemma pending_pass_total:
  "int_store (data_store a) \<Longrightarrow> succeeds (pending_pass cmds kept resumed mp a)"
proof (induction cmds arbitrary: kept resumed mp a)
  case (Cons cmd cmds)
  show ?case
  proof (cases "\<exists>t. fmlookup (txn_ids a) (txn_label cmd) = Some t \<and> isTransactionActive t (tm a)")
    case False
    then show ?thesis using Cons by (auto split: option.split)
  next
    case True
    then obtain t where t: "fmlookup (txn_ids a) (txn_label cmd) = Some t" "isTransactionActive t (tm a)" by blast
    obtain p1 where p1: "announce cmd t resumed a = Inr p1" using announce_total by (rule obtain_succeeds)
    obtain res1 a1 where p1': "p1 = (res1, a1)" by fastforce
    have i1: "int_store (data_store a1)"
      using steps_store announce_steps [OF p1 [unfolded p1']] Cons.prems by blast
    obtain p2 where p2: "executeCommand cmd True a1 = Inr p2"
      using executeCommand_total [OF i1] by (rule obtain_succeeds)
    obtain ex a2 where p2': "p2 = (ex, a2)" by fastforce
    have "int_store (data_store a2)"
      using steps_store executeCommand_steps [OF p2 [unfolded p2']] i1 by blast
    then show ?thesis using Cons.IH t p1 p1' p2 p2' by simp
  qed
qed simp

lemma process_loop_total: "int_store (data_store a) \<Longrightarrow> succeeds (process_loop resumed a)"
proof (induction resumed a rule: process_loop.induct)
  case (1 resumed a)
  obtain p where p: "pending_pass (pending a) [] resumed False a = Inr p"
    using pending_pass_total [OF 1(2)] by (rule obtain_succeeds)
  obtain kept res1 mp a1 where p': "p = (kept, res1, mp, a1)" by (metis prod_cases4)
  have "int_store (data_store a1)"
    using steps_store pending_pass_steps [OF p [unfolded p']] 1(2) by blast
  then have "int_store (data_store (a1\<lparr>pending := kept\<rparr>))" by simp
  then show ?case
    using 1(1) [OF p [unfolded p'] refl refl refl refl] p p' by (subst process_loop.simps) (simp add: Let_def)
qed

text \<open>The commands.\<close>

lemma submit_total:
  assumes "int_store (data_store a)"
  shows "succeeds (submit cmd a)"
proof -
  obtain b a1 where "executeCommand cmd False a = Inr (b, a1)"
    using executeCommand_total [OF assms, of cmd False] by (auto simp: succeeds_def)
  then show ?thesis by (simp add: submit_def)
qed

lemma finish_total: "int_store (data_store a) \<Longrightarrow> succeeds (finish label t ty msg a)"
  unfolding finish_def processPending_def Let_def
  by (rule process_loop_total) (simp add: println_def log_event_def)

lemma cmd_read_total: "int_store (data_store a) \<Longrightarrow> succeeds (cmd_read args a)"
  by (simp add: cmd_read_def case_prod_beta submit_total)

lemma cmd_write_total: "int_store (data_store a) \<Longrightarrow> succeeds (cmd_write args a)"
  by (simp add: cmd_write_def case_prod_beta submit_total)

lemma cmd_commit_total: "int_store (data_store a) \<Longrightarrow> succeeds (cmd_commit args a)"
  by (simp add: cmd_commit_def case_prod_beta finish_total split: option.split prod.split bool.split)

lemma cmd_abort_total: "int_store (data_store a) \<Longrightarrow> succeeds (cmd_abort args a)"
  by (simp add: cmd_abort_def case_prod_beta finish_total split: option.split prod.split bool.split)

lemma cmd_show_total:
  assumes "int_store (data_store a)"
  shows "succeeds (cmd_show args a)"
proof -
  obtain rid b where b: "ensureResource (fst (next_word args)) a = Inr (rid, b)" by (rule ensureResource_obtain)
  have "int_store (data_store b)" using steps_store ensureResource_steps [OF b] assms by blast
  then obtain v where "stored_value rid b = Inr v" using stored_value_total obtain_succeeds by metis
  then show ?thesis using b by (simp add: cmd_show_def case_prod_beta)
qed

lemma cmd_recover_total:
  assumes "log_ok rs0 a"
  shows "succeeds (cmd_recover a)"
proof -
  let ?a1 = "a\<lparr>tm := abortAllTransactions (sys_clock a) (tm a),
    sys_clock := (rest ^^ length (getActiveTransactionIds (tm a))) (sys_clock a)\<rparr>"
  let ?m = "new_RecoveryManager (flushLogs (log_mgr a)) (wall_clock a)"
  have "readLogs (log_manager ?m) = Inr (rs0 @ run_log a)"
    using read_flushed [OF assms [unfolded log_ok_def]] by (simp add: new_RecoveryManager_def)
  then obtain m' where "performRecovery ?m = Inr m'" by (rule performRecovery_ok)
  then show ?thesis by (simp add: cmd_recover_def Let_def complete_all_frame)
qed

lemma succeeds_map_sum [simp]: "succeeds (map_sum f g x) = succeeds x"
  by (cases x) simp_all

lemma process_line_total:
  assumes "int_store (data_store a)" and "log_ok rs0 a"
  shows "succeeds (process_line line a)"
  using assms
  by (simp add: process_line_def Let_def case_prod_beta cmd_read_total cmd_write_total cmd_commit_total
      cmd_abort_total cmd_show_total cmd_recover_total)

lemma command_loop_total:
  "app_inv rs0 a \<Longrightarrow> unat (next_transaction_id (tm a)) + length lines < 2 ^ 32 \<Longrightarrow>
     succeeds (command_loop lines a)"
proof (induction lines arbitrary: a)
  case (Cons line lines)
  have n: "next_transaction_id (tm a) \<noteq> -1" by (rule room_not_max) (use Cons.prems(2) in simp)
  obtain go a1 where a1: "process_line line a = Inr (go, a1)"
    using process_line_total [of a rs0 line] Cons.prems(1) by (auto simp: succeeds_def app_inv_def)
  have "app_inv rs0 a1"
    using program.steps_inv [OF process_line_steps [OF a1 n] Cons.prems(1)] .
  moreover have "unat (next_transaction_id (tm a1)) \<le> Suc (unat (next_transaction_id (tm a)))"
    using process_line_next [OF a1] unat_add_one [OF n] by auto
  ultimately have "succeeds (command_loop lines a1)" using Cons by simp
  then show ?case using a1 by simp
qed simp

text \<open>What a run of the program reaches, and that it reaches it.\<close>

lemma start_next: "unat (next_transaction_id (tm (printHelp (start_app env)))) = 1"
  by (simp add: printHelp_def println_def start_app_def new_TransactionManager_def INITIAL_TXN_ID_def)

lemma run_returns:
  assumes "good_start rs0 env" and "length lines + 1 < 2 ^ 32"
  obtains a where "command_loop lines (printHelp (start_app env)) = Inr a"
    and "app_steps (printHelp (start_app env)) a" and "app_inv rs0 a"
proof -
  let ?a = "printHelp (start_app env)"
  have room: "unat (next_transaction_id (tm ?a)) + length lines < 2 ^ 32" using assms(2) start_next [of env] by simp
  have inv: "app_inv rs0 ?a" using assms(1) by (rule app_inv_start)
  obtain a where a: "command_loop lines ?a = Inr a"
    using command_loop_total [OF inv room] by (rule obtain_succeeds)
  have steps: "app_steps ?a a" using a room by (rule command_loop_steps)
  show ?thesis using that [OF a steps program.steps_inv [OF steps inv]] .
qed

end
