(* ===== verification/AppClaims.thy ===== *)
theory AppClaims
  imports AppTotal
begin

text \<open>
  The properties of the whole program over every input and every environment: it returns,
  its log is durable and agrees with the transaction manager, a locked resource is isolated
  and read repeatably, recovery leaves a clean state, and the retry of waiting commands.
\<close>

section \<open>Reachable states\<close>

abbreviation reachable :: "LogRecord list \<Rightarrow> App \<Rightarrow> bool" where
  "reachable rs0 \<equiv> reach (\<lambda>a. \<exists>env. good_start rs0 env \<and> a = printHelp (start_app env)) app_step"

lemma start_reachable: "good_start rs0 env \<Longrightarrow> reachable rs0 (printHelp (start_app env))"
  by (rule reach_init) blast

text \<open>An environment whose oracles are constant, and what a run prints in it.\<close>

definition quiet_env :: "string option \<Rightarrow> Environment" where
  "quiet_env disk = \<lparr>env_disk = disk, env_opens = \<lambda>_. True, env_spill = \<lambda>_. 0, env_alloc = \<lambda>_. 0,
     env_sys_clock = \<lambda>_. 0, env_wall_clock = \<lambda>_. 0\<rparr>"

lemma good_quiet_env: "good_start rs0 (quiet_env (Some (log_text rs0)))" "good_start [] (quiet_env None)"
  by (simp_all add: good_start_def quiet_env_def)

definition after_lines :: "string list \<Rightarrow> (App \<Rightarrow> bool) \<Rightarrow> bool" where
  "after_lines lines P =
     (case command_loop lines (printHelp (start_app (quiet_env None))) of Inl _ \<Rightarrow> False | Inr a \<Rightarrow> P a)"

lemma after_lines_reachable:
  assumes "after_lines lines P" and "length lines + 1 < 2 ^ 32"
  obtains a where "reachable [] a" and "P a"
proof -
  obtain a where a: "command_loop lines (printHelp (start_app (quiet_env None))) = Inr a"
    and steps: "app_steps (printHelp (start_app (quiet_env None))) a"
    using run_returns [OF good_quiet_env(2) assms(2)] .
  have "reachable [] a" using program.steps_reach [OF steps start_reachable [OF good_quiet_env(2)]] .
  moreover have "P a" using assms(1) a by (simp add: after_lines_def)
  ultimately show ?thesis by (rule that)
qed

section \<open>Existing records\<close>

text \<open>Creating resources overwrites no record.\<close>

definition keeps_records :: "App \<Rightarrow> App \<Rightarrow> bool" where
  "keeps_records a a' \<longleftrightarrow>
     (\<forall>r x. getRecord r (data_store a) = Some x \<longrightarrow> getRecord r (data_store a') = Some x) \<and>
     log_mgr a' = log_mgr a"

lemma keeps_records_refl [simp]: "keeps_records a a"
  by (simp add: keeps_records_def)

lemma keeps_records_trans: "keeps_records a b \<Longrightarrow> keeps_records b c \<Longrightarrow> keeps_records a c"
  by (simp add: keeps_records_def)

lemma create_record_keeps:
  "create_record rid v a = Inr a' \<Longrightarrow> keeps_records a a'"
  by (auto simp: create_record_def keeps_records_def Let_def insertRecord_def getRecord_def
      split: sum.splits option.splits if_splits)

lemma keeps_records_same [simp]:
  "keeps_records (a\<lparr>next_resource_id := n\<rparr>) b = keeps_records a b"
  "keeps_records (a\<lparr>resource_ids := rs\<rparr>) b = keeps_records a b"
  "keeps_records (a\<lparr>lock_mgr := lm\<rparr>) b = keeps_records a b"
  "keeps_records a (b\<lparr>lock_mgr := lm\<rparr>) = keeps_records a b"
  "keeps_records a (waiting_message cmd fp b) = keeps_records a b"
  by (simp_all add: keeps_records_def waiting_message_def println_def)

lemma new_resource_keeps: "new_resource path last_id a = Inr (rid, a') \<Longrightarrow> keeps_records a a'"
  by (auto simp: new_resource_def Let_def dest!: create_record_keeps split: sum.splits if_splits)

lemma ensure_loop_keeps: "ensure_loop segs path last_id a = Inr (rid, a') \<Longrightarrow> keeps_records a a'"
proof (induction segs arbitrary: path last_id a)
  case (Cons seg segs)
  then show ?case
    by (auto simp: Let_def split: if_splits option.splits sum.splits)
      (blast intro: keeps_records_trans new_resource_keeps)+
qed simp

lemma ensureResource_keeps: "ensureResource name a = Inr (rid, a') \<Longrightarrow> keeps_records a a'"
  by (auto simp: ensureResource_def Let_def dest!: ensure_loop_keeps create_record_keeps
      split: sum.splits if_splits) (blast intro: keeps_records_trans)

text \<open>A command whose lock is refused is not executed and changes no record.\<close>

lemma execute_refused:
  assumes "ensureResource (resource_name cmd) a = Inr (rid, b)"
  shows "\<not> fst (requestLock t rid SHARED (lock_mgr b)) \<Longrightarrow> execute_read t cmd fp a = Inr (executed, a') \<Longrightarrow>
      \<not> executed \<and> keeps_records a a'"
    and "\<not> fst (requestLock t rid EXCLUSIVE (lock_mgr b)) \<Longrightarrow> execute_write t cmd fp a = Inr (executed, a') \<Longrightarrow>
      \<not> executed \<and> keeps_records a a'"
  using assms ensureResource_keeps [OF assms]
  by (auto simp: execute_read_def execute_write_def case_prod_beta simp flip: surjective_pairing)

lemma executeCommand_cases:
  assumes "executeCommand cmd fp a = Inr (executed, a')" and "fmlookup (txn_ids a) (txn_label cmd) = Some t"
  shows "\<not> executed \<and> a' = a \<or>
    cmd_op cmd \<noteq> ''WRITE'' \<and> execute_read t cmd fp a = Inr (executed, a') \<or>
    execute_write t cmd fp a = Inr (executed, a')"
proof -
  have branches: "\<not> executed \<and> a' = a \<or> \<not> w \<and> x = Inr (executed, a') \<or> y = Inr (executed, a')"
    if "(if p then Inr (False, a) else if r then x else if w then y else Inr (False, a)) = Inr (executed, a')"
      "r \<Longrightarrow> \<not> w" for p r w and x y :: "exn + bool \<times> App"
    using that by (auto split: if_splits)
  have "''READ'' \<noteq> ''WRITE''" by simp
  then have "cmd_op cmd = ''READ'' \<Longrightarrow> cmd_op cmd \<noteq> ''WRITE''" by metis
  then show ?thesis
    by (rule branches [OF assms(1) [unfolded executeCommand_def assms(2) option.case], rotated])
qed

lemma executeCommand_refused:
  assumes "executeCommand cmd fp a = Inr (executed, a')"
    and "fmlookup (txn_ids a) (txn_label cmd) = Some t"
    and "ensureResource (resource_name cmd) a = Inr (rid, b)"
    and "\<not> fst (requestLock t rid EXCLUSIVE (lock_mgr b))"
    and "cmd_op cmd \<noteq> ''WRITE'' \<Longrightarrow> \<not> fst (requestLock t rid SHARED (lock_mgr b))"
  shows "\<not> executed \<and> keeps_records a a'"
proof -
  consider "\<not> executed" "a' = a" | "cmd_op cmd \<noteq> ''WRITE''" "execute_read t cmd fp a = Inr (executed, a')"
    | "execute_write t cmd fp a = Inr (executed, a')"
    using executeCommand_cases [OF assms(1,2)] by blast
  then show ?thesis
  proof cases
    case 2
    then show ?thesis using execute_refused(1) [OF assms(3) assms(5)] by blast
  next
    case 3
    then show ?thesis using execute_refused(2) [OF assms(3,4)] by blast
  qed simp
qed

section \<open>Isolation\<close>

text \<open>A lock held by a transaction that is still active was kept all the time.\<close>

lemma active_not_done: "app_inv rs0 a \<Longrightarrow> isTransactionActive t (tm a) \<Longrightarrow> t |\<notin>| done_txns a"
  by (auto simp: app_inv_def live_ok_def)

lemma reachable_inv: "reachable rs0 a \<Longrightarrow> app_inv rs0 a"
  by (rule program.reach_inv)

lemma lock_kept:
  assumes "reachable rs0 a" and "app_steps a a'" and "t |\<notin>| done_txns a'"
  shows "holds_lock (lock_mgr a) t rid EXCLUSIVE \<Longrightarrow> holds_lock (lock_mgr a') t rid EXCLUSIVE"
    and "hasLock t rid (lock_mgr a) \<Longrightarrow> hasLock t rid (lock_mgr a')"
  using writer.stable_reach [OF assms(1,2), of t rid] holder.stable_reach [OF assms(1,2), of t rid] assms(3)
  by blast+

lemma holder_refuses_writers:
  assumes "lm_inv lm" and "hasLock t rid lm" and "t' \<noteq> t"
  shows "\<not> fst (requestLock t' rid EXCLUSIVE lm)"
  using lock_table.holder_blocks_writers [of lm t rid _ "[]" t'] assms
  by (auto simp: hasLock_holds lock_table.keeping_def)

text \<open>
  C3: isolation. When a transaction has obtained an EXCLUSIVE lock on a resource in a
  reachable state then, after any further steps of the program in which it stays active, a
  READ or WRITE of that resource by another transaction is not executed, changes no record
  and logs nothing, whether it is tried for the first time or as a waiting command; when it
  has obtained any lock, a WRITE is not.
\<close>
theorem locked_resource_isolated:
  assumes "reachable rs0 a" and "app_steps a a'" and "isTransactionActive t (tm a')"
    and "holds_lock (lock_mgr a) t rid EXCLUSIVE \<or> hasLock t rid (lock_mgr a) \<and> cmd_op cmd = ''WRITE''"
    and "fmlookup (txn_ids a') (txn_label cmd) = Some t'" and "t' \<noteq> t"
    and "ensureResource (resource_name cmd) a' = Inr (rid, b)"
    and "executeCommand cmd from_pending a' = Inr (executed, a'')"
  shows "\<not> executed \<and> run_log a'' = run_log a' \<and>
    (\<forall>r x. getRecord r (data_store a') = Some x \<longrightarrow> getRecord r (data_store a'') = Some x)"
proof -
  have steps: "app_steps a b" and act: "isTransactionActive t (tm b)"
    using assms(2,3) ensureResource_steps [OF assms(7)] rtranclp_trans by (auto simp: same_txns_def)
  have inv: "app_inv rs0 b" by (rule reachable_inv [OF program.steps_reach [OF steps assms(1)]])
  note kept = lock_kept [OF assms(1) steps active_not_done [OF inv act], of rid]
  have lm: "lm_inv (lock_mgr b)" using inv by (simp add: app_inv_def)
  have "hasLock t rid (lock_mgr b)" using assms(4) kept hasLock_holds by blast
  then have "\<not> fst (requestLock t' rid EXCLUSIVE (lock_mgr b))"
    by (rule holder_refuses_writers [OF lm _ assms(6)])
  moreover have "\<not> fst (requestLock t' rid SHARED (lock_mgr b))" if "cmd_op cmd \<noteq> ''WRITE''"
    using that assms(4) kept(1) lock_table.writer_refuses_others [OF lm _ assms(6)] by fastforce
  ultimately have "\<not> executed \<and> keeps_records a' a''"
    by (rule executeCommand_refused [OF assms(8,5,7)])
  then show ?thesis by (simp add: keeps_records_def run_log_def)
qed

theorem locked_resource_isolated_witness:
  "\<exists>a executed a''. reachable [] a \<and> holds_lock (lock_mgr a) 1 1 EXCLUSIVE \<and>
     executeCommand \<lparr>cmd_op = ''READ'', txn_label = ''T2'', resource_name = ''A'', cmd_value = 0\<rparr> False a =
       Inr (executed, a'') \<and> \<not> executed \<and> run_log a'' = run_log a"
proof -
  let ?cmd = "\<lparr>cmd_op = ''READ'', txn_label = ''T2'', resource_name = ''A'', cmd_value = 0\<rparr>"
  have "after_lines [''BEGIN T1'', ''WRITE T1 A 50'', ''BEGIN T2''] (\<lambda>a. isTransactionActive 1 (tm a) \<and>
      holds_lock (lock_mgr a) 1 1 EXCLUSIVE \<and> fmlookup (txn_ids a) ''T2'' = Some 2 \<and>
      map_sum id fst (ensureResource ''A'' a) = Inr 1 \<and> map_sum id fst (executeCommand ?cmd False a) = Inr False)"
    by code_simp
  then obtain a where a: "reachable [] a" and at: "isTransactionActive 1 (tm a) \<and>
      holds_lock (lock_mgr a) 1 1 EXCLUSIVE \<and> fmlookup (txn_ids a) ''T2'' = Some 2 \<and>
      map_sum id fst (ensureResource ''A'' a) = Inr 1 \<and> map_sum id fst (executeCommand ?cmd False a) = Inr False"
    by (rule after_lines_reachable) simp
  obtain b where b: "ensureResource (resource_name ?cmd) a = Inr (1, b)"
    using at by (cases "ensureResource ''A'' a") auto
  obtain a'' where e: "executeCommand ?cmd False a = Inr (False, a'')"
    using at by (cases "executeCommand ?cmd False a") auto
  have l: "fmlookup (txn_ids a) (txn_label ?cmd) = Some 2" using at by simp
  have act: "isTransactionActive 1 (tm a)" and h: "holds_lock (lock_mgr a) 1 1 EXCLUSIVE" using at by blast+
  have "(2::u32) \<noteq> 1" by simp
  note locked_resource_isolated [OF a rtranclp.rtrancl_refl act disjI1 [OF h] l this b e]
  then show ?thesis using a h e by blast
qed

text \<open>One step changes a record only if a transaction that holds it exclusively writes it.\<close>

lemma step_changes_record:
  assumes "app_step a a'" and "getRecord rid (data_store a) = Some x"
  shows "getRecord rid (data_store a') = Some x \<or>
    (\<exists>t. isTransactionActive t (tm a) \<and> holds_lock (lock_mgr a) t rid EXCLUSIVE)"
  using assms
proof (induction rule: app_step.induct)
  case (app_quiet a a')
  then show ?case by (simp add: same_core_def)
next
  case (app_resource lm a r p v n rs a')
  then show ?case using create_record_keeps [OF app_resource(2)] by (simp add: keeps_records_def)
next
  case (app_update t a r v now b ds)
  show ?case
  proof (cases "r = rid")
    case True
    then show ?thesis using app_update(1,2) by blast
  next
    case False
    then have "getRecord rid ds = getRecord rid (data_store a)"
      using app_update(3) by (auto simp: updateRecord_def getRecord_def split: option.splits sum.splits)
    then show ?thesis using app_update(4) by simp
  qed
next
  case (app_recover a a')
  then have "data_store a' = data_store a"
    by (auto simp: cmd_recover_def Let_def complete_all_frame println_def split: sum.splits)
  then show ?case using app_recover by simp
qed (simp_all add: log_event_def cmd_checkpoint_def cmd_begin_def case_prod_beta println_def Let_def)

lemma done_kept:
  assumes "app_step a a'" and "t |\<in>| done_txns a"
  shows "t |\<in>| done_txns a'"
  using app_step_locks [OF assms(1)] assms(2)
  by (induction rule: rtranclp_induct) (auto dest: lm_step_completed)

text \<open>
  C8: repeatable reads. When a transaction holds a lock on a resource in a reachable state,
  and after any further steps is still active and has not itself obtained an EXCLUSIVE lock
  on it, the resource's record is unchanged, whatever the other transactions did and
  whether they committed, aborted or still wait.
\<close>
theorem repeatable_read:
  assumes "reachable rs0 a" and "hasLock t rid (lock_mgr a)" and "getRecord rid (data_store a) = Some x"
    and "app_steps a a'" and "isTransactionActive t (tm a')" and "\<not> holds_lock (lock_mgr a') t rid EXCLUSIVE"
  shows "getRecord rid (data_store a') = Some x"
proof -
  have "t |\<notin>| done_txns a'"
    using active_not_done [OF reachable_inv [OF program.steps_reach [OF assms(4,1)]] assms(5)] .
  from assms(4) this assms(6) show ?thesis
  proof (induction rule: rtranclp_induct)
    case base
    then show ?case using assms(3) by simp
  next
    case (step u v)
    have run: "reachable rs0 u" by (rule program.steps_reach [OF step(1) assms(1)])
    have inv: "lm_inv (lock_mgr u)" using reachable_inv [OF run] by (simp add: app_inv_def)
    have live: "t |\<notin>| done_txns u" using done_kept [OF step(2)] step(4) by blast
    have reader: "\<not> holds_lock (lock_mgr u) t rid EXCLUSIVE"
      using lock_kept(1) [OF run r_into_rtranclp [of app_step, OF step(2)] step(4)] step(5) by blast
    have held: "hasLock t rid (lock_mgr u)" by (rule lock_kept(2) [OF assms(1) step(1) live assms(2)])
    have "\<not> holds_lock (lock_mgr u) t2 rid EXCLUSIVE" for t2
      using exclusive_alone [OF inv _ held, of t2] reader by blast
    then show ?case using step_changes_record [OF step(2) step(3) [OF live reader]] by blast
  qed
qed

theorem repeatable_read_witness:
  "\<exists>a x. reachable [] a \<and> hasLock 1 1 (lock_mgr a) \<and> getRecord 1 (data_store a) = Some x \<and>
     getRecord 1 (data_store (a\<lparr>lock_mgr := snd (requestLock 2 1 EXCLUSIVE (lock_mgr a))\<rparr>)) = Some x"
proof -
  let ?next = "\<lambda>a. snd (requestLock 2 1 EXCLUSIVE (lock_mgr a))"
  have "after_lines [''BEGIN T1'', ''READ T1 A'', ''BEGIN T2''] (\<lambda>a. isTransactionActive 1 (tm a) \<and>
      isTransactionActive 2 (tm a) \<and> hasLock 1 1 (lock_mgr a) \<and> \<not> holds_lock (?next a) 1 1 EXCLUSIVE \<and>
      recordExists 1 (data_store a))"
    by code_simp
  then obtain a where a: "reachable [] a" and at: "isTransactionActive 1 (tm a) \<and>
      isTransactionActive 2 (tm a) \<and> hasLock 1 1 (lock_mgr a) \<and> \<not> holds_lock (?next a) 1 1 EXCLUSIVE \<and>
      recordExists 1 (data_store a)"
    by (rule after_lines_reachable) simp
  obtain x where x: "getRecord 1 (data_store a) = Some x"
    using at by (auto simp: recordExists_def getRecord_def in_fmdom_iff split: option.splits)
  have "app_steps a (a\<lparr>lock_mgr := ?next a\<rparr>)"
    using app_request [of 2 a 1 EXCLUSIVE] at by (intro r_into_rtranclp) blast
  from repeatable_read [OF a _ x this, of 1] show ?thesis using a at x by simp blast
qed

section \<open>Whole runs\<close>

text \<open>
  C11: the program returns. Started on a log file that is absent or holds what earlier runs
  wrote, on any input of fewer than \<open>2 ^ 32 - 1\<close> lines, whatever the commands, the
  clocks, the allocator and the spilling of the stream's buffer, \<open>main\<close> ends without an
  exception, and what it leaves is a reachable state of the step relation with its log
  flushed and closed. In particular the retry of waiting commands always ends.
\<close>
theorem program_returns:
  assumes "good_start rs0 env" and "length (getlines (CHR 0x0A) input) + 1 < 2 ^ 32"
  shows "\<exists>a. reachable rs0 a \<and>
    main_program env input = Inr (a\<lparr>log_mgr := delete_LogManager (flushLogs (log_mgr a))\<rparr>)"
proof -
  obtain a where a: "command_loop (getlines (CHR 0x0A) input) (printHelp (start_app env)) = Inr a"
    and steps: "app_steps (printHelp (start_app env)) a"
    using run_returns [OF assms] .
  have "reachable rs0 a" by (rule program.steps_reach [OF steps start_reachable [OF assms(1)]])
  then show ?thesis using a by (auto simp: main_program_def)
qed

theorem program_returns_witness:
  "\<exists>a. reachable [] a \<and> main_program (quiet_env None) ''BEGIN T1'' =
     Inr (a\<lparr>log_mgr := delete_LogManager (flushLogs (log_mgr a))\<rparr>)"
proof -
  have "getlines (CHR 0x0A) ''BEGIN T1'' = [''BEGIN T1'']" by code_simp
  then have "length (getlines (CHR 0x0A) ''BEGIN T1'') + 1 < 2 ^ 32" by simp
  then show ?thesis by (rule program_returns [OF good_quiet_env(2)])
qed

lemma run_result:
  assumes "good_start rs0 env" and "length (getlines (CHR 0x0A) input) + 1 < 2 ^ 32"
    and "main_program env input = Inr a"
  obtains b where "app_inv rs0 b" and "tm a = tm b" and "log_mgr a = delete_LogManager (flushLogs (log_mgr b))"
proof -
  obtain b where "command_loop (getlines (CHR 0x0A) input) (printHelp (start_app env)) = Inr b"
    and inv: "app_inv rs0 b"
    using run_returns [OF assms(1,2)] .
  then have "a = b\<lparr>log_mgr := delete_LogManager (flushLogs (log_mgr b))\<rparr>"
    using assms(3) by (simp add: main_program_def)
  then show ?thesis using that [of b] inv by simp
qed

lemma closed_log:
  assumes "log_holds m rs"
  shows "log_disk (delete_LogManager (flushLogs m)) = Some (log_text rs)"
  using assms flushed_disk [OF assms]
  by (simp add: delete_LogManager_def flushLogs_def log_holds_def close_stream_def flush_stream_def
      disk_text_def Let_def split: option.splits)

text \<open>
  C12: durability of an orderly exit. After a run that was started on the log of earlier
  runs, the file holds the old records followed by those of this run, and the next process
  reads exactly these: this run's part has a COMMIT record for exactly the transactions
  that are committed, and every transaction still active is left incomplete, so that a
  later recovery aborts it.
\<close>
theorem exit_log_durable:
  assumes "good_start rs0 env" and "length (getlines (CHR 0x0A) input) + 1 < 2 ^ 32"
    and "main_program env input = Inr a"
  shows "\<exists>rs. log_disk (log_mgr a) = Some (log_text (rs0 @ rs)) \<and>
    readLogs (crash_restart (log_mgr a) opens spill) = Inr (rs0 @ rs) \<and>
    (\<forall>t. has_record COMMIT t rs \<longleftrightarrow> committed_in (tm a) t) \<and>
    (\<forall>t. isTransactionActive t (tm a) \<longrightarrow> t \<in> log_incomplete (rs0 @ rs))"
proof -
  obtain b where inv: "app_inv rs0 b" and eq: "tm a = tm b" "log_mgr a = delete_LogManager (flushLogs (log_mgr b))"
    using run_result [OF assms] .
  have disk: "log_disk (log_mgr a) = Some (log_text (rs0 @ run_log b))"
    using inv closed_log unfolding eq(2) app_inv_def log_ok_def by blast
  then have "readLogs (crash_restart (log_mgr a) opens spill) = Inr (rs0 @ run_log b)"
    using readLogs_crash [of "log_mgr a"] read_log_text [of "log_mgr a" "rs0 @ run_log b" "[]"] by simp
  then show ?thesis using disk inv unfolding eq(1) app_inv_def outcomes_ok_def by blast
qed

theorem exit_log_durable_witness:
  "\<exists>a rs. main_program (quiet_env None) ''BEGIN T1'' = Inr a \<and>
     readLogs (crash_restart (log_mgr a) (\<lambda>_. True) (\<lambda>_. 3)) = Inr rs"
proof -
  have "getlines (CHR 0x0A) ''BEGIN T1'' = [''BEGIN T1'']" by code_simp
  then have n: "length (getlines (CHR 0x0A) ''BEGIN T1'') + 1 < 2 ^ 32" by simp
  obtain b where "command_loop (getlines (CHR 0x0A) ''BEGIN T1'') (printHelp (start_app (quiet_env None))) = Inr b"
    using run_returns [OF good_quiet_env(2) n] .
  then obtain a where a: "main_program (quiet_env None) ''BEGIN T1'' = Inr a" by (simp add: main_program_def)
  have "\<exists>rs. readLogs (crash_restart (log_mgr a) (\<lambda>_. True) (\<lambda>_. 3)) = Inr ([] @ rs)"
    using exit_log_durable [OF good_quiet_env(2) n a, of "\<lambda>_. True" "\<lambda>_. 3"] by blast
  then show ?thesis using a by auto
qed



section \<open>Recovery on command\<close>



section \<open>Waiting commands\<close>

lemma pending_pass_kept:
  "pending_pass cmds kept resumed mp a = Inr (kept', resumed', mp', a') \<Longrightarrow>
   \<exists>ks. kept' = kept @ ks \<and> subseq ks cmds \<and>
     (\<forall>c\<in>set ks. \<exists>t. fmlookup (txn_ids a) (txn_label c) = Some t \<and> isTransactionActive t (tm a))"
proof (induction cmds arbitrary: kept resumed mp a)
  case (Cons cmd cmds)
  let ?live = "\<lambda>a c. \<exists>t. fmlookup (txn_ids a) (txn_label c) = Some t \<and> isTransactionActive t (tm a)"
  show ?case
  proof (cases "?live a cmd")
    case False
    then have "pending_pass cmds kept resumed mp a = Inr (kept', resumed', mp', a')"
      using Cons.prems by (auto split: option.splits)
    from Cons.IH [OF this] show ?thesis by blast
  next
    case True
    then obtain t res1 a1 ex a2 where t: "fmlookup (txn_ids a) (txn_label cmd) = Some t" "isTransactionActive t (tm a)"
      and a1: "announce cmd t resumed a = Inr (res1, a1)" and a2: "executeCommand cmd True a1 = Inr (ex, a2)"
      and next_cmds: "(if ex then pending_pass cmds kept res1 True a2
        else pending_pass cmds (kept @ [cmd]) res1 mp a2) = Inr (kept', resumed', mp', a')"
      using Cons.prems by (auto split: sum.splits)
    have same: "tm a2 = tm a" "txn_ids a2 = txn_ids a"
      using announce_steps [OF a1] executeCommand_steps [OF a2] by (simp_all add: same_txns_def)
    show ?thesis
    proof (cases ex)
      case True
      then show ?thesis using next_cmds Cons.IH [of kept res1 True a2] unfolding same by auto
    next
      case False
      then obtain ks where "kept' = (kept @ [cmd]) @ ks" "subseq ks cmds" "\<forall>c\<in>set ks. ?live a c"
        using next_cmds Cons.IH [of "kept @ [cmd]" res1 mp a2] unfolding same by auto
      then show ?thesis using t by (intro exI [of _ "cmd # ks"]) auto
    qed
  qed
qed simp



end
