(* ===== verification/AppResources.thy ===== *)
theory AppResources
  imports AppClaims
begin

text \<open>
  Resource names and values: a name denotes one resource for the rest of a run, and a WRITE
  that is executed takes effect on the record, the log and the output.
\<close>

section \<open>Names\<close>

definition ids_le :: "(string, u32) fmap \<Rightarrow> (string, u32) fmap \<Rightarrow> bool" where
  "ids_le m m' \<longleftrightarrow> (\<forall>p rid. fmlookup m p = Some rid \<longrightarrow> fmlookup m' p = Some rid)"

lemma ids_le_refl [simp]: "ids_le m m"
  by (simp add: ids_le_def)

lemma ids_le_trans: "ids_le m m' \<Longrightarrow> ids_le m' m'' \<Longrightarrow> ids_le m m''"
  by (simp add: ids_le_def)

lemma new_resource_ids:
  assumes "new_resource path last_id a = Inr (rid, a')"
  shows "resource_ids a' = fmupd path rid (resource_ids a)"
  using assms create_record_frame(4)
  by (fastforce simp: new_resource_def Let_def split: sum.splits if_splits)

text \<open>The walk over the segments of a name only adds entries, and ends in one of them.\<close>

lemma ensure_loop_ids:
  "ensure_loop segs path last_id a = Inr (rid, b) \<Longrightarrow>
   ids_le (resource_ids a) (resource_ids b) \<and>
   (if \<forall>s\<in>set segs. s = [] then rid = last_id else \<exists>p. fmlookup (resource_ids b) p = Some rid)"
proof (induction segs arbitrary: path last_id a)
  case (Cons seg segs)
  define p where "p = (if path = [] then seg else path @ ''.'' @ seg)"
  note step = ensure_loop.simps(2) [of seg segs path last_id, unfolded Let_def, folded p_def]
  show ?case
  proof (cases "seg = []")
    case True
    then show ?thesis using Cons by simp
  next
    case False
    obtain r a1 where r: "fmlookup (resource_ids a1) p = Some r" "ids_le (resource_ids a) (resource_ids a1)"
      and walk: "ensure_loop segs p r a1 = Inr (rid, b)"
    proof (cases "fmlookup (resource_ids a) p")
      case (Some r)
      then show ?thesis
        using that [of a r] Cons.prems False by (simp add: step del: ensure_loop.simps(2))
    next
      case None
      then obtain r a1 where n: "new_resource p last_id a = Inr (r, a1)"
        and "ensure_loop segs p r a1 = Inr (rid, b)"
        using Cons.prems False by (auto simp: step simp del: ensure_loop.simps(2) split: sum.splits)
      then show ?thesis using that [of a1 r] None new_resource_ids [OF n] by (simp add: ids_le_def)
    qed
    have "ids_le (resource_ids a) (resource_ids b)" "fmlookup (resource_ids b) p = Some r"
      using Cons.IH [OF walk] r ids_le_trans by (auto simp: ids_le_def)
    then show ?thesis using Cons.IH [OF walk] False by (auto split: if_splits)
  qed
qed simp

lemma ensure_loop_again:
  "ensure_loop segs path last_id a = Inr (rid, b) \<Longrightarrow> ids_le (resource_ids b) (resource_ids c) \<Longrightarrow>
   ensure_loop segs path last_id c = Inr (rid, c)"
proof (induction segs arbitrary: path last_id a)
  case (Cons seg segs)
  define p where "p = (if path = [] then seg else path @ ''.'' @ seg)"
  note step = ensure_loop.simps(2) [of seg segs path last_id, unfolded Let_def, folded p_def]
  show ?case
  proof (cases "seg = []")
    case True
    then show ?thesis using Cons by simp
  next
    case False
    show ?thesis
    proof (cases "fmlookup (resource_ids a) p")
      case (Some r)
      then have walk: "ensure_loop segs p r a = Inr (rid, b)" using Cons.prems(1) False by (simp add: step del: ensure_loop.simps(2))
      then have "fmlookup (resource_ids c) p = Some r"
        using ensure_loop_ids Some Cons.prems(2) unfolding ids_le_def by blast
      then show ?thesis using Cons.IH [OF walk Cons.prems(2)] False by (simp add: step del: ensure_loop.simps(2))
    next
      case None
      then obtain r a1 where n: "new_resource p last_id a = Inr (r, a1)"
        and walk: "ensure_loop segs p r a1 = Inr (rid, b)"
        using Cons.prems(1) False by (auto simp: step simp del: ensure_loop.simps(2) split: sum.splits)
      have "fmlookup (resource_ids a1) p = Some r" by (simp add: new_resource_ids [OF n])
      then have "fmlookup (resource_ids c) p = Some r"
        using ensure_loop_ids [OF walk] Cons.prems(2) unfolding ids_le_def by blast
      then show ?thesis using Cons.IH [OF walk Cons.prems(2)] False by (simp add: step del: ensure_loop.simps(2))
    qed
  qed
qed simp

text \<open>No id is 0 while the counter does not wrap round.\<close>

definition ids_left :: "nat \<Rightarrow> App \<Rightarrow> bool" where
  "ids_left k a \<longleftrightarrow> 0 |\<notin>| fmran (resource_ids a) \<and> next_resource_id a \<noteq> 0 \<and>
     unat (next_resource_id a) + k < 2 ^ 32"

lemma ids_left_mono: "ids_left k a \<Longrightarrow> j \<le> k \<Longrightarrow> ids_left j a"
  by (simp add: ids_left_def)

lemma new_resource_left:
  assumes "new_resource path last_id a = Inr (rid, a')" and "ids_left (Suc k) a"
  shows "ids_left k a'"
proof -
  have n: "next_resource_id a' = next_resource_id a + 1" "rid = next_resource_id a"
    using assms(1) create_record_frame(5)
    by (fastforce simp: new_resource_def Let_def split: sum.splits if_splits)+
  have "next_resource_id a \<noteq> -1"
    by (rule room_not_max [of _ k]) (use assms(2) in \<open>simp add: ids_left_def\<close>)
  then have "unat (next_resource_id a') = Suc (unat (next_resource_id a))" using unat_add_one n by simp
  moreover from this have "next_resource_id a' \<noteq> 0" by (metis nat.distinct(1) unat_0)
  moreover have "0 |\<notin>| fmran (resource_ids a')"
    using assms(2) n(2) unfolding new_resource_ids [OF assms(1)] ids_left_def by (auto elim!: fmranE split: if_splits dest: fmranI)
  ultimately show ?thesis using assms(2) by (simp add: ids_left_def)
qed

lemma ensure_loop_left:
  "ensure_loop segs path last_id a = Inr (rid, b) \<Longrightarrow> ids_left (length segs) a \<Longrightarrow> ids_left 0 b"
proof (induction segs arbitrary: path last_id a)
  case (Cons seg segs)
  define p where "p = (if path = [] then seg else path @ ''.'' @ seg)"
  note step = ensure_loop.simps(2) [of seg segs path last_id, unfolded Let_def, folded p_def]
  have less: "ids_left (length segs) a" using Cons.prems(2) by (rule ids_left_mono) simp
  consider "ensure_loop segs path last_id a = Inr (rid, b)" | r where "ensure_loop segs p r a = Inr (rid, b)"
    | r a1 where "new_resource p last_id a = Inr (r, a1)" "ensure_loop segs p r a1 = Inr (rid, b)"
    using Cons.prems(1) by (auto simp: step simp del: ensure_loop.simps(2) split: if_splits option.splits sum.splits)
  then show ?case
  proof cases
    case (3 r a1)
    then show ?thesis using Cons.IH new_resource_left [OF 3(1)] Cons.prems(2) by simp
  qed (use Cons.IH less in blast)+
qed (auto intro: ids_left_mono)



section \<open>Writes\<close>

text \<open>
  C32: what an executed WRITE does: the transaction now holds the EXCLUSIVE lock, the
  resource's record reads back exactly the written number, one UPDATE record of the
  transaction is appended to the log and one line to the output, and no transaction
  begins or ends.
\<close>
theorem write_takes_effect:
  assumes "executeCommand cmd from_pending a = Inr (True, a')" and "cmd_op cmd = ''WRITE''"
    and "fmlookup (txn_ids a) (txn_label cmd) = Some t"
    and "ensureResource (resource_name cmd) a = Inr (rid, b)" and "recordExists rid (data_store b)"
  shows "holds_lock (lock_mgr a') t rid EXCLUSIVE \<and> stored_value rid a' = Inr (cmd_value cmd) \<and>
    (\<exists>ts. run_log a' = run_log a @ [new_LogRecord t UPDATE ts]) \<and> tm a' = tm a \<and>
    out a' = out a @ [txn_label cmd @ '' writes '' @ resource_name cmd @ '' = '' @ int_to_string (sint (cmd_value cmd))]"
proof -
  define line where "line = txn_label cmd @ '' writes '' @ resource_name cmd @ '' = '' @ int_to_string (sint (cmd_value cmd))"
  have w: "execute_write t cmd from_pending a = Inr (True, a')"
    using executeCommand_cases [OF assms(1,3)] assms(2) by blast
  obtain lm where g: "requestLock t rid EXCLUSIVE (lock_mgr b) = (True, lm)"
    using w assms(4) by (cases "requestLock t rid EXCLUSIVE (lock_mgr b)") (auto simp: execute_write_def Let_def split: if_splits)
  define c where "c = hold_resource t rid (b\<lparr>lock_mgr := lm\<rparr>)"
  obtain u ds where u: "updateRecord rid (intToBytes (cmd_value cmd)) (draw (sys_clock c)) (data_store c) = Inr (u, ds)"
    using updateRecord_total obtain_succeeds by (metis surj_pair)
  have a': "a' = println line (log_event t UPDATE (c\<lparr>data_store := ds, sys_clock := rest (sys_clock c)\<rparr>))"
    using w assms(4) g u unfolding execute_write_def c_def [symmetric] line_def [symmetric] by (simp add: Let_def c_def [symmetric])
  have c: "lock_mgr c = lm" "data_store c = data_store b" "out c = out b" "tm c = tm b" "run_log c = run_log b"
    by (simp_all add: c_def hold_resource_def run_log_def)
  obtain x where x: "fmlookup (records (data_store b)) rid = Some x"
    using assms(5) by (auto simp: recordExists_def in_fmdom_iff)
  have "getRecord rid ds = Some (x\<lparr>data := intToBytes (cmd_value cmd), modified_time := draw (sys_clock c)\<rparr>)"
    using u x by (auto simp: c updateRecord_def setData_int getRecord_def)
  then have "stored_value rid a' = Inr (cmd_value cmd)"
    by (simp add: a' stored_value_def println_def log_event_def getData_def bytesToInt_intToBytes)
  moreover have "holds_lock (lock_mgr a') t rid EXCLUSIVE"
    using granted_exclusive [OF g] by (simp add: a' c println_def log_event_def)
  moreover have "run_log a' = run_log b @ [new_LogRecord t UPDATE (draw (wall_clock c))]" "tm a' = tm b"
    "out a' = out b @ [line]"
    by (simp_all add: a' println_def log_event_def run_log_def c [unfolded run_log_def])
  moreover have "run_log b = run_log a" "tm b = tm a" "out b = out a"
    using ensureResource_steps [OF assms(4)] ensureResource_keeps [OF assms(4)]
    by (simp_all add: same_txns_def keeps_records_def run_log_def)
  ultimately show ?thesis unfolding line_def [symmetric] by metis
qed

theorem write_takes_effect_witness:
  "\<exists>a a'. reachable [] a \<and>
     executeCommand \<lparr>cmd_op = ''WRITE'', txn_label = ''T1'', resource_name = ''A'', cmd_value = -7\<rparr> False a =
       Inr (True, a') \<and> stored_value 1 a' = Inr (-7) \<and> holds_lock (lock_mgr a') 1 1 EXCLUSIVE"
proof -
  let ?cmd = "\<lparr>cmd_op = ''WRITE'', txn_label = ''T1'', resource_name = ''A'', cmd_value = -7\<rparr>"
  let ?P = "\<lambda>a. map_sum id fst (executeCommand ?cmd False a) = Inr True \<and> fmlookup (txn_ids a) ''T1'' = Some 1 \<and>
    map_sum id (\<lambda>(rid, b). (rid, recordExists rid (data_store b))) (ensureResource ''A'' a) = Inr (1, True)"
  have "after_lines [''BEGIN T1''] ?P" by code_simp
  then obtain a where a: "reachable [] a" and at: "?P a"
    by (rule after_lines_reachable) simp
  obtain a' where e: "executeCommand ?cmd False a = Inr (True, a')"
    using at by (cases "executeCommand ?cmd False a") auto
  obtain b where b: "ensureResource (resource_name ?cmd) a = Inr (1, b)" "recordExists 1 (data_store b)"
    using at by (cases "ensureResource ''A'' a") auto
  have l: "cmd_op ?cmd = ''WRITE''" "fmlookup (txn_ids a) (txn_label ?cmd) = Some 1" using at by simp_all
  have "holds_lock (lock_mgr a') 1 1 EXCLUSIVE \<and> stored_value 1 a' = Inr (cmd_value ?cmd)"
    using write_takes_effect [OF e l b] by blast
  then have "stored_value 1 a' = Inr (-7)" "holds_lock (lock_mgr a') 1 1 EXCLUSIVE" by simp_all
  then show ?thesis using a e by blast
qed

end
