(* ===== verification/AppSessions.thy ===== *)
theory AppSessions
  imports AppClaims WaitForGraph
begin

text \<open>
  Complete sessions, evaluated in the kernel: the sample input of the repository, and the
  sessions in which the program does not do what its documentation promises.
\<close>

section \<open>Sessions\<close>

text \<open>What the program prints after its help line; \<open>None\<close> when an exception ends it.\<close>

definition session :: "string list \<Rightarrow> string list option" where
  "session lines =
     (case command_loop lines (printHelp (start_app (quiet_env None))) of
        Inl _ \<Rightarrow> None | Inr a \<Rightarrow> Some (tl (out a)))"

text \<open>The file \<^verbatim>\<open>input.txt\<close> of the repository.\<close>

definition sample_input :: string where
  "sample_input = concat (map (\<lambda>line. line @ [CHR 0x0A])
     [''BEGIN T1'', ''READ T1 A'', ''WRITE T1 A 50'', ''BEGIN T2'', ''READ T2 A'', ''WRITE T2 A 100'',
      ''COMMIT T1'', ''COMMIT T2'', ''SHOW A'', ''STATUS''])"

text \<open>
  On the repository's sample input the second transaction waits for the lock of the
  first, is resumed by its commit, reads the committed value and overwrites it; nothing is
  left active or waiting at the end.
\<close>
theorem sample_session:
  "map_sum id (\<lambda>a. tl (out a)) (main_program (quiet_env None) sample_input) =
   Inr [''T1 started'', ''T1 reads A = 10'', ''T1 writes A = 50'', ''T2 started'', ''T2 waiting for lock on A'',
     ''T1 committed'', ''T2 resumes'', ''T2 reads A = 50'', ''T2 writes A = 100'', ''T2 committed'', ''A = 100'',
     ''active_transactions=0 pending_commands=0 committed=2 aborted=0'']"
  by code_simp

section \<open>Aborted writes stay\<close>

lemma process_loop_nothing: "pending a = [] \<Longrightarrow> process_loop resumed a = Inr a"
  by (subst process_loop.simps) simp

text \<open>
  C40: ABORT undoes nothing. Whatever the transaction has written, when no command waits a
  successful or refused ABORT leaves every record of the data store as it is, although an
  aborted transaction is documented to make no changes; the next reader sees its values.
\<close>
theorem abort_keeps_writes:
  assumes "pending a = []" and "cmd_abort args a = Inr a'"
  shows "data_store a' = data_store a"
proof -
  have "data_store b' = data_store b" if "finish label t ty msg b = Inr b'" "pending b = []" for label t ty msg b b'
    using that process_loop_nothing
    by (auto simp: finish_def processPending_def Let_def println_def log_event_def)
  then show ?thesis
    using assms by (auto simp: cmd_abort_def case_prod_beta println_def split: option.splits bool.splits prod.splits)
qed

theorem abort_keeps_writes_witness:
  "\<exists>a a'. reachable [] a \<and> map_sum id (map_option getData) (Inr (getRecord 1 (data_store a))) = Inr (Some (intToBytes 50)) \<and>
     cmd_abort '' T1'' a = Inr a' \<and> getAbortedCount (tm a') = 1 \<and> data_store a' = data_store a"
proof -
  let ?P = "\<lambda>a. pending a = [] \<and> map_option getData (getRecord 1 (data_store a)) = Some (intToBytes 50) \<and>
    map_sum id (\<lambda>a'. getAbortedCount (tm a')) (cmd_abort '' T1'' a) = Inr 1"
  have "after_lines [''BEGIN T1'', ''WRITE T1 A 50''] ?P" by code_simp
  then obtain a where a: "reachable [] a" and at: "?P a" by (rule after_lines_reachable) simp
  obtain a' where a': "cmd_abort '' T1'' a = Inr a'" "getAbortedCount (tm a') = 1"
    using at by (cases "cmd_abort '' T1'' a") auto
  have "pending a = []" using at by blast
  from abort_keeps_writes [OF this a'(1)] show ?thesis using a a' at by auto
qed

text \<open>The value of an aborted transaction is shown and read as if it had been committed.\<close>

theorem aborted_value_read:
  "session [''BEGIN T1'', ''WRITE T1 A 50'', ''ABORT T1'', ''BEGIN T2'', ''READ T2 A'', ''SHOW A''] =
   Some [''T1 started'', ''T1 writes A = 50'', ''T1 aborted'', ''T2 started'', ''T2 reads A = 50'', ''A = 50'']"
  by code_simp

section \<open>Deadlocks are not detected\<close>

definition deadlock_session :: "string list" where
  "deadlock_session = [''BEGIN T1'', ''BEGIN T2'', ''WRITE T1 A 1'', ''WRITE T2 B 2'', ''WRITE T1 B 3'', ''WRITE T2 A 4'']"

text \<open>
  A deadlock is neither prevented nor detected: after two transactions have written A
  and B and then each other's resource, both wait, and the commands they issue next, for a
  resource that is free, are only queued without any message; both stay active. The
  wait-for graph would report the cycle, but the program does not use it.
\<close>
theorem deadlock_undetected:
  "session (deadlock_session @ [''READ T1 C'', ''READ T2 C'', ''STATUS'']) =
   Some [''T1 started'', ''T2 started'', ''T1 writes A = 1'', ''T2 writes B = 2'', ''T1 waiting for lock on B'',
     ''T2 waiting for lock on A'', ''active_transactions=2 pending_commands=4 committed=0 aborted=0''] \<and>
   hasCycle (addEdge 2 1 (addEdge 1 2 new_WaitForGraph))"
  by (rule conjI; code_simp)

section \<open>Other sessions\<close>

text \<open>
  COMMIT does not flush the log: when the stream has not spilled its buffer, a crash right
  after the message that the transaction committed leaves no record of it.
\<close>

theorem commit_lost_in_crash:
  "after_lines [''BEGIN T1'', ''WRITE T1 A 50'', ''COMMIT T1'']
     (\<lambda>a. last (out a) = ''T1 committed'' \<and>
       map_sum id (\<lambda>rs. rs = []) (readLogs (crash_restart (log_mgr a) (\<lambda>_. True) (\<lambda>_. 0))) = Inr True)"
  by code_simp

text \<open>
  A transaction's commands can be executed out of order: T2's read of A waits, its later
  write of C is executed first, when an unrelated transaction commits.
\<close>

theorem program_order_lost:
  "session [''BEGIN T1'', ''BEGIN T2'', ''BEGIN T3'', ''WRITE T1 A 1'', ''READ T2 A'', ''WRITE T2 C 2'',
     ''COMMIT T3'', ''COMMIT T1''] =
   Some [''T1 started'', ''T2 started'', ''T3 started'', ''T1 writes A = 1'', ''T2 waiting for lock on A'',
     ''T3 committed'', ''T2 writes C = 2'', ''T1 committed'', ''T2 resumes'', ''T2 reads A = 1'']"
  by code_simp

text \<open>
  A name made of dots only is a new resource at every mention, so two transactions write it
  at the same time and nobody reads what was written.
\<close>

theorem dots_never_locked:
  "session [''BEGIN T1'', ''BEGIN T2'', ''WRITE T1 . 1'', ''WRITE T2 . 2'', ''SHOW .''] =
   Some [''T1 started'', ''T2 started'', ''T1 writes . = 1'', ''T2 writes . = 2'', ''. = 0'']"
  by code_simp

text \<open>
  After an upgrade that had to wait, or after RECOVER with a waiting transaction, the lock
  goes to a finished transaction and later ones wait for it with nobody active.
\<close>

theorem upgrade_blocks_resource:
  "session [''BEGIN T1'', ''BEGIN T2'', ''READ T1 A'', ''READ T2 A'', ''WRITE T1 A 5'', ''COMMIT T2'',
     ''COMMIT T1'', ''BEGIN T3'', ''READ T3 A''] =
   Some [''T1 started'', ''T2 started'', ''T1 reads A = 10'', ''T2 reads A = 10'', ''T1 waiting for lock on A'',
     ''T2 committed'', ''T1 resumes'', ''T1 writes A = 5'', ''T1 committed'', ''T3 started'',
     ''T3 waiting for lock on A'']"
  by code_simp

theorem recover_blocks_resource:
  "session [''BEGIN T1'', ''BEGIN T2'', ''WRITE T2 A 5'', ''WRITE T1 A 6'', ''RECOVER'', ''BEGIN T3'', ''READ T3 A'',
     ''STATUS''] =
   Some [''T1 started'', ''T2 started'', ''T2 writes A = 5'', ''T1 waiting for lock on A'',
     ''recovery complete: redo=0 undo=2'', ''T3 started'', ''T3 waiting for lock on A'',
     ''active_transactions=1 pending_commands=1 committed=0 aborted=2'']"
  by code_simp

text \<open>
  A WRITE without a number writes 0, and a command of a finished transaction is queued
  without a message.
\<close>

theorem missing_value_written:
  "session [''BEGIN T1'', ''WRITE T1 A'', ''COMMIT T1'', ''READ T1 A'', ''STATUS'', ''SHOW A''] =
   Some [''T1 started'', ''T1 writes A = 0'', ''T1 committed'',
     ''active_transactions=0 pending_commands=1 committed=1 aborted=0'', ''A = 0'']"
  by code_simp

end
