(* ===== verification/AppHistory.thy ===== *)
theory AppHistory
  imports AppClaims Histories
begin

text \<open>
  The history of a run of the program: which transaction read and wrote which value on which
  resource, and when it ended, recorded beside the control flow of \<^verbatim>\<open>main\<close>.
  Every command is a trace of these actions over the lock table, the data store and the log,
  each made under its lock, and keeps the tables of names and of held resources right.
\<close>

section \<open>Tables\<close>

text \<open>Every name stands for a record; the held resources are locked by active transactions.\<close>

definition named :: "App \<Rightarrow> bool" where
  "named a \<longleftrightarrow> (\<forall>p rid. fmlookup (resource_ids a) p = Some rid \<longrightarrow> recordExists rid (data_store a))"

definition held_ok :: "App \<Rightarrow> bool" where
  "held_ok a \<longleftrightarrow> (\<forall>t rs. fmlookup (txn_held_resources a) t = Some rs \<longrightarrow>
     isTransactionActive t (tm a) \<and> (\<forall>r. r |\<in>| rs \<longrightarrow> hasLock t r (lock_mgr a)))"

definition update_ids :: "App \<Rightarrow> u32 list" where
  "update_ids a = map getTransactionId (filter (\<lambda>r. getLogType r = UPDATE) (run_log a))"

text \<open>
  A stretch of the program without an access: locks are requested and resources created,
  but no record changes, no transaction ends and no update is logged.
\<close>

definition silent :: "App \<Rightarrow> App \<Rightarrow> bool" where
  "silent a b \<longleftrightarrow> lm_step\<^sup>*\<^sup>* (lock_mgr a) (lock_mgr b) \<and> done_txns b = done_txns a \<and>
     update_ids b = update_ids a \<and>
     (\<forall>r. recordExists r (data_store a) \<longrightarrow>
        recordExists r (data_store b) \<and> stored_value r b = stored_value r a) \<and>
     (\<forall>r. recordExists r (data_store b) \<and> \<not> recordExists r (data_store a) \<longrightarrow>
        stored_value r b \<in> {Inr 0, Inr 10})"

lemma silent_trans: "silent a b \<Longrightarrow> silent b c \<Longrightarrow> silent a c"
  unfolding silent_def by (intro conjI) (auto intro: rtranclp_trans, metis+)

lemma silent_same:
  "lm_step\<^sup>*\<^sup>* (lock_mgr a) (lock_mgr b) \<Longrightarrow> done_txns b = done_txns a \<Longrightarrow> data_store b = data_store a \<Longrightarrow>
   update_ids b = update_ids a \<Longrightarrow> silent a b"
  by (simp add: silent_def stored_value_def)

lemma silent_idle: "lock_mgr b = lock_mgr a \<Longrightarrow> data_store b = data_store a \<Longrightarrow> log_mgr b = log_mgr a \<Longrightarrow> silent a b"
  by (rule silent_same) (simp_all add: update_ids_def run_log_def)

lemma create_record_effect:
  assumes "create_record rid v a = Inr b" and "v = 0 \<or> v = 10"
  shows "silent a b" and "recordExists rid (data_store b)"
    and "txn_held_resources b = txn_held_resources a" and "resource_ids b = resource_ids a" and "tm b = tm a"
proof -
  let ?r = "(new_Record rid (draw (sys_clock a)) (draw (rest (sys_clock a))))
    \<lparr>data := intToBytes v, modified_time := draw (rest (rest (sys_clock a)))\<rparr>"
  have b: "b = a\<lparr>sys_clock := rest (rest (rest (sys_clock a))), data_store := snd (insertRecord (Some ?r) (data_store a))\<rparr>"
    using assms(1) by (simp add: create_record_def Let_def setData_int)
  have id: "getRecordId ?r = rid" by (simp add: getRecordId_def new_Record_def)
  have val: "bytesToInt (getData ?r) = Inr v" by (simp add: getData_def bytesToInt_intToBytes)
  show "recordExists rid (data_store b)" "txn_held_resources b = txn_held_resources a"
    "resource_ids b = resource_ids a" "tm b = tm a"
    using id by (auto simp: b recordExists_def insertRecord_def in_fmdom_iff)
  show "silent a b"
    unfolding silent_def
    using assms(2) id val
    by (auto simp: b recordExists_def insertRecord_def in_fmdom_iff stored_value_def getRecord_def
        update_ids_def run_log_def split: if_splits)
qed

lemma named_extend:
  assumes "named a" and "silent a b" and "resource_ids b = fmupd p rid (resource_ids a)"
    and "recordExists rid (data_store b)"
  shows "named b"
  using assms by (auto simp: named_def silent_def)

lemma new_resource_effect:
  assumes "new_resource path last_id a = Inr (rid, b)" and "named a"
  shows "silent a b \<and> named b \<and> recordExists rid (data_store b) \<and>
    txn_held_resources b = txn_held_resources a \<and> tm b = tm a"
proof -
  let ?n = "next_resource_id a"
  let ?lm = "if last_id \<noteq> 0 then setResourceParent ?n last_id (lock_mgr a) else lock_mgr a"
  let ?a = "a\<lparr>next_resource_id := ?n + 1, resource_ids := fmupd path ?n (resource_ids a), lock_mgr := ?lm\<rparr>"
  have c: "create_record ?n (if path = ''A'' then 10 else 0) ?a = Inr b" and rid: "rid = ?n"
    using assms(1) by (auto simp: new_resource_def Let_def split: sum.splits if_splits)
  note eff = create_record_effect [OF c]
  have "lm_step\<^sup>*\<^sup>* (lock_mgr a) ?lm" using lm_parent by auto
  moreover have "completed_txns ?lm = done_txns a" by (simp add: lock_obs)
  ultimately have "silent a ?a" by (intro silent_same) (simp_all add: update_ids_def run_log_def)
  then have s: "silent a b" using eff(1) silent_trans by auto
  moreover have "named b" by (rule named_extend [OF assms(2) s]) (use eff(2,4) in auto)
  ultimately show ?thesis using eff rid by auto
qed

lemma ensure_loop_effect:
  "ensure_loop segs path last_id a = Inr (rid, b) \<Longrightarrow> named a \<Longrightarrow>
   last_id = 0 \<or> recordExists last_id (data_store a) \<Longrightarrow>
   silent a b \<and> named b \<and> (rid = 0 \<or> recordExists rid (data_store b)) \<and>
   txn_held_resources b = txn_held_resources a \<and> tm b = tm a"
proof (induction segs arbitrary: path last_id a)
  case Nil
  then show ?case using silent_idle [of a a] by simp
next
  case (Cons seg segs)
  define p where "p = (if path = [] then seg else path @ ''.'' @ seg)"
  note step = ensure_loop.simps(2) [of seg segs path last_id, unfolded Let_def, folded p_def]
  consider "ensure_loop segs path last_id a = Inr (rid, b)"
    | r where "fmlookup (resource_ids a) p = Some r" "ensure_loop segs p r a = Inr (rid, b)"
    | r a1 where "new_resource p last_id a = Inr (r, a1)" "ensure_loop segs p r a1 = Inr (rid, b)"
    using Cons.prems(1) by (auto simp: step simp del: ensure_loop.simps(2) split: if_splits option.splits sum.splits)
  then show ?case
  proof cases
    case 1
    then show ?thesis using Cons by blast
  next
    case (2 r)
    then show ?thesis using Cons.IH Cons.prems(2) by (auto simp: named_def)
  next
    case (3 r a1)
    note new = new_resource_effect [OF 3(1) Cons.prems(2)]
    then have "silent a1 b \<and> named b \<and> (rid = 0 \<or> recordExists rid (data_store b)) \<and>
        txn_held_resources b = txn_held_resources a1 \<and> tm b = tm a1"
      using Cons.IH [OF 3(2)] by blast
    then show ?thesis using new silent_trans by metis
  qed
qed

lemma ensureResource_effect:
  assumes "ensureResource name a = Inr (rid, b)" and "named a"
  shows "silent a b \<and> named b \<and> recordExists rid (data_store b) \<and>
    txn_held_resources b = txn_held_resources a \<and> tm b = tm a"
proof -
  obtain last_id c where c: "ensure_loop (getlines (CHR ''.'') name) [] 0 a = Inr (last_id, c)"
    using assms(1) by (auto simp: ensureResource_def split: sum.splits)
  have eff: "silent a c" "named c" "last_id = 0 \<or> recordExists last_id (data_store c)"
    "txn_held_resources c = txn_held_resources a" "tm c = tm a"
    using ensure_loop_effect [OF c assms(2)] by auto
  show ?thesis
  proof (cases "last_id = 0")
    case False
    then show ?thesis using assms(1) c eff by (simp add: ensureResource_def)
  next
    case True
    let ?n = "next_resource_id c"
    let ?c = "c\<lparr>next_resource_id := ?n + 1, resource_ids := fmupd name ?n (resource_ids c)\<rparr>"
    have d: "create_record ?n 0 ?c = Inr b" and rid: "rid = ?n"
      using assms(1) c True by (auto simp: ensureResource_def Let_def split: sum.splits)
    note new = create_record_effect [OF d disjI1 [OF refl]]
    have s: "silent c b" using silent_trans [OF silent_idle [of ?c c] new(1)] by simp
    have "named b" by (rule named_extend [OF eff(2) s]) (use new(2,4) in auto)
    then show ?thesis using silent_trans [OF eff(1) s] new rid eff(4,5) by simp
  qed
qed

lemma held_kept:
  assumes "held_ok a" and "live_ok a" and "lm_step\<^sup>*\<^sup>* (lock_mgr a) (lock_mgr b)" and "done_txns b = done_txns a"
    and "txn_held_resources b = txn_held_resources a" and "tm b = tm a"
  shows "held_ok b"
proof -
  have "hasLock t r (lock_mgr b)" if "hasLock t r (lock_mgr a)" "isTransactionActive t (tm a)" for t r
  proof -
    have "t |\<in>| done_txns b \<or> hasLock t r (lock_mgr b)"
      using assms(3) that(1) by (induction rule: rtranclp_induct) (auto dest: lm_step_holder)
    then show ?thesis using assms(2,4) that(2) by (auto simp: live_ok_def)
  qed
  then show ?thesis using assms(1,5,6) unfolding held_ok_def by metis
qed

section \<open>Actions as labelled steps\<close>

inductive act_step :: "App \<Rightarrow> action list \<Rightarrow> App \<Rightarrow> bool" where
  act_silent: "silent a b \<Longrightarrow> act_step a [] b"
| act_read: "t |\<notin>| done_txns a \<Longrightarrow> hasLock t rid (lock_mgr a) \<Longrightarrow> recordExists rid (data_store a) \<Longrightarrow>
    stored_value rid a = Inr v \<Longrightarrow> act_step a [Read t rid v] a"
| act_write: "t |\<notin>| done_txns a \<Longrightarrow> holds_lock (lock_mgr a) t rid EXCLUSIVE \<Longrightarrow>
    recordExists rid (data_store a) \<Longrightarrow> stored_value rid a = Inr u \<Longrightarrow> stored_value rid b = Inr v \<Longrightarrow>
    \<forall>r. recordExists r (data_store b) = recordExists r (data_store a) \<Longrightarrow>
    \<forall>r. r \<noteq> rid \<longrightarrow> stored_value r b = stored_value r a \<Longrightarrow>
    lock_mgr b = lock_mgr a \<Longrightarrow> update_ids b = update_ids a @ [t] \<Longrightarrow> act_step a [Write t rid v] b"
| act_done: "lock_mgr b = snd (completeTransaction t (lock_mgr a)) \<Longrightarrow> data_store b = data_store a \<Longrightarrow>
    update_ids b = update_ids a \<Longrightarrow> act_step a [Done t] b"

lemma quiet_end: "trace act_step a acts b \<Longrightarrow> silent b c \<Longrightarrow> trace act_step a acts c"
  using trace_append [of act_step a acts b "[]" c] trace_single [of act_step b "[]" c] act_silent by simp

lemma quiet_begin: "silent a b \<Longrightarrow> trace act_step b acts c \<Longrightarrow> trace act_step a acts c"
  using trace_silent [of act_step a b acts c] act_silent by blast

section \<open>The history of a run\<close>

text \<open>The access that executing a command makes, if its lock is granted.\<close>

definition access_actions :: "u32 \<Rightarrow> Command \<Rightarrow> App \<Rightarrow> action list" where
  "access_actions t cmd a =
     (case ensureResource (resource_name cmd) a of Inl e \<Rightarrow> []
      | Inr (rid, b) \<Rightarrow>
          if cmd_op cmd = ''READ'' then
            (if fst (requestLock t rid SHARED (lock_mgr b))
             then (case stored_value rid b of Inl e \<Rightarrow> [] | Inr v \<Rightarrow> [Read t rid v]) else [])
          else if cmd_op cmd = ''WRITE'' then
            (if fst (requestLock t rid EXCLUSIVE (lock_mgr b)) then [Write t rid (cmd_value cmd)] else [])
          else [])"

definition command_actions :: "Command \<Rightarrow> App \<Rightarrow> action list" where
  "command_actions cmd a =
     (case fmlookup (txn_ids a) (txn_label cmd) of None \<Rightarrow> []
      | Some t \<Rightarrow> if isTransactionActive t (tm a) then access_actions t cmd a else [])"

fun pass_actions :: "Command list \<Rightarrow> string fset \<Rightarrow> App \<Rightarrow> action list" where
  "pass_actions [] resumed a = []"
| "pass_actions (cmd # cmds) resumed a =
     (case fmlookup (txn_ids a) (txn_label cmd) of
        None \<Rightarrow> pass_actions cmds resumed a
      | Some t \<Rightarrow>
          if \<not> isTransactionActive t (tm a) then pass_actions cmds resumed a
          else
            (case announce cmd t resumed a of Inl e \<Rightarrow> []
             | Inr (resumed', a1) \<Rightarrow>
                 (case executeCommand cmd True a1 of Inl e \<Rightarrow> []
                  | Inr (executed, a2) \<Rightarrow> command_actions cmd a1 @ pass_actions cmds resumed' a2)))"

function loop_actions :: "string fset \<Rightarrow> App \<Rightarrow> action list" where
  "loop_actions resumed a =
     (case pending_pass (pending a) [] resumed False a of Inl e \<Rightarrow> []
      | Inr (kept, resumed', made_progress, a1) \<Rightarrow>
          pass_actions (pending a) resumed a @
          (if made_progress then loop_actions resumed' (a1\<lparr>pending := kept\<rparr>) else []))"
  by pat_completeness auto

termination
  by (relation "measure (\<lambda>(resumed, a). length (pending a))") (auto dest: pending_pass_length)

declare loop_actions.simps [simp del]

definition submit_actions :: "Command \<Rightarrow> App \<Rightarrow> action list" where
  "submit_actions cmd a =
     (if fmlookup (txn_ids a) (txn_label cmd) = None \<or> hasPendingForTxn (txn_label cmd) a then []
      else command_actions cmd a)"

text \<open>The end of a transaction, followed by the retry of the waiting commands.\<close>

definition finish_actions :: "string \<Rightarrow> u32 \<Rightarrow> LogType \<Rightarrow> string \<Rightarrow> App \<Rightarrow> action list" where
  "finish_actions label t ty message a =
     (let a1 = a\<lparr>lock_mgr := snd (completeTransaction t (lock_mgr a)),
                 txn_held_resources := fmdrop t (txn_held_resources a)\<rparr>
      in Done t # loop_actions {||} (println (label @ message) (log_event t ty a1)))"

definition read_actions :: "string \<Rightarrow> App \<Rightarrow> action list" where
  "read_actions args a =
     (let (label, args1) = next_word args; (name, _) = next_word args1
      in if label = [] \<or> name = [] then []
         else submit_actions \<lparr>cmd_op = ''READ'', txn_label = label, resource_name = name, cmd_value = 0\<rparr> a)"

definition write_actions :: "string \<Rightarrow> App \<Rightarrow> action list" where
  "write_actions args a =
     (let (label, args1) = next_word args; (name, args2) = next_word args1
      in if label = [] \<or> name = [] then []
         else submit_actions \<lparr>cmd_op = ''WRITE'', txn_label = label, resource_name = name,
                               cmd_value = next_int args2\<rparr> a)"

definition commit_actions :: "string \<Rightarrow> App \<Rightarrow> action list" where
  "commit_actions args a =
     (let (label, _) = next_word args
      in case fmlookup (txn_ids a) label of None \<Rightarrow> []
         | Some t \<Rightarrow>
             (case commitTransaction t (draw (sys_clock a)) (tm a) of
                (False, _) \<Rightarrow> []
              | (True, tm') \<Rightarrow>
                  finish_actions label t COMMIT '' committed'' (a\<lparr>tm := tm', sys_clock := rest (sys_clock a)\<rparr>)))"

definition abort_actions :: "string \<Rightarrow> App \<Rightarrow> action list" where
  "abort_actions args a =
     (let (label, _) = next_word args
      in case fmlookup (txn_ids a) label of None \<Rightarrow> []
         | Some t \<Rightarrow>
             (case abortTransaction t (draw (sys_clock a)) (tm a) of
                (False, _) \<Rightarrow> []
              | (True, tm') \<Rightarrow>
                  finish_actions label t ABORT '' aborted'' (a\<lparr>tm := tm', sys_clock := rest (sys_clock a)\<rparr>)))"

text \<open>RECOVER ends every active transaction; the other commands access nothing under a lock.\<close>

definition line_actions :: "string \<Rightarrow> App \<Rightarrow> action list" where
  "line_actions line a =
     (let (op, args) = next_word line
      in if op = ''READ'' then read_actions args a
         else if op = ''WRITE'' then write_actions args a
         else if op = ''COMMIT'' then commit_actions args a
         else if op = ''ABORT'' then abort_actions args a
         else if op = ''RECOVER'' then map Done (getActiveTransactionIds (tm a))
         else [])"

fun run_actions :: "string list \<Rightarrow> App \<Rightarrow> action list" where
  "run_actions [] a = []"
| "run_actions (line # lines) a =
     line_actions line a @
     (case process_line line a of Inl e \<Rightarrow> []
      | Inr (goes_on, b) \<Rightarrow> if goes_on then run_actions lines b else [])"

end
