(* ===== verification/AppTrace.thy ===== *)
theory AppTrace
  imports AppHistory
begin

text \<open>
  Every function of the command loop is a trace of the actions that the history of the run
  records for it, from the single access of a command to the whole input.
\<close>

section \<open>Every command is a trace of its actions\<close>

text \<open>What the argument carries from one command to the next.\<close>

definition tracked :: "LogRecord list \<Rightarrow> App \<Rightarrow> bool" where
  "tracked rs0 a \<longleftrightarrow> app_inv rs0 a \<and> named a \<and> held_ok a"

lemma tracked_live: "tracked rs0 a \<Longrightarrow> isTransactionActive t (tm a) \<Longrightarrow> t |\<notin>| done_txns a"
  using active_not_done by (auto simp: tracked_def)

lemma tracked_quiet:
  assumes "tracked rs0 a" and "app_steps a b" and "silent a b" and "named b"
    and "txn_held_resources b = txn_held_resources a" and "tm b = tm a"
  shows "tracked rs0 b"
  using assms held_kept [of a b] program.steps_inv [OF assms(2)]
  by (auto simp: tracked_def app_inv_def silent_def)

lemma tracked_same:
  assumes "tracked rs0 a" and "same_core a b" and "resource_ids b = resource_ids a"
    and "txn_held_resources b = txn_held_resources a"
  shows "tracked rs0 b"
proof (rule tracked_quiet [OF assms(1) quiet_steps [OF assms(2)]])
  show "silent a b" using assms(2) by (intro silent_idle) (simp_all add: same_core_def)
qed (use assms in \<open>simp_all add: tracked_def named_def same_core_def\<close>)

lemma same_tables [simp]:
  "resource_ids (println s a) = resource_ids a" "txn_held_resources (println s a) = txn_held_resources a"
  "resource_ids (waiting_message cmd fp a) = resource_ids a"
  "txn_held_resources (waiting_message cmd fp a) = txn_held_resources a"
  "resource_ids (log_event t ty a) = resource_ids a" "txn_held_resources (log_event t ty a) = txn_held_resources a"
  "resource_ids (hold_resource t r a) = resource_ids a"
  by (simp_all add: println_def waiting_message_def log_event_def hold_resource_def)

lemma silent_print [simp]: "silent a (println s a)" "silent a (waiting_message cmd fp a)" "silent a (hold_resource t r a)"
  by (rule silent_idle; simp add: println_def waiting_message_def hold_resource_def)+

lemma tracked_print: "tracked rs0 a \<Longrightarrow> tracked rs0 (println s a)" "tracked rs0 a \<Longrightarrow> tracked rs0 (waiting_message cmd fp a)"
  by (auto intro: tracked_same)

lemma ensureResource_tracked:
  assumes "ensureResource name a = Inr (rid, b)" and "tracked rs0 a"
  shows "silent a b" and "tracked rs0 b" and "recordExists rid (data_store b)"
proof -
  have eff: "silent a b \<and> named b \<and> recordExists rid (data_store b) \<and>
      txn_held_resources b = txn_held_resources a \<and> tm b = tm a"
    using ensureResource_effect [OF assms(1)] assms(2) by (simp add: tracked_def)
  then show "silent a b" "recordExists rid (data_store b)" by simp_all
  show "tracked rs0 b"
    using tracked_quiet [OF assms(2)] ensureResource_steps [OF assms(1)] eff by blast
qed

lemma request_tracked:
  assumes "tracked rs0 a" and "isTransactionActive t (tm a)" and "requestLock t rid ty (lock_mgr a) = (g, lm)"
  shows "silent a (a\<lparr>lock_mgr := lm\<rparr>)" and "tracked rs0 (a\<lparr>lock_mgr := lm\<rparr>)"
proof -
  show s: "silent a (a\<lparr>lock_mgr := lm\<rparr>)"
    using lm_request [OF assms(3)] done_request [of t rid ty "lock_mgr a"] assms(3)
    by (intro silent_same) (auto simp: update_ids_def run_log_def)
  show "tracked rs0 (a\<lparr>lock_mgr := lm\<rparr>)"
  proof (rule tracked_quiet [OF assms(1) _ s])
    show "app_steps a (a\<lparr>lock_mgr := lm\<rparr>)" using request_step [of a a t rid ty] assms(2,3) by simp
  qed (use assms(1) in \<open>simp_all add: tracked_def named_def\<close>)
qed

lemma hold_tracked:
  assumes "tracked rs0 a" and "isTransactionActive t (tm a)" and "hasLock t rid (lock_mgr a)"
  shows "tracked rs0 (hold_resource t rid a)"
proof -
  have "app_inv rs0 (hold_resource t rid a)"
    using program.steps_inv [OF quiet_steps [OF same_core_upd(5)]] assms(1) by (simp add: tracked_def)
  moreover have "named (hold_resource t rid a)" using assms(1) by (simp add: tracked_def named_def hold_resource_def)
  moreover have "held_ok (hold_resource t rid a)"
    using assms by (auto simp: tracked_def held_ok_def hold_resource_def map_at_def split: option.splits if_splits)
  ultimately show ?thesis by (simp add: tracked_def)
qed

lemma granted_has: "requestLock t rid ty lm = (True, lm') \<Longrightarrow> hasLock t rid lm'"
  using requestLock_granted hasLock_holds by blast

text \<open>Up to the access itself READ and WRITE do the same: name, lock, held resource.\<close>

lemma lock_requested:
  assumes "tracked rs0 a" and "isTransactionActive t (tm a)" and "ensureResource name a = Inr (rid, b)"
    and "requestLock t rid ty (lock_mgr b) = (g, lm)"
  shows "silent a (b\<lparr>lock_mgr := lm\<rparr>)" and "tracked rs0 (b\<lparr>lock_mgr := lm\<rparr>)"
proof -
  note eff = ensureResource_tracked [OF assms(3,1)]
  have "isTransactionActive t (tm b)" using ensureResource_steps [OF assms(3)] assms(2) by (simp add: same_txns_def)
  note req = request_tracked [OF eff(2) this assms(4)]
  show "silent a (b\<lparr>lock_mgr := lm\<rparr>)" "tracked rs0 (b\<lparr>lock_mgr := lm\<rparr>)"
    using silent_trans [OF eff(1) req(1)] req(2) by blast+
qed

lemma lock_obtained:
  assumes "tracked rs0 a" and "isTransactionActive t (tm a)" and "ensureResource name a = Inr (rid, b)"
    and "requestLock t rid ty (lock_mgr b) = (True, lm)" and d: "d = hold_resource t rid (b\<lparr>lock_mgr := lm\<rparr>)"
  shows "silent a d" and "tracked rs0 d" and "isTransactionActive t (tm d)" and "recordExists rid (data_store d)"
    and "lock_mgr d = lm" and "data_store d = data_store b"
proof -
  note req = lock_requested [OF assms(1-4)]
  have act: "isTransactionActive t (tm b)"
    using ensureResource_steps [OF assms(3)] assms(2) by (simp add: same_txns_def)
  show "silent a d" unfolding d by (rule silent_trans [OF req(1)]) simp
  show "tracked rs0 d" unfolding d using hold_tracked [OF req(2)] act granted_has assms(4) by simp
  show "isTransactionActive t (tm d)" "recordExists rid (data_store d)" "lock_mgr d = lm" "data_store d = data_store b"
    using act ensureResource_tracked(3) [OF assms(3,1)] by (simp_all add: d hold_resource_def)
qed

lemma refused_trace:
  assumes "tracked rs0 c" and "silent a c"
  shows "trace act_step a [] (waiting_message cmd fp c) \<and> tracked rs0 (waiting_message cmd fp c)"
  using trace_single [of act_step, OF act_silent [OF silent_trans [OF assms(2)]]] tracked_print(2) [OF assms(1)] by simp

lemma execute_read_trace:
  assumes "tracked rs0 a" and "isTransactionActive t (tm a)" and "cmd_op cmd = ''READ''"
    and "execute_read t cmd fp a = Inr (executed, a')"
  shows "trace act_step a (access_actions t cmd a) a' \<and> tracked rs0 a'"
proof -
  obtain rid b where b: "ensureResource (resource_name cmd) a = Inr (rid, b)"
    using assms(4) by (auto simp: execute_read_def split: sum.splits)
  obtain g lm where g: "requestLock t rid SHARED (lock_mgr b) = (g, lm)" by fastforce
  show ?thesis
  proof (cases g)
    case False
    then have "a' = waiting_message cmd fp (b\<lparr>lock_mgr := lm\<rparr>)" "access_actions t cmd a = []"
      using assms(3,4) b g by (simp_all add: execute_read_def access_actions_def)
    then show ?thesis using refused_trace lock_requested [OF assms(1,2) b g] by metis
  next
    case True
    define d where "d = hold_resource t rid (b\<lparr>lock_mgr := lm\<rparr>)"
    note got = lock_obtained [OF assms(1,2) b g [unfolded eqTrueI [OF True]] d_def]
    obtain v s where v: "stored_value rid d = Inr v" and a': "a' = println s d"
      using assms(4) b g True by (auto simp: execute_read_def Let_def d_def split: sum.splits)
    have acts: "access_actions t cmd a = [Read t rid v]"
      using assms(3) b g True v by (simp add: access_actions_def stored_value_def got(6))
    have "hasLock t rid (lock_mgr d)" using granted_has g True got(5) by simp
    then have "act_step d [Read t rid v] d"
      by (rule act_read [OF tracked_live [OF got(2,3)] _ got(4) v])
    then have "trace act_step a [Read t rid v] d" using quiet_begin [OF got(1)] trace_single [of act_step] by blast
    then show ?thesis unfolding acts a' using quiet_end got(2) tracked_print(1) by simp
  qed
qed

lemma int_store_value: "int_store (data_store a) \<Longrightarrow> \<exists>v. stored_value rid a = Inr v"
  using stored_value_total by (simp add: succeeds_def)

lemma update_effect:
  assumes "updateRecord rid (intToBytes v) now ds = Inr (u, ds')" and "recordExists rid ds"
  shows "\<exists>x. getRecord rid ds' = Some x \<and> bytesToInt (getData x) = Inr v"
    and "recordExists r ds' = recordExists r ds" and "r \<noteq> rid \<Longrightarrow> getRecord r ds' = getRecord r ds"
proof -
  obtain x where x: "fmlookup (records ds) rid = Some x"
    using assms(2) by (auto simp: recordExists_def in_fmdom_iff)
  then have ds': "ds' = ds\<lparr>records := fmupd rid (x\<lparr>data := intToBytes v, modified_time := now\<rparr>) (records ds)\<rparr>"
    using assms(1) by (auto simp: updateRecord_def setData_int)
  show "\<exists>x. getRecord rid ds' = Some x \<and> bytesToInt (getData x) = Inr v"
    "recordExists r ds' = recordExists r ds" "r \<noteq> rid \<Longrightarrow> getRecord r ds' = getRecord r ds"
    using x unfolding ds'
    by (auto simp: recordExists_def getRecord_def getData_def bytesToInt_intToBytes in_fmdom_iff)
qed

text \<open>The write itself, with the record of the log.\<close>

lemma write_traced_step:
  assumes "tracked rs0 d" and "isTransactionActive t (tm d)" and "holds_lock (lock_mgr d) t rid EXCLUSIVE"
    and "recordExists rid (data_store d)"
    and u: "updateRecord rid (intToBytes v) now (data_store d) = Inr (b, ds)"
    and e: "e = log_event t UPDATE (d\<lparr>data_store := ds, sys_clock := c\<rparr>)"
  shows "act_step d [Write t rid v] e \<and> tracked rs0 e"
proof -
  obtain w where w: "stored_value rid d = Inr w"
    using int_store_value assms(1) by (auto simp: tracked_def app_inv_def)
  have flds: "data_store e = ds" "lock_mgr e = lock_mgr d" "resource_ids e = resource_ids d"
    "txn_held_resources e = txn_held_resources d" "tm e = tm d"
    by (simp_all add: e log_event_def)
  note eff = update_effect [OF u assms(4)]
  have "act_step d [Write t rid v] e"
  proof (rule act_write [OF tracked_live [OF assms(1,2)] assms(3,4) w])
    show "stored_value rid e = Inr v" "\<forall>r. recordExists r (data_store e) = recordExists r (data_store d)"
      "\<forall>r. r \<noteq> rid \<longrightarrow> stored_value r e = stored_value r d"
      using eff unfolding flds stored_value_def by auto
    show "update_ids e = update_ids d @ [t]" by (simp add: e update_ids_def run_log_def log_event_def)
  qed (rule flds)
  moreover have "app_inv rs0 e"
    unfolding e using program.steps_inv [OF write_steps [OF assms(2,3) u]] assms(1) by (simp add: tracked_def)
  moreover have "named e" using assms(1) eff(2) unfolding tracked_def named_def flds by simp
  moreover have "held_ok e" using assms(1) unfolding tracked_def held_ok_def flds by blast
  ultimately show ?thesis by (simp add: tracked_def)
qed

lemma execute_write_trace:
  assumes "tracked rs0 a" and "isTransactionActive t (tm a)" and "cmd_op cmd = ''WRITE''"
    and "execute_write t cmd fp a = Inr (executed, a')"
  shows "trace act_step a (access_actions t cmd a) a' \<and> tracked rs0 a'"
proof -
  obtain rid b where b: "ensureResource (resource_name cmd) a = Inr (rid, b)"
    using assms(4) by (auto simp: execute_write_def split: sum.splits)
  obtain g lm where g: "requestLock t rid EXCLUSIVE (lock_mgr b) = (g, lm)" by fastforce
  show ?thesis
  proof (cases g)
    case False
    then have "a' = waiting_message cmd fp (b\<lparr>lock_mgr := lm\<rparr>)" "access_actions t cmd a = []"
      using assms(3,4) b g by (simp_all add: execute_write_def access_actions_def)
    then show ?thesis using refused_trace lock_requested [OF assms(1,2) b g] by metis
  next
    case True
    define d where "d = hold_resource t rid (b\<lparr>lock_mgr := lm\<rparr>)"
    define v where "v = cmd_value cmd"
    note got = lock_obtained [OF assms(1,2) b g [unfolded eqTrueI [OF True]] d_def]
    obtain u ds s where u: "updateRecord rid (intToBytes v) (draw (sys_clock d)) (data_store d) = Inr (u, ds)"
      and a': "a' = println s (log_event t UPDATE (d\<lparr>data_store := ds, sys_clock := rest (sys_clock d)\<rparr>))"
      using assms(4) b g True by (auto simp: execute_write_def Let_def v_def d_def split: sum.splits)
    have acts: "access_actions t cmd a = [Write t rid v]"
      using assms(3) b g True by (simp add: access_actions_def v_def)
    have "holds_lock (lock_mgr d) t rid EXCLUSIVE" using granted_exclusive g True got(5) by simp
    note step = write_traced_step [OF got(2,3) this got(4) u refl]
    then have "trace act_step a [Write t rid v] (log_event t UPDATE (d\<lparr>data_store := ds, sys_clock := rest (sys_clock d)\<rparr>))"
      using quiet_begin [OF got(1)] trace_single [of act_step] by blast
    then show ?thesis unfolding acts a' using quiet_end step tracked_print(1) by simp
  qed
qed

lemma executeCommand_trace:
  assumes "tracked rs0 a" and "executeCommand cmd fp a = Inr (executed, a')"
  shows "trace act_step a (command_actions cmd a) a' \<and> tracked rs0 a'"
proof (cases "\<exists>t. fmlookup (txn_ids a) (txn_label cmd) = Some t \<and> isTransactionActive t (tm a)")
  case False
  then show ?thesis
    using assms by (auto simp: executeCommand_def command_actions_def trace_nil split: option.splits if_splits)
next
  case True
  then obtain t where t: "fmlookup (txn_ids a) (txn_label cmd) = Some t" "isTransactionActive t (tm a)" by blast
  have c: "command_actions cmd a = access_actions t cmd a" by (simp add: command_actions_def t)
  consider "cmd_op cmd = ''READ''" | "cmd_op cmd = ''WRITE''" | "cmd_op cmd \<noteq> ''READ'' \<and> cmd_op cmd \<noteq> ''WRITE''" by blast
  then show ?thesis
  proof cases
    case 1
    then have "execute_read t cmd fp a = Inr (executed, a')" using assms(2) t by (simp add: executeCommand_def)
    then show ?thesis unfolding c by (rule execute_read_trace [OF assms(1) t(2) 1])
  next
    case 2
    then have "execute_write t cmd fp a = Inr (executed, a')" using assms(2) t by (simp add: executeCommand_def)
    then show ?thesis unfolding c by (rule execute_write_trace [OF assms(1) t(2) 2])
  next
    case 3
    then have "a' = a" "access_actions t cmd a = []"
      using assms(2) t by (auto simp: executeCommand_def access_actions_def split: sum.split)
    then show ?thesis using assms(1) c trace_nil [of act_step a] by simp
  qed
qed

lemma announce_tracked:
  assumes "announce cmd t resumed a = Inr (resumed', b)" and "tracked rs0 a"
  shows "silent a b \<and> tracked rs0 b"
proof (cases "txn_label cmd |\<notin>| resumed \<and> resource_name cmd \<noteq> []")
  case True
  then obtain rid c where c: "ensureResource (resource_name cmd) a = Inr (rid, c)"
    and b: "b = c \<or> b = println (txn_label cmd @ '' resumes'') c"
    using assms(1) by (auto simp: announce_def split: sum.splits if_splits)
  note eff = ensureResource_tracked [OF c assms(2)]
  from b show ?thesis using eff silent_trans [OF eff(1) silent_print(1)] tracked_print(1) [OF eff(2)] by auto
next
  case False
  then show ?thesis using assms silent_idle [of a a] by (auto simp: announce_def)
qed

lemma pending_pass_trace:
  "pending_pass cmds kept resumed mp a = Inr (kept', resumed', mp', b) \<Longrightarrow> tracked rs0 a \<Longrightarrow>
   trace act_step a (pass_actions cmds resumed a) b \<and> tracked rs0 b"
proof (induction cmds arbitrary: kept resumed mp a)
  case Nil
  then show ?case by (simp add: trace_nil)
next
  case (Cons cmd cmds)
  show ?case
  proof (cases "\<exists>t. fmlookup (txn_ids a) (txn_label cmd) = Some t \<and> isTransactionActive t (tm a)")
    case False
    then have "pending_pass cmds kept resumed mp a = Inr (kept', resumed', mp', b)"
      "pass_actions (cmd # cmds) resumed a = pass_actions cmds resumed a"
      using Cons.prems by (auto split: option.splits)
    then show ?thesis using Cons.IH Cons.prems(2) by metis
  next
    case True
    then obtain t res1 a1 ex a2 where t: "fmlookup (txn_ids a) (txn_label cmd) = Some t" "isTransactionActive t (tm a)"
      and a1: "announce cmd t resumed a = Inr (res1, a1)" and a2: "executeCommand cmd True a1 = Inr (ex, a2)"
      and tail: "(if ex then pending_pass cmds kept res1 True a2
        else pending_pass cmds (kept @ [cmd]) res1 mp a2) = Inr (kept', resumed', mp', b)"
      using Cons.prems by (auto split: sum.splits)
    have acts: "pass_actions (cmd # cmds) resumed a = command_actions cmd a1 @ pass_actions cmds res1 a2"
      using t a1 a2 by simp
    note ann = announce_tracked [OF a1 Cons.prems(2)]
    then have run: "trace act_step a1 (command_actions cmd a1) a2 \<and> tracked rs0 a2"
      using executeCommand_trace [OF _ a2] by blast
    have "trace act_step a2 (pass_actions cmds res1 a2) b \<and> tracked rs0 b"
      using tail Cons.IH [of kept res1 True a2] Cons.IH [of "kept @ [cmd]" res1 mp a2] run by (cases ex) auto
    then show ?thesis unfolding acts using ann run quiet_begin trace_append by metis
  qed
qed

lemma process_loop_trace:
  "process_loop resumed a = Inr b \<Longrightarrow> tracked rs0 a \<Longrightarrow>
   trace act_step a (loop_actions resumed a) b \<and> tracked rs0 b"
proof (induction resumed a rule: process_loop.induct)
  case (1 resumed a)
  obtain kept res1 mp a1 where p: "pending_pass (pending a) [] resumed False a = Inr (kept, res1, mp, a1)"
    and tail: "(if mp then process_loop res1 (a1\<lparr>pending := kept\<rparr>) else Inr (a1\<lparr>pending := kept\<rparr>)) = Inr b"
    using 1(2) by (subst (asm) process_loop.simps) (auto simp: Let_def split: sum.splits)
  let ?a2 = "a1\<lparr>pending := kept\<rparr>"
  note pass = pending_pass_trace [OF p 1(3)]
  then have a2: "tracked rs0 ?a2" by (blast intro: tracked_same [of rs0 a1 ?a2, simplified])
  have run: "trace act_step a (pass_actions (pending a) resumed a) ?a2"
    by (rule quiet_end [OF conjunct1 [OF pass] silent_idle]) simp_all
  have acts: "loop_actions resumed a =
      pass_actions (pending a) resumed a @ (if mp then loop_actions res1 ?a2 else [])"
    using p by (subst loop_actions.simps) simp
  show ?case
  proof (cases mp)
    case True
    then have "trace act_step ?a2 (loop_actions res1 ?a2) b \<and> tracked rs0 b"
      using 1(1) [OF p refl refl refl refl True _ a2] tail by simp
    then show ?thesis unfolding acts using run True trace_append [of act_step] by auto
  next
    case False
    then show ?thesis unfolding acts using run tail a2 by auto
  qed
qed

lemma submit_trace:
  assumes "submit cmd a = Inr b" and "tracked rs0 a"
  shows "trace act_step a (submit_actions cmd a) b \<and> tracked rs0 b"
proof (cases "fmlookup (txn_ids a) (txn_label cmd) = None \<or> hasPendingForTxn (txn_label cmd) a")
  case True
  then have "same_core a b" "resource_ids b = resource_ids a" "txn_held_resources b = txn_held_resources a"
    using assms(1) by (auto simp: submit_def same_core_def println_def split: if_splits)
  moreover from this have "silent a b" by (intro silent_idle) (simp_all add: same_core_def)
  moreover have "submit_actions cmd a = []" using True by (simp add: submit_actions_def)
  ultimately show ?thesis using tracked_same [OF assms(2)] trace_single [of act_step, OF act_silent] by simp
next
  case False
  then obtain ex c where c: "executeCommand cmd False a = Inr (ex, c)"
    and b: "b = (if ex then c else c\<lparr>pending := pending c @ [cmd]\<rparr>)"
    using assms(1) by (auto simp: submit_def split: sum.splits if_splits)
  have "submit_actions cmd a = command_actions cmd a" using False unfolding submit_actions_def by (rule if_not_P)
  moreover note run = executeCommand_trace [OF assms(2) c]
  moreover have "silent c b" by (rule silent_idle) (simp_all add: b)
  moreover have "tracked rs0 b" by (rule tracked_same [OF conjunct2 [OF run]]) (simp_all add: b)
  ultimately show ?thesis using quiet_end by metis
qed

text \<open>The end of a transaction: its outcome is logged, its locks and held resources are dropped.\<close>

lemma finish_tracked:
  assumes "tracked rs0 a" and "ty \<noteq> UPDATE"
    and "app_step a (log_event t ty (a\<lparr>tm := tm', lock_mgr := snd (completeTransaction t (lock_mgr a))\<rparr>))"
    and "\<And>x. isTransactionActive x tm' \<longleftrightarrow> x \<noteq> t \<and> isTransactionActive x (tm a)"
    and b: "b = println s (log_event t ty (a\<lparr>tm := tm', sys_clock := c,
      lock_mgr := snd (completeTransaction t (lock_mgr a)), txn_held_resources := fmdrop t (txn_held_resources a)\<rparr>))"
  shows "act_step a [Done t] b \<and> tracked rs0 b"
proof -
  let ?b = "log_event t ty (a\<lparr>tm := tm', lock_mgr := snd (completeTransaction t (lock_mgr a))\<rparr>)"
  have same: "same_core ?b b" by (simp add: b same_core_def println_def log_event_def)
  have inv: "app_inv rs0 b"
    using program.steps_inv [OF quiet_steps [OF same]] program.inv_step [OF _ assms(3)] assms(1)
    by (simp add: tracked_def)
  have flds: "lock_mgr b = snd (completeTransaction t (lock_mgr a))" "tm b = tm'" "data_store b = data_store a"
    "resource_ids b = resource_ids a" "txn_held_resources b = fmdrop t (txn_held_resources a)"
    by (simp_all add: b println_def log_event_def)
  have upd: "update_ids b = update_ids a"
    using assms(2) by (simp add: b update_ids_def run_log_def println_def log_event_def)
  have step: "lm_step (lock_mgr a) (lock_mgr b)" using lm_complete unfolding flds(1) by (metis prod.collapse)
  have "hasLock x r (lock_mgr b)" if "isTransactionActive x (tm b)" "hasLock x r (lock_mgr a)" for x r
    using lm_step_holder [OF step, of x r] active_not_done [OF inv that(1)] that(2) by blast
  then have "held_ok b"
    using assms(1,4) unfolding tracked_def held_ok_def flds(2,5) by auto
  moreover have "named b" using assms(1) by (simp add: tracked_def named_def flds)
  moreover have "act_step a [Done t] b" by (rule act_done [OF flds(1,3) upd])
  ultimately show ?thesis using inv by (simp add: tracked_def)
qed

lemma finish_trace:
  assumes "tracked rs0 a" and "ty \<noteq> UPDATE"
    and "app_step a (log_event t ty (a\<lparr>tm := tm', lock_mgr := snd (completeTransaction t (lock_mgr a))\<rparr>))"
    and "\<And>x. isTransactionActive x tm' \<longleftrightarrow> x \<noteq> t \<and> isTransactionActive x (tm a)"
    and "finish label t ty msg (a\<lparr>tm := tm', sys_clock := c\<rparr>) = Inr b"
  shows "trace act_step a (finish_actions label t ty msg (a\<lparr>tm := tm', sys_clock := c\<rparr>)) b \<and> tracked rs0 b"
proof -
  define d where "d = println (label @ msg) (log_event t ty (a\<lparr>tm := tm', sys_clock := c,
    lock_mgr := snd (completeTransaction t (lock_mgr a)), txn_held_resources := fmdrop t (txn_held_resources a)\<rparr>))"
  have d: "act_step a [Done t] d \<and> tracked rs0 d" using finish_tracked [OF assms(1-4) d_def] .
  moreover have "process_loop {||} d = Inr b"
    using assms(5) by (simp add: finish_def processPending_def Let_def d_def)
  ultimately have "trace act_step d (loop_actions {||} d) b \<and> tracked rs0 b" using process_loop_trace by blast
  moreover have "finish_actions label t ty msg (a\<lparr>tm := tm', sys_clock := c\<rparr>) = [Done t] @ loop_actions {||} d"
    by (simp add: finish_actions_def Let_def d_def)
  ultimately show ?thesis using d trace_cons [of act_step a "[Done t]" d] by simp
qed

lemma complete_all_trace: "trace act_step a (map Done ts) (complete_all ts a)"
proof (induction ts a rule: complete_all.induct)
  case (2 t ts a)
  let ?b = "a\<lparr>lock_mgr := snd (completeTransaction t (lock_mgr a)), txn_held_resources := fmdrop t (txn_held_resources a)\<rparr>"
  have "act_step a [Done t] ?b" by (rule act_done) (simp_all add: update_ids_def run_log_def)
  then show ?case using 2 trace_cons [of act_step a "[Done t]" ?b] by simp
qed (simp add: trace_nil)

lemma complete_all_held:
  "fmlookup (txn_held_resources (complete_all ts a)) t =
     (if t \<in> set ts then None else fmlookup (txn_held_resources a) t)"
  by (induction ts a rule: complete_all.induct) auto

lemma active_listed: "isTransactionActive t m \<Longrightarrow> t \<in> set (getActiveTransactionIds m)"
  by (auto simp: isTransactionActive_def getActiveTransactionIds_def in_fmdom_iff split: option.splits)

lemma recover_trace:
  assumes "cmd_recover a = Inr b" and "tracked rs0 a"
  shows "trace act_step a (map Done (getActiveTransactionIds (tm a))) b \<and> tracked rs0 b"
proof -
  let ?ids = "getActiveTransactionIds (tm a)"
  define a1 where "a1 = a\<lparr>tm := abortAllTransactions (sys_clock a) (tm a), sys_clock := (rest ^^ length ?ids) (sys_clock a)\<rparr>"
  have flds: "lock_mgr b = lock_mgr (complete_all ?ids a1)" "data_store b = data_store a"
    "resource_ids b = resource_ids a" "txn_held_resources b = txn_held_resources (complete_all ?ids a1)"
    using assms(1) by (auto simp: cmd_recover_def Let_def complete_all_frame println_def a1_def split: sum.splits)
  obtain us where "run_log b = run_log a @ us" "\<forall>r\<in>set us. getLogType r = ABORT"
    using recover_log [OF assms(1)] assms(2) by (metis app_inv_def tracked_def)
  then have upd: "update_ids b = update_ids a" by (simp add: update_ids_def filter_empty_conv)
  have ends: "trace act_step a (map Done ?ids) (complete_all ?ids a1)"
    using quiet_begin [OF silent_idle complete_all_trace, of a1 a] by (simp add: a1_def)
  have "silent (complete_all ?ids a1) b"
    by (rule silent_same)
      (simp_all add: flds upd complete_all_frame a1_def, simp add: update_ids_def run_log_def complete_all_frame)
  then have "trace act_step a (map Done ?ids) b" by (rule quiet_end [OF ends])
  moreover have "fmlookup (txn_held_resources b) t = None" for t
    using assms(2) active_listed [of t "tm a"]
    by (cases "fmlookup (txn_held_resources a) t") (auto simp: flds complete_all_held a1_def tracked_def held_ok_def)
  then have "held_ok b" by (simp add: held_ok_def)
  moreover have "named b" using assms(2) by (simp add: tracked_def named_def flds)
  moreover have "app_inv rs0 b" using program.inv_step [OF _ app_recover [OF assms(1)]] assms(2) by (simp add: tracked_def)
  ultimately show ?thesis by (simp add: tracked_def)
qed

lemma begin_tracked:
  assumes "tracked rs0 a" and "next_transaction_id (tm a) \<noteq> -1"
  shows "silent a (cmd_begin args a) \<and> tracked rs0 (cmd_begin args a)"
proof -
  let ?b = "cmd_begin args a"
  have flds: "lock_mgr ?b = lock_mgr a" "data_store ?b = data_store a" "resource_ids ?b = resource_ids a"
    "txn_held_resources ?b = txn_held_resources a" "update_ids ?b = update_ids a"
    by (simp_all add: cmd_begin_def case_prod_beta Let_def println_def log_event_def update_ids_def run_log_def)
  have "isTransactionActive t (tm a) \<Longrightarrow> isTransactionActive t (tm ?b)" for t
    using cmd_begin_tm [of args a]
    by (auto simp: beginTransaction_def Let_def isTransactionActive_def transaction_defs split: option.splits if_splits)
  then have "held_ok ?b" using assms(1) unfolding tracked_def held_ok_def flds by blast
  moreover have "named ?b" using assms(1) by (simp add: tracked_def named_def flds)
  moreover have "app_inv rs0 ?b" using program.inv_step [OF _ app_begin [OF assms(2)]] assms(1) by (simp add: tracked_def)
  moreover have "silent a ?b" by (rule silent_same) (simp_all add: flds)
  ultimately show ?thesis by (simp add: tracked_def)
qed

text \<open>The command lines.\<close>

abbreviation traced :: "LogRecord list \<Rightarrow> App \<Rightarrow> action list \<Rightarrow> App \<Rightarrow> bool" where
  "traced rs0 a acts b \<equiv> trace act_step a acts b \<and> tracked rs0 b"

lemma quiet_traced: "silent a b \<Longrightarrow> tracked rs0 b \<Longrightarrow> traced rs0 a [] b"
  using trace_single [of act_step, OF act_silent] by blast

lemma same_traced:
  assumes "tracked rs0 a" and "same_core a b" and "resource_ids b = resource_ids a"
    and "txn_held_resources b = txn_held_resources a"
  shows "traced rs0 a [] b"
proof (rule quiet_traced)
  show "silent a b" using assms(2) by (intro silent_idle) (simp_all add: same_core_def)
qed (rule tracked_same [OF assms])

lemma print_traced: "tracked rs0 a \<Longrightarrow> traced rs0 a [] (println s a)"
  by (rule same_traced) simp_all

lemma read_traced:
  assumes "cmd_read args a = Inr b" and "tracked rs0 a"
  shows "traced rs0 a (read_actions args a) b"
proof -
  obtain label args1 name args2 where w: "next_word args = (label, args1)" "next_word args1 = (name, args2)" by fastforce
  show ?thesis
  proof (cases "label = [] \<or> name = []")
    case True
    then show ?thesis using assms print_traced by (auto simp: cmd_read_def read_actions_def w)
  next
    case False
    then have "submit \<lparr>cmd_op = ''READ'', txn_label = label, resource_name = name, cmd_value = 0\<rparr> a = Inr b"
      using assms(1) by (simp add: cmd_read_def w)
    from submit_trace [OF this assms(2)] show ?thesis using False by (simp add: read_actions_def w)
  qed
qed

lemma write_traced:
  assumes "cmd_write args a = Inr b" and "tracked rs0 a"
  shows "traced rs0 a (write_actions args a) b"
proof -
  obtain label args1 name args2 where w: "next_word args = (label, args1)" "next_word args1 = (name, args2)" by fastforce
  show ?thesis
  proof (cases "label = [] \<or> name = []")
    case True
    then show ?thesis using assms print_traced by (auto simp: cmd_write_def write_actions_def w)
  next
    case False
    then have "submit \<lparr>cmd_op = ''WRITE'', txn_label = label, resource_name = name, cmd_value = next_int args2\<rparr> a = Inr b"
      using assms(1) by (simp add: cmd_write_def w)
    from submit_trace [OF this assms(2)] show ?thesis using False by (simp add: write_actions_def w)
  qed
qed

lemma commit_traced:
  assumes "cmd_commit args a = Inr b" and "tracked rs0 a"
  shows "traced rs0 a (commit_actions args a) b"
proof -
  obtain label args1 where w: "next_word args = (label, args1)" by fastforce
  consider s where "b = println s a" "commit_actions args a = []"
    | t tm' where "commitTransaction t (draw (sys_clock a)) (tm a) = (True, tm')"
      "finish label t COMMIT '' committed'' (a\<lparr>tm := tm', sys_clock := rest (sys_clock a)\<rparr>) = Inr b"
      "commit_actions args a = finish_actions label t COMMIT '' committed'' (a\<lparr>tm := tm', sys_clock := rest (sys_clock a)\<rparr>)"
    using assms(1) by (auto simp: cmd_commit_def commit_actions_def w split: option.splits prod.splits bool.splits)
  then show ?thesis
  proof cases
    case 1
    then show ?thesis using print_traced [OF assms(2)] by simp
  next
    case (2 t tm')
    from finish_trace [OF assms(2) _ app_commit [OF 2(1)] finish_live(2) [OF disjI1 [OF 2(1)]] 2(2)]
    show ?thesis unfolding 2(3) by simp
  qed
qed

lemma abort_traced:
  assumes "cmd_abort args a = Inr b" and "tracked rs0 a"
  shows "traced rs0 a (abort_actions args a) b"
proof -
  obtain label args1 where w: "next_word args = (label, args1)" by fastforce
  consider s where "b = println s a" "abort_actions args a = []"
    | t tm' where "abortTransaction t (draw (sys_clock a)) (tm a) = (True, tm')"
      "finish label t ABORT '' aborted'' (a\<lparr>tm := tm', sys_clock := rest (sys_clock a)\<rparr>) = Inr b"
      "abort_actions args a = finish_actions label t ABORT '' aborted'' (a\<lparr>tm := tm', sys_clock := rest (sys_clock a)\<rparr>)"
    using assms(1) by (auto simp: cmd_abort_def abort_actions_def w split: option.splits prod.splits bool.splits)
  then show ?thesis
  proof cases
    case 1
    then show ?thesis using print_traced [OF assms(2)] by simp
  next
    case (2 t tm')
    from finish_trace [OF assms(2) _ app_abort [OF 2(1)] finish_live(2) [OF disjI2 [OF 2(1)]] 2(2)]
    show ?thesis unfolding 2(3) by simp
  qed
qed

lemma show_traced:
  assumes "cmd_show args a = Inr b" and "tracked rs0 a"
  shows "traced rs0 a [] b"
proof -
  consider s where "b = println s a" | name rid c s where "ensureResource name a = Inr (rid, c)" "b = println s c"
    using assms(1) by (auto simp: cmd_show_def case_prod_beta split: if_splits sum.splits)
  then show ?thesis
  proof cases
    case 1
    then show ?thesis using print_traced [OF assms(2)] by simp
  next
    case (2 name rid c s)
    note eff = ensureResource_tracked [OF 2(1) assms(2)]
    show ?thesis unfolding 2(2) by (rule quiet_traced [OF silent_trans [OF eff(1)]]) (simp_all add: eff tracked_print)
  qed
qed

lemma checkpoint_traced:
  assumes "tracked rs0 a"
  shows "traced rs0 a [] (cmd_checkpoint a)"
proof -
  let ?b = "cmd_checkpoint a"
  have flds: "lock_mgr ?b = lock_mgr a" "data_store ?b = data_store a" "resource_ids ?b = resource_ids a"
    "txn_held_resources ?b = txn_held_resources a" "tm ?b = tm a" "update_ids ?b = update_ids a"
    by (simp_all add: cmd_checkpoint_def Let_def println_def log_event_def update_ids_def run_log_def)
  have s: "silent a ?b" by (rule silent_same) (simp_all add: flds)
  have "app_steps a ?b" by (rule r_into_rtranclp) (rule app_checkpoint)
  then have "tracked rs0 ?b"
    by (rule tracked_quiet [OF assms _ s]) (use assms in \<open>simp_all add: flds tracked_def named_def\<close>)
  then show ?thesis by (rule quiet_traced [OF s])
qed

lemmas line_traced = recover_trace read_traced write_traced commit_traced abort_traced show_traced

lemma process_line_trace:
  assumes "process_line line a = Inr (go, b)" and "tracked rs0 a" and "next_transaction_id (tm a) \<noteq> -1"
  shows "traced rs0 a (line_actions line a) b"
proof -
  obtain cmd args where nw: "next_word line = (cmd, args)" by fastforce
  have empty: "line = [] \<Longrightarrow> cmd = []" using nw by (auto simp: next_word_def)
  consider
    "line_actions line a = []" "same_core a b" "resource_ids b = resource_ids a" "txn_held_resources b = txn_held_resources a"
    | "line_actions line a = []" "b = cmd_begin args a"
    | "line_actions line a = []" "b = cmd_checkpoint a"
    | "line_actions line a = map Done (getActiveTransactionIds (tm a))" "cmd_recover a = Inr b"
    | "line_actions line a = read_actions args a" "cmd_read args a = Inr b"
    | "line_actions line a = write_actions args a" "cmd_write args a = Inr b"
    | "line_actions line a = commit_actions args a" "cmd_commit args a = Inr b"
    | "line_actions line a = abort_actions args a" "cmd_abort args a = Inr b"
    | "line_actions line a = []" "cmd_show args a = Inr b"
    using assms(1) empty unfolding process_line_def line_actions_def nw Let_def prod.case
    by (simp split: if_splits) (auto dest: map_go simp: printHelp_def cmd_status_def)
  then show ?thesis
  proof cases
    case 1
    then show ?thesis using same_traced [OF assms(2)] by simp
  next
    case 2
    then show ?thesis using begin_tracked [OF assms(2,3)] quiet_traced by metis
  next
    case 3
    then show ?thesis using checkpoint_traced [OF assms(2)] by simp
  qed (metis assms(2) line_traced)+
qed

lemma command_loop_trace:
  "command_loop lines a = Inr b \<Longrightarrow> tracked rs0 a \<Longrightarrow>
   unat (next_transaction_id (tm a)) + length lines < 2 ^ 32 \<Longrightarrow> traced rs0 a (run_actions lines a) b"
proof (induction lines arbitrary: a)
  case Nil
  then show ?case by (simp add: trace_nil)
next
  case (Cons line lines)
  have n: "next_transaction_id (tm a) \<noteq> -1" by (rule room_not_max) (use Cons.prems(3) in simp)
  obtain go c where c: "process_line line a = Inr (go, c)"
    and tail: "(if go then command_loop lines c else Inr c) = Inr b"
    using Cons.prems(1) by (auto split: sum.splits)
  note step = process_line_trace [OF c Cons.prems(2) n]
  show ?case
  proof (cases go)
    case True
    have "unat (next_transaction_id (tm c)) \<le> Suc (unat (next_transaction_id (tm a)))"
      using process_line_next [OF c] unat_add_one [OF n] by auto
    then have "traced rs0 c (run_actions lines c) b" using Cons.IH [of c] tail True step Cons.prems(3) by simp
    then show ?thesis using step True c trace_append [of act_step] by auto
  next
    case False
    then show ?thesis using step tail c by simp
  qed
qed

lemma start_tracked: "good_start rs0 env \<Longrightarrow> tracked rs0 (printHelp (start_app env))"
  using app_inv_start
  by (simp add: tracked_def named_def held_ok_def printHelp_def println_def start_app_def)

end
