(* ===== verification/AppSerial.thy ===== *)
theory AppSerial
  imports AppTrace
begin

text \<open>
  Serializability of the whole program: the actions of a run are the accesses of a strict
  locking, so their conflicts follow the order in which the transactions end, and the run
  has the outcome of running the transactions one after the other in that order.
\<close>

section \<open>The actions are the accesses and completions of strict locking\<close>

lemma completed_after [simp]:
  "t |\<in>| completed_txns (snd (completeTransaction x lm)) \<longleftrightarrow> t = x \<or> t |\<in>| completed_txns lm"
  by (auto simp: done_complete)

lemma act_step_locks: "act_step a acts b \<Longrightarrow> lm_step\<^sup>*\<^sup>* (lock_mgr a) (lock_mgr b)"
proof (induction rule: act_step.induct)
  case (act_done b t a)
  then show ?case using lm_complete by (metis prod.collapse r_into_rtranclp)
qed (simp_all add: silent_def)

lemma lm_steps_writer:
  "lm_step\<^sup>*\<^sup>* lm lm' \<Longrightarrow> holds_lock lm t rid EXCLUSIVE \<Longrightarrow> t |\<in>| completed_txns lm' \<or> holds_lock lm' t rid EXCLUSIVE"
  by (induction rule: rtranclp_induct) (auto dest: lm_step_writer)

lemma lm_steps_holder:
  "lm_step\<^sup>*\<^sup>* lm lm' \<Longrightarrow> hasLock t rid lm \<Longrightarrow> t |\<in>| completed_txns lm' \<or> hasLock t rid lm'"
  by (induction rule: rtranclp_induct) (auto dest: lm_step_holder)

definition event_step :: "App \<Rightarrow> event list \<Rightarrow> App \<Rightarrow> bool" where
  "event_step a es b \<longleftrightarrow> (\<exists>acts. es = map lock_event acts \<and> act_step a acts b)"

lemma event_trace: "trace act_step a acts b \<Longrightarrow> trace event_step a (map lock_event acts) b"
  using trace_map [of act_step a acts b lock_event] by (simp add: event_step_def [abs_def])

interpretation accesses: strict_locking event_step
    "\<lambda>a. holds_lock (lock_mgr a)" "\<lambda>a t. t |\<in>| done_txns a" "\<lambda>a. lm_inv (lock_mgr a)"
proof
  fix a b es t r y t'
  assume "event_step a es b"
  then obtain acts where es: "es = map lock_event acts" and step: "act_step a acts b" by (auto simp: event_step_def)
  note locks = act_step_locks [OF step]
  show "es = [] \<or> (\<exists>e. es = [e])" using step es by cases auto
  show "lm_inv (lock_mgr a) \<Longrightarrow> lm_inv (lock_mgr b)" using lock_mgr.steps_inv [OF locks] .
  show "t |\<in>| done_txns b \<longleftrightarrow> t |\<in>| done_txns a \<or> es = [Finish t]"
    using step es by cases (auto simp: silent_def)
  show "\<not> t |\<in>| done_txns b \<Longrightarrow> holds_lock (lock_mgr a) t r EXCLUSIVE \<Longrightarrow> holds_lock (lock_mgr b) t r EXCLUSIVE"
    using lm_steps_writer [OF locks] by blast
  show "\<not> t |\<in>| done_txns b \<Longrightarrow> holds_lock (lock_mgr a) t r y \<Longrightarrow> \<exists>y'. holds_lock (lock_mgr b) t r y'"
    using lm_steps_holder [OF locks] hasLock_holds by blast
next
  fix a b t r y
  assume "event_step a [Access t r y] b"
  then obtain x where x: "lock_event x = Access t r y" and step: "act_step a [x] b" by (auto simp: event_step_def)
  from step x show "\<not> t |\<in>| done_txns b \<and> (\<exists>y'. holds_lock (lock_mgr b) t r y') \<and>
      (y = EXCLUSIVE \<longrightarrow> holds_lock (lock_mgr b) t r EXCLUSIVE)"
    by cases (auto simp: hasLock_holds)
next
  fix a t r t' y
  show "lm_inv (lock_mgr a) \<Longrightarrow> holds_lock (lock_mgr a) t r EXCLUSIVE \<Longrightarrow> holds_lock (lock_mgr a) t' r y \<Longrightarrow> t' = t"
    using exclusive_alone hasLock_holds by blast
qed

section \<open>The history explains the data\<close>

text \<open>A memory agrees with the store; a resource not yet created has one of the two initial values.\<close>

definition agrees :: "memory \<Rightarrow> App \<Rightarrow> bool" where
  "agrees m a \<longleftrightarrow> (\<forall>r. if recordExists r (data_store a) then stored_value r a = Inr (m r) else m r \<in> {0, 10})"

lemma act_step_explained:
  assumes "act_step a acts b" and "agrees m b"
  shows "\<exists>m0. agrees m0 a \<and> legal m0 acts \<and> outcome m0 acts = m"
  using assms
proof cases
  case act_silent
  have "agrees m a"
    using act_silent(2) assms(2) unfolding agrees_def silent_def
    by (metis (no_types, lifting) insert_iff singletonD sum.inject(2))
  then show ?thesis using act_silent by auto
next
  case (act_read t rid v)
  then have "m rid = v" using assms(2) by (auto simp: agrees_def split: if_splits)
  then show ?thesis using act_read assms(2) by auto
next
  case (act_write t rid u v)
  have "agrees (m(rid := u)) a"
    using act_write assms(2) [unfolded agrees_def] unfolding agrees_def by (metis fun_upd_apply)
  moreover have "m rid = v" using assms(2) act_write by (metis agrees_def sum.inject(2))
  ultimately show ?thesis
    using act_write(1) by (intro exI [of _ "m(rid := u)"]) (auto simp: fun_upd_idem)
next
  case (act_done t)
  have same: "stored_value r b = stored_value r a" for r using act_done by (simp add: stored_value_def)
  have "agrees m a" using assms(2) unfolding agrees_def act_done(3) same .
  then show ?thesis using act_done by auto
qed

lemma trace_explained:
  "trace act_step a acts b \<Longrightarrow> agrees m b \<Longrightarrow> \<exists>m0. agrees m0 a \<and> legal m0 acts \<and> outcome m0 acts = m"
proof (induction arbitrary: m rule: trace.induct)
  case (trace_nil a)
  then show ?case by auto
next
  case (trace_cons a es u fs b)
  then obtain m1 where m1: "agrees m1 u" "legal m1 fs" "outcome m1 fs = m" by blast
  then obtain m0 where "agrees m0 a" "legal m0 es" "outcome m0 es = m1"
    using act_step_explained [OF trace_cons(1)] by blast
  then show ?case using m1 by (intro exI [of _ m0]) simp
qed

fun is_write :: "action \<Rightarrow> bool" where
  "is_write (Write t r v) = True"
| "is_write _ = False"

lemma trace_updates:
  "trace act_step a acts b \<Longrightarrow> update_ids b = update_ids a @ map action_txn (filter is_write acts)"
proof (induction rule: trace.induct)
  case (trace_cons a es u fs b)
  from trace_cons(1) have "update_ids u = update_ids a @ map action_txn (filter is_write es)"
    by cases (simp_all add: silent_def)
  then show ?case using trace_cons(3) by simp
qed simp

text \<open>From an empty store, the final data is the outcome of the history on initial values.\<close>

lemma trace_outcome:
  assumes "trace act_step a h b" and "int_store (data_store b)" and "\<And>r. \<not> recordExists r (data_store a)"
  shows "\<exists>init. range init \<subseteq> {0, 10} \<and> legal init h \<and> (\<forall>r. stored_value r b = Inr (outcome init h r))"
proof -
  have "\<forall>r. \<exists>v. stored_value r b = Inr v" using int_store_value [OF assms(2)] by blast
  then obtain m where m: "\<forall>r. stored_value r b = Inr (m r)" by metis
  have "m r = 0" if "\<not> recordExists r (data_store b)" for r
    using m that by (auto simp: stored_value_def recordExists_def getRecord_def in_fmdom_iff
        split: option.splits dest!: spec [of _ r])
  then have "agrees m b" using m by (simp add: agrees_def)
  then obtain m0 where "agrees m0 a" "legal m0 h" "outcome m0 h = m" using trace_explained [OF assms(1)] by blast
  then show ?thesis using m assms(3) by (intro exI [of _ m0]) (auto simp: agrees_def)
qed

text \<open>A run of the program as a trace from its first state.\<close>

abbreviation run_start :: "Environment \<Rightarrow> App" where
  "run_start env \<equiv> printHelp (start_app env)"

lemma run_traced:
  assumes "good_start rs0 env" and "length lines + 1 < 2 ^ 32" and "command_loop lines (run_start env) = Inr b"
  shows "traced rs0 (run_start env) (run_actions lines (run_start env)) b"
    and "lm_inv (lock_mgr (run_start env))"
proof -
  have start: "tracked rs0 (run_start env)" by (rule start_tracked [OF assms(1)])
  have "unat (next_transaction_id (tm (run_start env))) + length lines < 2 ^ 32"
    using assms(2) start_next [of env] by simp
  then show "traced rs0 (run_start env) (run_actions lines (run_start env)) b"
    by (rule command_loop_trace [OF assms(3) start])
  show "lm_inv (lock_mgr (run_start env))" using start by (simp add: tracked_def app_inv_def)
qed

lemma run_explained:
  assumes "good_start rs0 env" and "length lines + 1 < 2 ^ 32" and "command_loop lines (run_start env) = Inr b"
  shows "\<exists>init. range init \<subseteq> {0, 10} \<and> legal init (run_actions lines (run_start env)) \<and>
    (\<forall>r. stored_value r b = Inr (outcome init (run_actions lines (run_start env)) r))"
proof -
  note run = run_traced(1) [OF assms]
  have "\<not> recordExists r (data_store (run_start env))" for r
    by (simp add: recordExists_def printHelp_def println_def start_app_def new_DataStore_def)
  moreover have "int_store (data_store b)" using run by (simp add: tracked_def app_inv_def)
  ultimately show ?thesis using trace_outcome [OF conjunct1 [OF run]] by blast
qed

section \<open>Properties\<close>

text \<open>
  C1: serializability of the program. Take any run of \<^verbatim>\<open>main\<close> on a readable log, with
  any input of fewer than \<open>2 ^ 32 - 1\<close> lines, retries of waiting commands and RECOVER
  included, and the history of the values its READs returned and its WRITEs stored. Sorting
  it so that the transactions run one after the other, in the order in which they end,
  leaves every transaction its own actions in their order; and executed alone in this way,
  from a memory that holds the values the resources were created with, every READ returns
  the same value and every resource ends with the value the program has stored for it. The
  update records of the run's log are the WRITEs of the history.
\<close>
theorem program_serializable:
  assumes "good_start rs0 env" and "length (getlines (CHR 0x0A) input) + 1 < 2 ^ 32"
    and "main_program env input = Inr a"
  shows "let h = run_actions (getlines (CHR 0x0A) input) (printHelp (start_app env)); s = serialize h
    in serial s \<and> finish_ordered h s \<and> (\<forall>t. actions_of t s = actions_of t h) \<and>
       (\<exists>init. range init \<subseteq> {0, 10} \<and> legal init h \<and> legal init s \<and>
          (\<forall>rid. stored_value rid a = Inr (outcome init s rid))) \<and>
       update_ids a = map action_txn (filter is_write h)"
proof -
  let ?lines = "getlines (CHR 0x0A) input"
  define h where "h = run_actions ?lines (run_start env)"
  obtain b where b: "command_loop ?lines (run_start env) = Inr b"
    and a: "a = b\<lparr>log_mgr := delete_LogManager (flushLogs (log_mgr b))\<rparr>"
    using assms(3) by (auto simp: main_program_def split: sum.splits)
  note run = run_traced [OF assms(1,2) b, folded h_def]
  note order = accesses.conflict_order [OF run(2) event_trace [OF conjunct1 [OF run(1)]]]
  have eq: "legal m (serialize h) = legal m h \<and> outcome m (serialize h) = outcome m h" for m
    by (rule serialize_equivalent) (use order in blast)
  obtain init where init: "range init \<subseteq> {0, 10}" "legal init h" "\<forall>r. stored_value r b = Inr (outcome init h r)"
    using run_explained [OF assms(1,2) b] unfolding h_def by blast
  have "stored_value rid a = Inr (outcome init (serialize h) rid)" for rid
    using init(3) eq by (simp add: a stored_value_def)
  moreover have "update_ids (run_start env) = []"
    by (simp add: update_ids_def run_log_def printHelp_def println_def start_app_def new_LogManager_def open_append_def)
  then have "update_ids a = map action_txn (filter is_write h)"
    using trace_updates [OF conjunct1 [OF run(1)]]
    by (simp add: a update_ids_def run_log_def delete_LogManager_def close_stream_def flush_stream_def Let_def)
  ultimately show ?thesis
    unfolding h_def [symmetric] Let_def using serialize_serial serialize_ordered serialize_txn init(1,2) eq by blast
qed

theorem program_serializable_witness:
  "let input = ''BEGIN T1'' @ [CHR 0x0A] @ ''WRITE T1 A 7'' @ [CHR 0x0A] @ ''BEGIN T2'' @ [CHR 0x0A] @
       ''READ T2 B'' @ [CHR 0x0A] @ ''READ T2 A'' @ [CHR 0x0A] @ ''COMMIT T1'';
     h = run_actions (getlines (CHR 0x0A) input) (printHelp (start_app (quiet_env None)))
   in h = [Write 1 1 7, Read 2 2 0, Done 1, Read 2 1 7] \<and>
      (\<exists>init. range init \<subseteq> {0, 10} \<and> legal init (serialize h))"
proof -
  let ?input = "''BEGIN T1'' @ [CHR 0x0A] @ ''WRITE T1 A 7'' @ [CHR 0x0A] @ ''BEGIN T2'' @ [CHR 0x0A] @
    ''READ T2 B'' @ [CHR 0x0A] @ ''READ T2 A'' @ [CHR 0x0A] @ ''COMMIT T1''"
  let ?h = "run_actions (getlines (CHR 0x0A) ?input) (printHelp (start_app (quiet_env None)))"
  have h: "?h = [Write 1 1 7, Read 2 2 0, Done 1, Read 2 1 7]" by code_simp
  have "length (getlines (CHR 0x0A) ?input) = 6" by code_simp
  then have n: "length (getlines (CHR 0x0A) ?input) + 1 < 2 ^ 32" by simp
  obtain a where a: "main_program (quiet_env None) ?input = Inr a"
  proof -
    obtain b where "command_loop (getlines (CHR 0x0A) ?input) (printHelp (start_app (quiet_env None))) = Inr b"
      using run_returns [OF good_quiet_env(2) n] .
    then show ?thesis using that by (simp add: main_program_def)
  qed
  have "\<exists>init. range init \<subseteq> {0, 10} \<and> legal init (serialize ?h)"
    using program_serializable [OF good_quiet_env(2) n a] unfolding Let_def by blast
  then show ?thesis using h unfolding Let_def by blast
qed



end
