(* ===== verification/AppForm.thy ===== *)
theory AppForm
  imports AppTrace
begin

text \<open>
  Well-formed program states: names stand for records, labels for known transactions, no two
  labels for the same one, the bookkeeping of held resources for locks of active transactions,
  and what waits is a READ or WRITE of a known label on a named resource. Every line of input
  keeps this.
\<close>

section \<open>Labels and waiting commands\<close>

definition labels_ok :: "App \<Rightarrow> bool" where
  "labels_ok a \<longleftrightarrow>
     (\<forall>l t. fmlookup (txn_ids a) l = Some t \<longrightarrow> getTransaction t (tm a) \<noteq> None) \<and>
     (\<forall>l l' t. fmlookup (txn_ids a) l = Some t \<and> fmlookup (txn_ids a) l' = Some t \<longrightarrow> l = l') \<and>
     (\<forall>t. isTransactionActive t (tm a) \<longrightarrow> (\<exists>l. fmlookup (txn_ids a) l = Some t)) \<and>
     fmlookup (txn_ids a) [] = None"

definition is_access :: "Command \<Rightarrow> bool" where
  "is_access cmd \<longleftrightarrow> (cmd_op cmd = ''READ'' \<or> cmd_op cmd = ''WRITE'') \<and> resource_name cmd \<noteq> []"

definition pending_ok :: "App \<Rightarrow> bool" where
  "pending_ok a \<longleftrightarrow> (\<forall>cmd\<in>set (pending a). is_access cmd \<and> fmlookup (txn_ids a) (txn_label cmd) \<noteq> None)"

definition well_formed :: "App \<Rightarrow> bool" where
  "well_formed a \<longleftrightarrow> named a \<and> held_ok a \<and> labels_ok a \<and> pending_ok a"

text \<open>The two parts that concern labels; the other two are part of what a trace keeps.\<close>

definition labelled :: "App \<Rightarrow> bool" where
  "labelled a \<longleftrightarrow> labels_ok a \<and> pending_ok a"

lemma labelled_same:
  "labelled a \<Longrightarrow> tm b = tm a \<Longrightarrow> txn_ids b = txn_ids a \<Longrightarrow> set (pending b) \<subseteq> set (pending a) \<Longrightarrow> labelled b"
  by (auto simp: labelled_def labels_ok_def pending_ok_def)

lemma labelled_txns: "labelled a \<Longrightarrow> same_txns a b \<Longrightarrow> labelled b"
  using labelled_same [of a b] by (simp add: same_txns_def)

lemma labelled_print [simp]: "labelled (println s a) = labelled a"
  by (simp add: labelled_def labels_ok_def pending_ok_def println_def)

text \<open>Transactions may end but not vanish, and the waiting commands may be dropped.\<close>

lemma labelled_ended:
  assumes "labelled a" and "\<And>t. getTransaction t (tm a) \<noteq> None \<Longrightarrow> getTransaction t (tm b) \<noteq> None"
    and "\<And>t. isTransactionActive t (tm b) \<Longrightarrow> isTransactionActive t (tm a)"
    and "txn_ids b = txn_ids a" and "set (pending b) \<subseteq> set (pending a)"
  shows "labelled b"
proof -
  have "labels_ok b" using assms(1-3) unfolding labelled_def labels_ok_def assms(4) by blast
  moreover have "pending_ok b" using assms(1,5) unfolding labelled_def pending_ok_def assms(4) by blast
  ultimately show ?thesis by (simp add: labelled_def)
qed

lemma ended_known:
  "getTransaction t m \<noteq> None \<Longrightarrow> getTransaction t (snd (commitTransaction x now m)) \<noteq> None"
  "getTransaction t m \<noteq> None \<Longrightarrow> getTransaction t (snd (abortTransaction x now m)) \<noteq> None"
  by (auto simp: commitTransaction_def abortTransaction_def getTransaction_cases Let_def split: option.splits)

lemma abort_loop_known: "getTransaction t m \<noteq> None \<Longrightarrow> getTransaction t (abort_loop ids clk m) \<noteq> None"
  using ended_known(2) by (induction ids clk m rule: abort_loop.induct) (simp, metis abort_loop.simps(2))

section \<open>The commands keep them\<close>

lemma process_loop_pending: "process_loop resumed a = Inr b \<Longrightarrow> set (pending b) \<subseteq> set (pending a)"
proof (induction resumed a rule: process_loop.induct)
  case (1 resumed a)
  obtain kept res1 mp a1 where p: "pending_pass (pending a) [] resumed False a = Inr (kept, res1, mp, a1)"
    and tail: "(if mp then process_loop res1 (a1\<lparr>pending := kept\<rparr>) else Inr (a1\<lparr>pending := kept\<rparr>)) = Inr b"
    using 1(2) by (subst (asm) process_loop.simps) (auto simp: Let_def split: sum.splits)
  have "set kept \<subseteq> set (pending a)"
    using pending_pass_kept [OF p] set_nths_subset [of "pending a"] by (auto simp: subseq_conv_nths)
  then show ?case using 1(1) [OF p refl refl refl refl] tail by (cases mp) auto
qed

lemma submit_labelled:
  assumes "submit cmd a = Inr b" and "is_access cmd" and "labelled a"
  shows "labelled b"
proof (cases "fmlookup (txn_ids a) (txn_label cmd)")
  case None
  then show ?thesis using assms by (auto simp: submit_def)
next
  case (Some t)
  have queue: "labelled (c\<lparr>pending := pending c @ [cmd]\<rparr>)" if "labelled c" "txn_ids c = txn_ids a" for c
    using that assms(2) Some by (auto simp: labelled_def labels_ok_def pending_ok_def)
  consider "b = a\<lparr>pending := pending a @ [cmd]\<rparr>"
    | ex c where "executeCommand cmd False a = Inr (ex, c)" "b = c \<or> b = c\<lparr>pending := pending c @ [cmd]\<rparr>"
    using assms(1) Some by (auto simp: submit_def split: if_splits sum.splits)
  then show ?thesis
  proof cases
    case 1
    then show ?thesis using queue assms(3) by blast
  next
    case (2 ex c)
    then have "same_txns a c" using executeCommand_steps by blast
    then show ?thesis using 2(2) queue [OF labelled_txns [OF assms(3)]] labelled_txns [OF assms(3)]
      by (auto simp: same_txns_def)
  qed
qed

lemma finish_labelled:
  assumes "finish label t ty msg (a\<lparr>tm := tm', sys_clock := c\<rparr>) = Inr b" and "labelled a"
    and "\<And>x. getTransaction x (tm a) \<noteq> None \<Longrightarrow> getTransaction x tm' \<noteq> None"
    and "\<And>x. isTransactionActive x tm' \<longleftrightarrow> x \<noteq> t \<and> isTransactionActive x (tm a)"
  shows "labelled b"
proof -
  obtain d where loop: "process_loop {||} d = Inr b"
    and d: "tm d = tm'" "txn_ids d = txn_ids a" "pending d = pending a"
    using assms(1) by (auto simp: finish_def processPending_def Let_def println_def log_event_def)
  have "labelled d" by (rule labelled_ended [OF assms(2)]) (use assms(3,4) d in auto)
  then show ?thesis
    by (rule labelled_same) (use process_loop_steps [OF loop] process_loop_pending [OF loop] in auto)
qed

lemma commit_labelled:
  assumes "cmd_commit args a = Inr b" and "labelled a"
  shows "labelled b"
  using assms(1)
proof (cases rule: cmd_commit_cases)
  case (message s)
  then show ?thesis using assms(2) by simp
next
  case (finished label t tm')
  show ?thesis
    by (rule finish_labelled [OF finished(2) assms(2) _ finish_live(2) [OF disjI1 [OF finished(1)]]])
      (use ended_known(1) finished(1) in \<open>metis snd_conv\<close>)
qed

lemma abort_labelled:
  assumes "cmd_abort args a = Inr b" and "labelled a"
  shows "labelled b"
  using assms(1)
proof (cases rule: cmd_abort_cases)
  case (message s)
  then show ?thesis using assms(2) by simp
next
  case (finished label t tm')
  show ?thesis
    by (rule finish_labelled [OF finished(2) assms(2) _ finish_live(2) [OF disjI2 [OF finished(1)]]])
      (use ended_known(2) finished(1) in \<open>metis snd_conv\<close>)
qed

lemma begin_labelled:
  assumes "labelled a" and "tm_inv (tm a)"
  shows "labelled (cmd_begin args a)"
proof -
  obtain label args' where nw: "next_word args = (label, args')" by fastforce
  show ?thesis
  proof (cases "label = [] \<or> fmlookup (txn_ids a) label \<noteq> None")
    case True
    then have "cmd_begin args a = println ''Invalid BEGIN command'' a \<or>
        cmd_begin args a = println (label @ '' already exists'') a"
      using nw by (auto simp: cmd_begin_def)
    then show ?thesis using assms(1) by auto
  next
    case False
    let ?b = "cmd_begin args a" and ?n = "next_transaction_id (tm a)"
    have b: "tm ?b = snd (beginTransaction (draw (sys_clock a)) (draw (rest (sys_clock a))) (tm a))"
      "txn_ids ?b = fmupd label ?n (txn_ids a)" "pending ?b = pending a"
      using False nw by (simp_all add: cmd_begin_def Let_def println_def log_event_def beginTransaction_def transaction_defs)
    have known: "getTransaction t (tm ?b) \<noteq> None \<longleftrightarrow> t = ?n \<or> getTransaction t (tm a) \<noteq> None"
      and act: "isTransactionActive t (tm ?b) \<Longrightarrow> t = ?n \<or> isTransactionActive t (tm a)" for t
      by (auto simp: b(1) beginTransaction_def Let_def isTransactionActive_def getTransaction_cases transaction_defs
          split: option.splits if_splits)
    have fresh: "fmlookup (txn_ids a) l \<noteq> Some ?n" for l
      using assms known_below_next [OF assms(2), of ?n] by (fastforce simp: labelled_def labels_ok_def)
    have owner: "\<exists>l. fmlookup (fmupd label ?n (txn_ids a)) l = Some t" if "isTransactionActive t (tm ?b)" for t
    proof (cases "t = ?n")
      case True
      then show ?thesis by (intro exI [of _ label]) simp
    next
      case False
      then have "isTransactionActive t (tm a)" using act [OF that] by simp
      then obtain l where "fmlookup (txn_ids a) l = Some t"
        using assms(1) by (auto simp: labelled_def labels_ok_def)
      then show ?thesis using \<open>\<not> (label = [] \<or> fmlookup (txn_ids a) label \<noteq> None)\<close> by (intro exI [of _ l]) auto
    qed
    have "labels_ok ?b"
      using assms(1) False fresh known owner unfolding labelled_def labels_ok_def b(2)
      by (auto split: if_splits)
    moreover have "pending_ok ?b" using assms(1) by (auto simp: labelled_def pending_ok_def b(2,3))
    ultimately show ?thesis by (simp add: labelled_def)
  qed
qed

lemma recover_labelled:
  assumes "cmd_recover a = Inr b" and "labelled a"
  shows "labelled b"
proof (rule labelled_ended [OF assms(2)])
  show "getTransaction t (tm b) \<noteq> None" if "getTransaction t (tm a) \<noteq> None" for t
    unfolding cmd_recover_tm [OF assms(1)] abortAllTransactions_def by (rule abort_loop_known [OF that])
  show "isTransactionActive t (tm b) \<Longrightarrow> isTransactionActive t (tm a)" for t
    by (simp add: cmd_recover_tm [OF assms(1)] active_abort_all)
  show "txn_ids b = txn_ids a" "set (pending b) \<subseteq> set (pending a)"
    using assms(1) by (auto simp: cmd_recover_def Let_def complete_all_frame println_def split: sum.splits)
qed

lemma show_labelled: "cmd_show args a = Inr b \<Longrightarrow> labelled a \<Longrightarrow> labelled b"
  by (auto simp: cmd_show_def case_prod_beta dest!: ensureResource_steps intro: labelled_txns split: if_splits sum.splits)

lemma read_labelled: "cmd_read args a = Inr b \<Longrightarrow> labelled a \<Longrightarrow> labelled b"
  by (auto simp: cmd_read_def case_prod_beta intro: submit_labelled simp: is_access_def split: if_splits)

lemma write_labelled: "cmd_write args a = Inr b \<Longrightarrow> labelled a \<Longrightarrow> labelled b"
  by (auto simp: cmd_write_def case_prod_beta intro: submit_labelled simp: is_access_def split: if_splits)

lemmas line_labelled = recover_labelled read_labelled write_labelled commit_labelled abort_labelled show_labelled

lemma process_line_labelled:
  assumes "process_line line a = Inr (go, b)" and "labelled a" and "tm_inv (tm a)"
  shows "labelled b"
proof -
  obtain cmd args where nw: "next_word line = (cmd, args)" by fastforce
  consider "b = a" | s where "b = println s a" | "b = cmd_begin args a" | "b = cmd_checkpoint a" | "cmd_recover a = Inr b"
    | "cmd_read args a = Inr b" | "cmd_write args a = Inr b" | "cmd_commit args a = Inr b"
    | "cmd_abort args a = Inr b" | "cmd_show args a = Inr b"
    using assms(1) unfolding process_line_def nw Let_def prod.case
    by (simp split: if_splits) (auto dest: map_go simp: printHelp_def cmd_status_def)
  then show ?thesis
  proof cases
    case 2
    then show ?thesis using assms(2) by simp
  next
    case 3
    then show ?thesis using begin_labelled [OF assms(2,3)] by simp
  next
    case 4
    then show ?thesis
      using labelled_same [OF assms(2), of b] by (simp add: cmd_checkpoint_def Let_def println_def log_event_def)
  qed (use assms(2) in \<open>metis line_labelled\<close>)+
qed

lemma command_loop_formed:
  "command_loop lines a = Inr b \<Longrightarrow> tracked rs0 a \<Longrightarrow> labelled a \<Longrightarrow>
   unat (next_transaction_id (tm a)) + length lines < 2 ^ 32 \<Longrightarrow> tracked rs0 b \<and> labelled b"
proof (induction lines arbitrary: a)
  case (Cons line lines)
  have n: "next_transaction_id (tm a) \<noteq> -1" by (rule room_not_max) (use Cons.prems(4) in simp)
  obtain go c where c: "process_line line a = Inr (go, c)"
    and tail: "(if go then command_loop lines c else Inr c) = Inr b"
    using Cons.prems(1) by (auto split: sum.splits)
  have step: "tracked rs0 c" "labelled c"
    using process_line_trace [OF c Cons.prems(2) n] process_line_labelled [OF c Cons.prems(3)] Cons.prems(2)
    by (simp_all add: tracked_def app_inv_def)
  have "unat (next_transaction_id (tm c)) \<le> Suc (unat (next_transaction_id (tm a)))"
    using process_line_next [OF c] unat_add_one [OF n] by auto
  then show ?case using Cons.IH [of c] tail step Cons.prems(4) by (cases go) auto
qed simp

section \<open>Properties\<close>

text \<open>
  C7: well-formed states. After any input of fewer than \<open>2 ^ 32 - 1\<close> lines every resource
  name stands for a record of the data store; every label stands for a known transaction,
  no two labels for the same one, and every active transaction has a label; the resources
  kept per transaction belong to active ones that hold locks on them; and every waiting
  command is a READ or WRITE with a known label and a resource name.
\<close>
theorem states_well_formed:
  assumes "good_start rs0 env" and "length lines + 1 < 2 ^ 32"
    and "command_loop lines (printHelp (start_app env)) = Inr a"
  shows "well_formed a"
proof -
  let ?start = "printHelp (start_app env)"
  have "labelled ?start"
    by (simp add: labelled_def labels_ok_def pending_ok_def printHelp_def println_def start_app_def
        new_TransactionManager_def isTransactionActive_def)
  moreover have "unat (next_transaction_id (tm ?start)) + length lines < 2 ^ 32"
    using assms(2) start_next [of env] by simp
  ultimately have "tracked rs0 a \<and> labelled a"
    using command_loop_formed [OF assms(3) start_tracked [OF assms(1)]] by blast
  then show ?thesis by (simp add: well_formed_def tracked_def labelled_def)
qed

theorem states_well_formed_witness:
  "\<exists>a. command_loop [''BEGIN T1'', ''WRITE T1 A.b 5'', ''BEGIN T2'', ''READ T2 A.b''] (printHelp (start_app (quiet_env None))) = Inr a \<and>
     length (pending a) = 1 \<and> well_formed a"
proof -
  let ?lines = "[''BEGIN T1'', ''WRITE T1 A.b 5'', ''BEGIN T2'', ''READ T2 A.b'']"
  have n: "length ?lines + 1 < 2 ^ 32" by simp
  have "after_lines ?lines (\<lambda>a. length (pending a) = 1)" by code_simp
  moreover obtain a where a: "command_loop ?lines (printHelp (start_app (quiet_env None))) = Inr a"
    using run_returns [OF good_quiet_env(2) n] .
  ultimately have "length (pending a) = 1" unfolding after_lines_def by simp
  then show ?thesis using a states_well_formed [OF good_quiet_env(2) n a] by blast
qed

end
