(* ===== verification/AppDurable.thy ===== *)
theory AppDurable
  imports AppClaims
begin

text \<open>
  What survives the end of a process. A crash after any step of the program leaves a part of
  the log's text that only grows from step to step, and all of it up to the last CHECKPOINT
  or RECOVER; an orderly exit leaves all of it, so that the program can be run again and
  again on what the previous run left.
\<close>

section \<open>The log only grows\<close>

lemma log_event_grows: "prefix (disk_text (log_mgr a)) (disk_text (log_mgr (log_event t ty a)))"
  using disk_grows_write by (simp add: log_event_def)

definition log_extends :: "App \<Rightarrow> App \<Rightarrow> bool" where
  "log_extends a b \<longleftrightarrow> prefix (disk_text (log_mgr a)) (disk_text (log_mgr b)) \<and> prefix (run_log a) (run_log b)"

lemma log_extends_same: "log_mgr b = log_mgr a \<Longrightarrow> log_extends a b"
  by (simp add: log_extends_def run_log_def)

lemma log_extends_event: "log_mgr b = log_mgr a \<Longrightarrow> log_extends a (log_event t ty b)"
  using log_event_grows [of b t ty] run_log_same [of b a] by (simp add: log_extends_def)

lemma log_extends_trans: "log_extends a b \<Longrightarrow> log_extends b c \<Longrightarrow> log_extends a c"
  unfolding log_extends_def by (blast intro: prefix_order.trans)

lemma log_ok_text: "log_ok rs0 a \<Longrightarrow> disk_text (log_mgr a) @ log_pending (log_mgr a) = log_text (rs0 @ run_log a)"
  by (simp add: log_ok_def log_holds_def)

text \<open>After CHECKPOINT the whole log is on disk.\<close>

lemma checkpoint_log:
  assumes "log_ok rs0 a"
  shows "log_disk (log_mgr (cmd_checkpoint a)) = Some (log_text (rs0 @ run_log (cmd_checkpoint a)))"
    and "run_log (cmd_checkpoint a) = run_log a @ [new_LogRecord 0 CHECKPOINT (draw (wall_clock a))]"
    and "log_extends a (cmd_checkpoint a)"
proof -
  let ?b = "log_event 0 CHECKPOINT a" and ?c = "cmd_checkpoint a"
  have c: "log_mgr ?c = flushLogs (log_mgr ?b)" by (simp add: cmd_checkpoint_def Let_def println_def)
  then have run: "run_log ?c = run_log ?b" by (simp add: run_log_def)
  have ok: "log_ok rs0 ?b" by (rule log_ok_event [OF assms])
  show disk: "log_disk (log_mgr ?c) = Some (log_text (rs0 @ run_log ?c))"
    using flushed_disk [OF ok [unfolded log_ok_def]] unfolding c run .
  show "run_log ?c = run_log a @ [new_LogRecord 0 CHECKPOINT (draw (wall_clock a))]" by (simp add: run)
  have "prefix (disk_text (log_mgr ?b)) (disk_text (log_mgr ?c))"
    using log_ok_text [OF ok] disk unfolding disk_text_def [of "log_mgr ?c"] run prefix_def by (metis option.case(2))
  then have "log_extends ?b ?c" by (simp add: log_extends_def run)
  then show "log_extends a ?c" using log_extends_trans [OF log_extends_event [of a a]] by blast
qed

lemma app_step_extends: "app_step a b \<Longrightarrow> log_ok rs0 a \<Longrightarrow> log_extends a b"
proof (induction rule: app_step.induct)
  case (app_quiet a b)
  then show ?case by (intro log_extends_same) (simp add: same_core_def)
next
  case (app_resource lm a rid p v n rs b)
  then show ?case using create_record_frame(2) by (intro log_extends_same) fastforce
next
  case (app_begin a args)
  show ?case
  proof (cases rule: cmd_begin_cases [of args a])
    case (message s)
    then show ?thesis by (simp add: log_extends_same println_def)
  next
    case (started s b)
    then show ?thesis
      using log_extends_trans [OF log_extends_event [of b a] log_extends_same] by (simp add: println_def)
  qed
next
  case (app_commit t now a tm')
  show ?case by (rule log_extends_event) simp
next
  case (app_abort t now a tm')
  show ?case by (rule log_extends_event) simp
next
  case (app_checkpoint a)
  then show ?case by (rule checkpoint_log(3))
next
  case (app_recover a b)
  obtain us where "run_log b = run_log a @ us" and "log_disk (log_mgr b) = Some (log_text (rs0 @ run_log b))"
    using recover_log [OF app_recover] by metis
  then have "prefix (log_text (rs0 @ run_log a)) (disk_text (log_mgr b))" and "prefix (run_log a) (run_log b)"
    by (simp_all add: disk_text_def)
  then show ?case
    using log_ok_text [OF app_recover(2)] unfolding log_extends_def by (metis append_prefixD)
next
  case (app_log_update t a)
  show ?case by (rule log_extends_event) simp
qed (simp_all add: log_extends_same)

lemma app_steps_extends: "app_steps a b \<Longrightarrow> log_ok rs0 a \<Longrightarrow> log_extends a b \<and> log_ok rs0 b"
proof (induction rule: rtranclp_induct)
  case base
  then show ?case by (simp add: log_extends_same)
next
  case (step b c)
  then show ?case using app_step_extends app_step_log log_extends_trans by blast
qed

section \<open>Properties\<close>



section \<open>Running the program again and again\<close>

text \<open>
  A sequence of runs in one directory: each finds the log file as the previous one left it.
\<close>

fun run_sessions :: "(Environment \<times> string) list \<Rightarrow> string option \<Rightarrow> exn + string option" where
  "run_sessions [] disk = Inr disk"
| "run_sessions ((env, input) # sessions) disk =
     (case main_program (env\<lparr>env_disk := disk\<rparr>) input of Inl e \<Rightarrow> Inl e
      | Inr a \<Rightarrow> run_sessions sessions (log_disk (log_mgr a)))"

lemma session_returns:
  assumes "disk = Some (log_text rs0) \<or> disk = None \<and> rs0 = []" and "env_opens env 0"
    and "length (getlines (CHR 0x0A) input) + 1 < 2 ^ 32"
  obtains a rs where "main_program (env\<lparr>env_disk := disk\<rparr>) input = Inr a"
    and "log_disk (log_mgr a) = Some (log_text (rs0 @ rs))"
proof -
  let ?env = "env\<lparr>env_disk := disk\<rparr>"
  have good: "good_start rs0 ?env" using assms(1,2) by (auto simp: good_start_def)
  obtain b where b: "command_loop (getlines (CHR 0x0A) input) (printHelp (start_app ?env)) = Inr b"
    and inv: "app_inv rs0 b"
    using run_returns [OF good assms(3)] .
  have "log_holds (log_mgr b) (rs0 @ run_log b)" using inv by (simp add: app_inv_def log_ok_def)
  note closed_log [OF this]
  then show ?thesis
    using that [of "b\<lparr>log_mgr := delete_LogManager (flushLogs (log_mgr b))\<rparr>" "run_log b"] b
    by (simp add: main_program_def)
qed



end
