(* ===== verification/AppCommands.thy ===== *)
theory AppCommands
  imports AppClaims
begin

text \<open>
  The syntax of the command lines: words separated by any white space, numbers in decimal
  that stop at the first character that is no digit and saturate at the bounds of
  \<^verbatim>\<open>int\<close>. What the program prints for a value it also reads back.
\<close>

section \<open>Words and numbers\<close>

definition blank :: "string \<Rightarrow> bool" where
  "blank s \<longleftrightarrow> s \<noteq> [] \<and> (\<forall>c\<in>set s. is_space c)"

definition is_word :: "string \<Rightarrow> bool" where
  "is_word w \<longleftrightarrow> w \<noteq> [] \<and> (\<forall>c\<in>set w. \<not> is_space c)"

lemma next_word_spaces: "\<forall>c\<in>set s. is_space c \<Longrightarrow> next_word (s @ t) = next_word t"
  by (simp add: next_word_def dropWhile_append2)

lemma next_word_word:
  assumes "is_word w" and "t = [] \<or> is_space (hd t)"
  shows "next_word (w @ t) = (w, t)"
proof -
  have "dropWhile is_space (w @ t) = w @ t" using assms(1) by (cases w) (auto simp: is_word_def)
  moreover have "takeWhile (\<lambda>c. \<not> is_space c) (w @ t) = w" "dropWhile (\<lambda>c. \<not> is_space c) (w @ t) = t"
    using assms by (cases t; auto simp: is_word_def takeWhile_append dropWhile_append)+
  ultimately show ?thesis by (simp add: next_word_def)
qed

lemma next_word_next:
  "blank s \<Longrightarrow> is_word w \<Longrightarrow> t = [] \<or> is_space (hd t) \<Longrightarrow> next_word (s @ w @ t) = (w, t)"
  by (simp add: blank_def next_word_spaces next_word_word)

lemma blank_hd: "blank s \<Longrightarrow> is_space (hd (s @ t))"
  by (cases s) (auto simp: blank_def)

lemma next_int_spaces: "\<forall>c\<in>set s. is_space c \<Longrightarrow> next_int (s @ t) = next_int t"
  by (simp add: next_int_def scan_number_def dropWhile_append2)

lemma scan_printed:
  assumes "t = [] \<or> \<not> is_digit (hd t)"
  shows "scan_number (int_to_string i @ t) = Some (i < 0, nat \<bar>i\<bar>)"
proof -
  have digits: "takeWhile is_digit (nat_to_string n @ t) = nat_to_string n" for n
    using assms nat_to_string_digits by (cases t) (auto simp: takeWhile_append)
  have minus: "\<not> is_space (CHR ''-'')" by (simp add: is_space_def)
  have drop: "dropWhile is_space (nat_to_string n @ t) = nat_to_string n @ t"
    and sign: "scan_sign (nat_to_string n @ t) = (False, nat_to_string n @ t)" for n
    using hd_nat_to_string [of n] dropWhile_space_digits [of "nat_to_string n @ t"]
      scan_sign_digits [of "nat_to_string n @ t"] by simp_all
  show ?thesis
    by (cases "i < 0") (simp_all add: int_to_string_def scan_number_def scan_sign_def [of "CHR ''-'' # _"]
      minus digits drop sign)
qed

text \<open>The nearest value of \<^verbatim>\<open>int\<close>.\<close>

definition saturate :: "int \<Rightarrow> 32 word" where
  "saturate i = word_of_int (max (- (2 ^ 31)) (min (2 ^ 31 - 1) i))"

lemma next_int_printed:
  assumes "t = [] \<or> \<not> is_digit (hd t)"
  shows "next_int (int_to_string i @ t) = saturate i"
  by (simp add: next_int_def scan_printed [OF assms] saturate_def)

lemma saturate_sint: "saturate (sint v) = v"
  using sint_bounds [of v] by (simp add: saturate_def)

section \<open>Properties\<close>

text \<open>
  C33: the command syntax. A line that holds WRITE, a label, a name and a decimal integer,
  separated by any white space and followed by anything but a further digit, is submitted
  as the WRITE command with exactly these words and the integer, saturated at the bounds of
  \<^verbatim>\<open>int\<close>; every number the program prints is read back unchanged.
\<close>
theorem write_line_parsed:
  assumes "\<forall>c\<in>set s0. is_space c" and "blank s1" and "blank s2" and "blank s3"
    and "is_word label" and "is_word name" and "t = [] \<or> \<not> is_digit (hd t)"
  shows "process_line (s0 @ ''WRITE'' @ s1 @ label @ s2 @ name @ s3 @ int_to_string i @ t) a =
      map_sum id (Pair True)
        (submit \<lparr>cmd_op = ''WRITE'', txn_label = label, resource_name = name, cmd_value = saturate i\<rparr> a) \<and>
    saturate (sint v) = v"
proof -
  have w: "is_word ''WRITE''" by (simp add: is_word_def is_space_def)
  let ?r3 = "s3 @ int_to_string i @ t"
  let ?r2 = "s2 @ name @ ?r3"
  let ?r1 = "s1 @ label @ ?r2"
  have n1: "next_word (s0 @ ''WRITE'' @ ?r1) = (''WRITE'', ?r1)"
    unfolding next_word_spaces [OF assms(1)] by (rule next_word_word [OF w disjI2 [OF blank_hd [OF assms(2)]]])
  have n2: "next_word ?r1 = (label, ?r2)"
    by (rule next_word_next [OF assms(2,5) disjI2 [OF blank_hd [OF assms(3)]]])
  have n3: "next_word ?r2 = (name, ?r3)"
    by (rule next_word_next [OF assms(3,6) disjI2 [OF blank_hd [OF assms(4)]]])
  have n4: "next_int ?r3 = saturate i"
    using assms(4) next_int_spaces [of s3] next_int_printed [OF assms(7)] by (simp add: blank_def)
  have "cmd_write ?r1 a =
      submit \<lparr>cmd_op = ''WRITE'', txn_label = label, resource_name = name, cmd_value = saturate i\<rparr> a"
    using assms(5,6) by (simp add: cmd_write_def n2 n3 n4 is_word_def del: append_assoc)
  moreover have "process_line (s0 @ ''WRITE'' @ ?r1) a = map_sum id (Pair True) (cmd_write ?r1 a)"
    unfolding process_line_def n1 by simp
  ultimately show ?thesis by (simp only: saturate_sint simp_thms)
qed

theorem write_line_parsed_witness:
  "process_line ''  WRITE T1   A.b  99999999999 and more'' (start_app (quiet_env None)) =
     map_sum id (Pair True)
       (submit \<lparr>cmd_op = ''WRITE'', txn_label = ''T1'', resource_name = ''A.b'', cmd_value = 0x7FFFFFFF\<rparr>
          (start_app (quiet_env None)))"
proof -
  have "\<forall>c\<in>set ''  ''. is_space c" "blank '' ''" "blank ''   ''" "blank ''  ''" "is_word ''T1''" "is_word ''A.b''"
    "'' and more'' = [] \<or> \<not> is_digit (hd '' and more'')"
    by (simp_all add: blank_def is_word_def is_space_def is_digit_def)
  note parsed = conjunct1 [OF write_line_parsed [OF this, of 99999999999 "start_app (quiet_env None)" 0]]
  have "int_to_string 99999999999 = ''99999999999''"
    by (simp add: int_to_string_def nat_to_string.simps digit_char_def char_of_def bit_0)
  moreover have "saturate 99999999999 = 0x7FFFFFFF" by (simp add: saturate_def)
  ultimately show ?thesis using parsed by (simp only: append.simps)
qed

end
