(* ===== verification/AppAlike.thy ===== *)
theory AppAlike
  imports AppTotal
begin

text \<open>
  Two runs side by side. States are alike when they differ only in what the clocks said:
  the times in transactions, records and log records. Each operation of the program takes
  alike states to alike results. How far the lock managers of the two runs may differ is
  the parameter of the interface \<open>lock_view\<close>, which says what the operations of the lock
  manager must respect.
\<close>

section \<open>Values up to their times\<close>

definition same_txn :: "Transaction \<Rightarrow> Transaction \<Rightarrow> bool" where
  "same_txn x y \<longleftrightarrow> transaction_id x = transaction_id y \<and> txn_state x = txn_state y \<and>
     accessed_records x = accessed_records y \<and> read_count x = read_count y \<and>
     write_count x = write_count y \<and> error_message x = error_message y"

definition same_tm :: "TransactionManager \<Rightarrow> TransactionManager \<Rightarrow> bool" where
  "same_tm m n \<longleftrightarrow> fmrel same_txn (active_transactions m) (active_transactions n) \<and>
     fmrel same_txn (completed_transactions m) (completed_transactions n) \<and>
     next_transaction_id m = next_transaction_id n \<and> committed_count m = committed_count n \<and>
     aborted_count m = aborted_count n"

definition same_record :: "Record \<Rightarrow> Record \<Rightarrow> bool" where
  "same_record x y \<longleftrightarrow> record_id x = record_id y \<and> data x = data y"

definition same_store :: "DataStore \<Rightarrow> DataStore \<Rightarrow> bool" where
  "same_store s s' \<longleftrightarrow> fmrel same_record (records s) (records s')"

definition untimed :: "LogRecord \<Rightarrow> u32 \<times> LogType" where
  "untimed r = (LogRecord.getTransactionId r, getLogType r)"

definition same_entry :: "LogRecord \<Rightarrow> LogRecord \<Rightarrow> bool" where
  "same_entry r r' \<longleftrightarrow> untimed r = untimed r'"

definition same_log :: "LogManager \<Rightarrow> LogManager \<Rightarrow> bool" where
  "same_log m m' \<longleftrightarrow> map untimed (log_buffer m) = map untimed (log_buffer m')"

text \<open>Lookups.\<close>

lemma fmrel_lookup: "fmrel R m n \<Longrightarrow> rel_option R (fmlookup m k) (fmlookup n k)"
  by (simp add: fmrel_iff)

lemma fmrel_keys: "fmrel R m n \<Longrightarrow> fmdom m = fmdom n"
  by (rule fmrel_fmdom_eq)

lemma same_tm_active: "same_tm m n \<Longrightarrow> isTransactionActive t m = isTransactionActive t n"
  using fmrel_lookup [of same_txn "active_transactions m" "active_transactions n" t]
  by (auto simp: isTransactionActive_def same_tm_def same_txn_def getState_def rel_option_iff split: option.splits)

lemma same_tm_counts:
  assumes "same_tm m n"
  shows "getActiveTransactionIds m = getActiveTransactionIds n"
    and "getActiveTransactionCount m = getActiveTransactionCount n"
    and "getCommittedCount m = getCommittedCount n" and "getAbortedCount m = getAbortedCount n"
  using assms fmrel_keys [of same_txn "active_transactions m" "active_transactions n"]
  by (simp_all add: same_tm_def getActiveTransactionIds_def map_keys_def getActiveTransactionCount_def
      map_size_def fcard.rep_eq getCommittedCount_def getAbortedCount_def)

lemma same_tm_begin:
  "same_tm m n \<Longrightarrow> rel_prod same_txn same_tm (beginTransaction now1 now2 m) (beginTransaction now1' now2' n)"
  by (auto simp: beginTransaction_def Let_def same_tm_def same_txn_def new_Transaction_def
      Transactions.getTransactionId_def intro!: fmrel_upd)

lemma same_txn_id: "same_txn x y \<Longrightarrow> Transactions.getTransactionId x = Transactions.getTransactionId y"
  by (simp add: Transactions.getTransactionId_def same_txn_def)

lemma same_txn_setState: "same_txn x y \<Longrightarrow> same_txn (setState st now x) (setState st now' y)"
  by (auto simp: same_txn_def setState_def Let_def)

lemma same_tm_commit:
  "same_tm m n \<Longrightarrow> rel_prod (=) same_tm (commitTransaction t now m) (commitTransaction t now' n)"
  using fmrel_lookup [of same_txn "active_transactions m" "active_transactions n" t]
  by (auto simp: commitTransaction_def same_tm_def Let_def rel_option_iff same_txn_setState split: option.splits)

lemma same_tm_abort:
  "same_tm m n \<Longrightarrow> rel_prod (=) same_tm (abortTransaction t now m) (abortTransaction t now' n)"
  using fmrel_lookup [of same_txn "active_transactions m" "active_transactions n" t]
  by (auto simp: abortTransaction_def same_tm_def Let_def rel_option_iff same_txn_setState split: option.splits)

lemma same_tm_abort_loop: "same_tm m n \<Longrightarrow> same_tm (abort_loop ts clk m) (abort_loop ts clk' n)"
proof (induction ts arbitrary: clk clk' m n)
  case (Cons t ts)
  have "same_tm (snd (abortTransaction t (draw clk) m)) (snd (abortTransaction t (draw clk') n))"
    using same_tm_abort [OF Cons.prems] by (simp add: rel_prod_sel)
  then show ?case by (simp add: Cons.IH)
qed simp

lemma same_tm_abort_all:
  "same_tm m n \<Longrightarrow> same_tm (abortAllTransactions clk m) (abortAllTransactions clk' n)"
  by (simp add: abortAllTransactions_def same_tm_counts(1) same_tm_abort_loop)

text \<open>The store.\<close>

lemma new_Record_same: "same_record (new_Record rid now1 now2) (new_Record rid now1' now2')"
  by (simp add: new_Record_def same_record_def)

lemma setData_same: "same_record x y \<Longrightarrow> rel_sum (=) same_record (setData d now x) (setData d now' y)"
  by (simp add: setData_def same_record_def)

lemma getRecord_same: "same_store s s' \<Longrightarrow> rel_option same_record (getRecord rid s) (getRecord rid s')"
  using fmrel_lookup [of same_record "records s" "records s'" rid]
  by (auto simp: same_store_def rel_option_iff getRecord_def split: option.splits)

lemma insertRecord_same:
  assumes "same_record x y" and "same_store s s'"
  shows "rel_prod (=) same_store (insertRecord (Some x) s) (insertRecord (Some y) s')"
proof -
  have "getRecordId x = getRecordId y" using assms(1) by (simp add: same_record_def getRecordId_def)
  moreover have "rel_option same_record (fmlookup (records s) (getRecordId y)) (fmlookup (records s') (getRecordId y))"
    using assms(2) by (simp add: same_store_def fmrel_lookup)
  ultimately show ?thesis using assms
    by (auto simp: insertRecord_def same_store_def rel_option_iff split: option.splits)
qed

lemma updateRecord_same:
  "same_store s s' \<Longrightarrow>
     rel_sum (=) (rel_prod (=) same_store) (updateRecord rid d now s) (updateRecord rid d now' s')"
  using fmrel_lookup [of same_record "records s" "records s'" rid]
  by (auto simp: updateRecord_def same_store_def setData_def same_record_def rel_option_iff split: option.splits)

text \<open>The log.\<close>

lemma new_LogRecord_same: "same_entry (new_LogRecord t ty now) (new_LogRecord t ty now')"
  by (simp add: same_entry_def untimed_def)

lemma writeLog_same: "same_log m m' \<Longrightarrow> same_entry r r' \<Longrightarrow> same_log (writeLog (Some r) m) (writeLog (Some r') m')"
  by (simp add: same_log_def same_entry_def)

lemma flushLogs_same: "same_log m m' \<Longrightarrow> same_log (flushLogs m) (flushLogs m')"
  by (simp add: same_log_def)

section \<open>States up to their times\<close>

text \<open>
  The relation between the two runs: \<open>L\<close> relates the lock managers and \<open>ok\<close> holds of the
  names in waiting commands. The flag \<open>eq\<close> says that the two runs started on the same log, up
  to times; when they did not, the reports that RECOVER prints may differ, and nothing else.
\<close>

definition is_report :: "string \<Rightarrow> bool" where
  "is_report s \<longleftrightarrow> (\<exists>t. s = ''recovery complete: redo='' @ t)"

definition same_line :: "bool \<Rightarrow> string \<Rightarrow> string \<Rightarrow> bool" where
  "same_line eq s s' \<longleftrightarrow> s = s' \<or> \<not> eq \<and> is_report s \<and> is_report s'"

lemma same_line_refl [simp]: "same_line eq s s"
  by (simp add: same_line_def)

lemma same_line_True [simp]: "same_line True = (=)"
  by (intro ext) (simp add: same_line_def)

definition alike :: "(LockManager \<Rightarrow> LockManager \<Rightarrow> bool) \<Rightarrow> (string \<Rightarrow> bool) \<Rightarrow> bool \<Rightarrow> App \<Rightarrow> App \<Rightarrow> bool" where
  "alike L ok eq a b \<longleftrightarrow> same_tm (tm a) (tm b) \<and> L (lock_mgr a) (lock_mgr b) \<and> (eq \<longrightarrow> same_log (log_mgr a) (log_mgr b)) \<and>
     same_store (data_store a) (data_store b) \<and> txn_ids a = txn_ids b \<and> resource_ids a = resource_ids b \<and>
     txn_held_resources a = txn_held_resources b \<and> pending a = pending b \<and>
     next_resource_id a = next_resource_id b \<and> list_all2 (same_line eq) (out a) (out b) \<and> (\<forall>c\<in>set (pending a). ok (resource_name c))"

text \<open>Results: the same exception, or the same value and alike states.\<close>

abbreviation alike_results ::
  "(LockManager \<Rightarrow> LockManager \<Rightarrow> bool) \<Rightarrow> (string \<Rightarrow> bool) \<Rightarrow> bool \<Rightarrow> exn + 'a \<times> App \<Rightarrow> exn + 'a \<times> App \<Rightarrow> bool" where
  "alike_results L ok eq \<equiv> rel_sum (=) (rel_prod (=) (alike L ok eq))"

abbreviation same_effect ::
  "(LockManager \<Rightarrow> LockManager \<Rightarrow> bool) \<Rightarrow> (string \<Rightarrow> bool) \<Rightarrow> bool \<Rightarrow> exn + App \<Rightarrow> exn + App \<Rightarrow> bool" where
  "same_effect L ok eq \<equiv> rel_sum (=) (alike L ok eq)"

lemma rel_sum_then:
  assumes "rel_sum (=) R r s"
    and "\<And>x y. R x y \<Longrightarrow> rel_sum (=) Q (f x) (g y)"
  shows "rel_sum (=) Q (case r of Inl e \<Rightarrow> Inl e | Inr x \<Rightarrow> f x) (case s of Inl e \<Rightarrow> Inl e | Inr y \<Rightarrow> g y)"
  using assms by (auto split: sum.split elim: rel_sum.cases)

lemma alike_cases:
  assumes "alike_results L ok eq r s"
    and "\<And>x a b. r = Inr (x, a) \<Longrightarrow> s = Inr (x, b) \<Longrightarrow> alike L ok eq a b \<Longrightarrow> P"
    and "\<And>e. r = Inl e \<Longrightarrow> s = Inl e \<Longrightarrow> P"
  shows P
  using assms by (auto elim!: rel_sum.cases rel_prod.cases)

lemma alike_print_lines: "alike L ok eq a b \<Longrightarrow> same_line eq s s' \<Longrightarrow> alike L ok eq (println s a) (println s' b)"
  by (simp add: alike_def println_def list_all2_appendI)

lemma alike_print [intro]: "alike L ok eq a b \<Longrightarrow> alike L ok eq (println s a) (println s b)"
  by (rule alike_print_lines) simp_all

lemma alike_hold [intro]: "alike L ok eq a b \<Longrightarrow> alike L ok eq (hold_resource t rid a) (hold_resource t rid b)"
  by (simp add: alike_def hold_resource_def)

lemma alike_waiting [intro]: "alike L ok eq a b \<Longrightarrow> alike L ok eq (waiting_message cmd fp a) (waiting_message cmd fp b)"
  by (simp add: waiting_message_def alike_print)

lemma alike_log [intro]: "alike L ok eq a b \<Longrightarrow> alike L ok eq (log_event t ty a) (log_event t ty b)"
  by (simp add: alike_def log_event_def writeLog_same new_LogRecord_same)

lemma alike_create:
  assumes "alike L ok eq a b"
  shows "same_effect L ok eq (create_record rid v a) (create_record rid v b)"
  unfolding create_record_def Let_def
  by (rule rel_sum_then [OF setData_same [OF new_Record_same]])
    (use assms in \<open>auto simp: alike_def rel_prod_sel dest!: insertRecord_same\<close>)

lemma alike_value:
  "alike L ok eq a b \<Longrightarrow> stored_value rid a = stored_value rid b"
  using getRecord_same [of "data_store a" "data_store b" rid]
  by (auto simp: alike_def stored_value_def rel_option_iff same_record_def getData_def split: option.splits)

section \<open>The operations on alike states\<close>

text \<open>
  What the program's operations need of the relation between the lock managers: requests get
  the same answer and, like the completion of a transaction, keep the managers related, and
  so does the announcement of a parent, when some admitted name has a parent at all.
\<close>

locale lock_view =
  fixes L :: "LockManager \<Rightarrow> LockManager \<Rightarrow> bool" and ok :: "string \<Rightarrow> bool"
  assumes reads: "L m m' \<Longrightarrow> rel_prod (=) L (requestLock t r SHARED m) (requestLock t r SHARED m')"
    and writes: "L m m' \<Longrightarrow> rel_prod (=) L (requestLock t r EXCLUSIVE m) (requestLock t r EXCLUSIVE m')"
    and holder: "L m m' \<Longrightarrow> hasLock t r m = hasLock t r m'"
    and completes: "L m m' \<Longrightarrow> L (snd (completeTransaction t m)) (snd (completeTransaction t m'))"
    and parents: "ok n \<Longrightarrow> CHR ''.'' \<in> set n \<Longrightarrow> L m m' \<Longrightarrow>
      L (setResourceParent c p m) (setResourceParent c p m')"
begin

lemma new_resource_alike:
  assumes "alike L ok eq a b" and "last_id = 0 \<or> ok n \<and> CHR ''.'' \<in> set n"
  shows "alike_results L ok eq (new_resource path last_id a) (new_resource path last_id b)"
proof -
  let ?n = "next_resource_id b"
  let ?f = "\<lambda>x. x\<lparr>next_resource_id := ?n + 1, resource_ids := fmupd path ?n (resource_ids b),
    lock_mgr := if last_id \<noteq> 0 then setResourceParent ?n last_id (lock_mgr x) else lock_mgr x\<rparr>"
  have "alike L ok eq (?f a) (?f b)" using assms parents by (auto simp: alike_def)
  from alike_create [OF this] have
    "same_effect L ok eq (create_record ?n v (?f a)) (create_record ?n v (?f b))" for v .
  moreover have "next_resource_id a = ?n" "resource_ids a = resource_ids b" using assms(1) by (simp_all add: alike_def)
  ultimately show ?thesis
    unfolding new_resource_def Let_def by (cases "last_id = 0") (auto intro!: rel_sum_then)
qed

lemma ensure_loop_alike:
  "alike L ok eq a b \<Longrightarrow> last_id = 0 \<and> length segs \<le> 1 \<or> ok n \<and> CHR ''.'' \<in> set n \<Longrightarrow>
     alike_results L ok eq (ensure_loop segs path last_id a) (ensure_loop segs path last_id b)"
proof (induction segs arbitrary: path last_id a b)
  case (Cons seg segs)
  let ?path = "if path = [] then seg else path @ ''.'' @ seg"
  have rest: "alike_results L ok eq (ensure_loop segs p l a') (ensure_loop segs p l b')"
    if "alike L ok eq a' b'" for p l a' b'
    using that Cons by (cases segs) auto
  have "alike_results L ok eq (new_resource ?path last_id a) (new_resource ?path last_id b)"
    using Cons.prems by (intro new_resource_alike) auto
  moreover have "resource_ids a = resource_ids b" using Cons.prems(1) by (simp add: alike_def)
  ultimately show ?case
    using rest Cons.prems(1) unfolding ensure_loop.simps Let_def
    by (auto split: option.split intro!: rel_sum_then)
qed simp

lemma ensureResource_alike:
  assumes "alike L ok eq a b" and "ok name"
  shows "alike_results L ok eq (ensureResource name a) (ensureResource name b)"
proof -
  have "length (getlines (CHR ''.'') name) \<le> 1 \<or> ok name \<and> CHR ''.'' \<in> set name"
    using assms(2) by (cases "name = []") (auto simp: getlines_last)
  then have loop: "alike_results L ok eq (ensure_loop (getlines (CHR ''.'') name) [] 0 a)
      (ensure_loop (getlines (CHR ''.'') name) [] 0 b)"
    by (intro ensure_loop_alike [OF assms(1)]) auto
  show ?thesis unfolding ensureResource_def
  proof (rule rel_sum_then [OF loop], clarsimp simp: Let_def)
    fix a1 b1 assume ab: "alike L ok eq a1 b1"
    let ?f = "\<lambda>x. x\<lparr>next_resource_id := next_resource_id x + 1,
      resource_ids := fmupd name (next_resource_id x) (resource_ids x)\<rparr>"
    have "alike L ok eq (?f a1) (?f b1)" and "next_resource_id a1 = next_resource_id b1"
      using ab by (simp_all add: alike_def)
    then show "alike_results L ok eq
        (case create_record (next_resource_id a1) 0 (?f a1) of Inl e \<Rightarrow> Inl e | Inr a3 \<Rightarrow> Inr (next_resource_id a1, a3))
        (case create_record (next_resource_id b1) 0 (?f b1) of Inl e \<Rightarrow> Inl e | Inr a3 \<Rightarrow> Inr (next_resource_id b1, a3))"
      by (auto intro!: rel_sum_then [OF alike_create])
  qed
qed

text \<open>A request for a lock, at the two modes the commands use.\<close>

lemma request_alike:
  assumes "alike L ok eq a b" and "ty = SHARED \<or> ty = EXCLUSIVE"
  obtains g m m' where "requestLock t rid ty (lock_mgr a) = (g, m)" and "requestLock t rid ty (lock_mgr b) = (g, m')"
    and "alike L ok eq (a\<lparr>lock_mgr := m\<rparr>) (b\<lparr>lock_mgr := m'\<rparr>)"
proof -
  have "rel_prod (=) L (requestLock t rid ty (lock_mgr a)) (requestLock t rid ty (lock_mgr b))"
    using assms reads writes by (auto simp: alike_def)
  then obtain g m m' where "requestLock t rid ty (lock_mgr a) = (g, m)" and "requestLock t rid ty (lock_mgr b) = (g, m')"
    and "L m m'" by (auto elim: rel_prod.cases)
  moreover from this have "alike L ok eq (a\<lparr>lock_mgr := m\<rparr>) (b\<lparr>lock_mgr := m'\<rparr>)"
    using assms(1) by (simp add: alike_def)
  ultimately show ?thesis using that by blast
qed

lemma execute_read_alike:
  assumes "alike L ok eq a b" and "ok (resource_name cmd)"
  shows "alike_results L ok eq (execute_read t cmd fp a) (execute_read t cmd fp b)"
proof (rule alike_cases [OF ensureResource_alike [OF assms]])
  fix rid a1 b1
  assume e: "ensureResource (resource_name cmd) a = Inr (rid, a1)" "ensureResource (resource_name cmd) b = Inr (rid, b1)"
    and ab: "alike L ok eq a1 b1"
  obtain g m m' where g: "requestLock t rid SHARED (lock_mgr a1) = (g, m)" "requestLock t rid SHARED (lock_mgr b1) = (g, m')"
    and l: "alike L ok eq (a1\<lparr>lock_mgr := m\<rparr>) (b1\<lparr>lock_mgr := m'\<rparr>)"
    using request_alike [OF ab, of SHARED t rid] by auto
  have h: "alike L ok eq (hold_resource t rid (a1\<lparr>lock_mgr := m\<rparr>)) (hold_resource t rid (b1\<lparr>lock_mgr := m'\<rparr>))"
    using l by (rule alike_hold)
  show ?thesis
    using alike_value [OF h, of rid] h l
    by (simp add: execute_read_def e g Let_def alike_waiting alike_print split: sum.split)
qed (simp add: execute_read_def)

lemma execute_write_alike:
  assumes "alike L ok eq a b" and "ok (resource_name cmd)"
  shows "alike_results L ok eq (execute_write t cmd fp a) (execute_write t cmd fp b)"
proof (rule alike_cases [OF ensureResource_alike [OF assms]])
  fix rid a1 b1
  assume e: "ensureResource (resource_name cmd) a = Inr (rid, a1)" "ensureResource (resource_name cmd) b = Inr (rid, b1)"
    and ab: "alike L ok eq a1 b1"
  obtain g m m' where g: "requestLock t rid EXCLUSIVE (lock_mgr a1) = (g, m)"
      "requestLock t rid EXCLUSIVE (lock_mgr b1) = (g, m')"
    and l: "alike L ok eq (a1\<lparr>lock_mgr := m\<rparr>) (b1\<lparr>lock_mgr := m'\<rparr>)"
    using request_alike [OF ab, of EXCLUSIVE t rid] by auto
  define c where "c = hold_resource t rid (a1\<lparr>lock_mgr := m\<rparr>)"
  define d where "d = hold_resource t rid (b1\<lparr>lock_mgr := m'\<rparr>)"
  let ?v = "intToBytes (cmd_value cmd)"
  have h: "alike L ok eq c d" unfolding c_def d_def using l by (rule alike_hold)
  then have u: "rel_sum (=) (rel_prod (=) same_store) (updateRecord rid ?v (draw (sys_clock c)) (data_store c))
      (updateRecord rid ?v (draw (sys_clock d)) (data_store d))"
    by (intro updateRecord_same) (simp add: alike_def)
  have k: "alike L ok eq (c\<lparr>data_store := ds, sys_clock := clk\<rparr>) (d\<lparr>data_store := ds', sys_clock := clk'\<rparr>)"
    if "same_store ds ds'" for ds ds' clk clk'
    using h that by (simp add: alike_def)
  show ?thesis
    using u l
    by (auto simp: execute_write_def e g Let_def c_def [symmetric] d_def [symmetric] alike_waiting
        intro!: alike_print alike_log k elim!: rel_sum.cases rel_prod.cases)
qed (simp add: execute_write_def)

lemma executeCommand_alike:
  assumes "alike L ok eq a b" and "ok (resource_name cmd)"
  shows "alike_results L ok eq (executeCommand cmd fp a) (executeCommand cmd fp b)"
  using assms execute_read_alike [OF assms] execute_write_alike [OF assms] same_tm_active [of "tm a" "tm b"]
  by (auto simp: executeCommand_def alike_def split: option.split)

section \<open>Retrying\<close>

lemma announce_alike:
  assumes "alike L ok eq a b" and "ok (resource_name cmd)"
  shows "alike_results L ok eq (announce cmd t resumed a) (announce cmd t resumed b)"
proof (rule alike_cases [OF ensureResource_alike [OF assms]])
  fix rid a1 b1
  assume e: "ensureResource (resource_name cmd) a = Inr (rid, a1)" "ensureResource (resource_name cmd) b = Inr (rid, b1)"
    and ab: "alike L ok eq a1 b1"
  have "hasLock t rid (lock_mgr a1) = hasLock t rid (lock_mgr b1)" using ab holder by (simp add: alike_def)
  then show ?thesis using assms(1) ab by (simp add: announce_def e alike_print)
qed (use assms(1) in \<open>simp add: announce_def\<close>)

lemma pending_pass_alike:
  "alike L ok eq a b \<Longrightarrow> \<forall>c\<in>set (cmds @ kept). ok (resource_name c) \<Longrightarrow>
     rel_sum (=) (rel_prod (\<lambda>x y. x = y \<and> (\<forall>c\<in>set x. ok (resource_name c))) (rel_prod (=) (rel_prod (=) (alike L ok eq))))
       (pending_pass cmds kept resumed mp a) (pending_pass cmds kept resumed mp b)"
proof (induction cmds arbitrary: kept resumed mp a b)
  case (Cons cmd cmds)
  have same: "fmlookup (txn_ids a) l = fmlookup (txn_ids b) l" "isTransactionActive t (tm a) = isTransactionActive t (tm b)"
    for l t using Cons.prems(1) by (simp_all add: alike_def same_tm_active)
  have ok: "ok (resource_name cmd)" using Cons.prems(2) by simp
  show ?case
  proof (cases "\<exists>t. fmlookup (txn_ids b) (txn_label cmd) = Some t \<and> isTransactionActive t (tm b)")
    case False
    then show ?thesis using Cons same by (auto split: option.split)
  next
    case True
    then obtain t where t: "fmlookup (txn_ids b) (txn_label cmd) = Some t" "isTransactionActive t (tm b)" by blast
    show ?thesis
    proof (rule alike_cases [OF announce_alike [OF Cons.prems(1) ok, of t resumed]])
      fix res1 a1 b1
      assume an: "announce cmd t resumed a = Inr (res1, a1)" "announce cmd t resumed b = Inr (res1, b1)"
        and ab: "alike L ok eq a1 b1"
      show ?thesis
      proof (rule alike_cases [OF executeCommand_alike [OF ab ok, of True]])
        fix x a2 b2
        assume ex: "executeCommand cmd True a1 = Inr (x, a2)" "executeCommand cmd True b1 = Inr (x, b2)"
          and ab2: "alike L ok eq a2 b2"
        show ?thesis using Cons.IH [OF ab2] Cons.prems(2) by (simp add: t same an ex)
      qed (simp add: t same an)
    qed (simp add: t same)
  qed
qed simp

lemma process_loop_alike:
  "alike L ok eq a b \<Longrightarrow> rel_sum (=) (alike L ok eq) (process_loop resumed a) (process_loop resumed b)"
proof (induction resumed a arbitrary: b rule: process_loop.induct)
  case (1 resumed a)
  have p: "pending b = pending a" "\<forall>c\<in>set (pending a @ []). ok (resource_name c)" using 1(2) by (simp_all add: alike_def)
  note pass = pending_pass_alike [OF 1(2) p(2), of resumed False]
  show ?case
  proof (cases "pending_pass (pending a) [] resumed False a")
    case (Inl e)
    then show ?thesis using pass p(1)
      by (subst (1 2) process_loop.simps) (auto elim: rel_sum.cases)
  next
    case (Inr q)
    obtain kept res1 mp a1 where q: "q = (kept, res1, mp, a1)" by (metis prod_cases4)
    obtain b1 where b1: "pending_pass (pending a) [] resumed False b = Inr (kept, res1, mp, b1)"
      and ab: "alike L ok eq a1 b1" and ok: "\<forall>c\<in>set kept. ok (resource_name c)"
      using pass Inr q by (auto elim!: rel_sum.cases rel_prod.cases)
    have "alike L ok eq (a1\<lparr>pending := kept\<rparr>) (b1\<lparr>pending := kept\<rparr>)" using ab ok by (simp add: alike_def)
    then show ?thesis
      using 1(1) [OF Inr [unfolded q] refl refl refl refl] Inr q b1 p(1)
      by (subst (1 2) process_loop.simps) (simp add: Let_def)
  qed
qed

section \<open>The commands\<close>

lemma submit_alike:
  assumes "alike L ok eq a b" and "ok (resource_name cmd)"
  shows "same_effect L ok eq (submit cmd a) (submit cmd b)"
proof -
  have q: "alike L ok eq (c\<lparr>pending := pending c @ [cmd]\<rparr>) (d\<lparr>pending := pending d @ [cmd]\<rparr>)" if "alike L ok eq c d" for c d
    using that assms(2) by (auto simp: alike_def)
  have same: "txn_ids a = txn_ids b" "hasPendingForTxn l a = hasPendingForTxn l b" for l
    using assms(1) by (simp_all add: alike_def hasPendingForTxn_def)
  show ?thesis
  proof (rule alike_cases [OF executeCommand_alike [OF assms, of False]])
    fix x a1 b1
    assume "executeCommand cmd False a = Inr (x, a1)" "executeCommand cmd False b = Inr (x, b1)" "alike L ok eq a1 b1"
    then show ?thesis using q [OF assms(1)] q [of a1 b1] by (simp add: submit_def same alike_print assms(1))
  qed (use q [OF assms(1)] in \<open>simp add: submit_def same alike_print assms(1)\<close>)
qed

lemma complete_alike:
  "alike L ok eq a b \<Longrightarrow>
     alike L ok eq (a\<lparr>lock_mgr := snd (completeTransaction t (lock_mgr a)), txn_held_resources := fmdrop t (txn_held_resources a)\<rparr>)
       (b\<lparr>lock_mgr := snd (completeTransaction t (lock_mgr b)), txn_held_resources := fmdrop t (txn_held_resources b)\<rparr>)"
  using completes by (simp add: alike_def)

lemma finish_alike:
  assumes "alike L ok eq a b"
  shows "same_effect L ok eq (finish label t ty msg a) (finish label t ty msg b)"
  unfolding finish_def processPending_def Let_def
  by (intro process_loop_alike alike_print alike_log complete_alike assms)

lemma finish_tm_alike:
  assumes "alike L ok eq a b" and "same_tm m n"
  shows "same_effect L ok eq (finish label t ty msg (a\<lparr>tm := m, sys_clock := c\<rparr>)) (finish label t ty msg (b\<lparr>tm := n, sys_clock := d\<rparr>))"
  by (rule finish_alike) (use assms in \<open>simp add: alike_def\<close>)

lemma cmd_commit_alike:
  assumes "alike L ok eq a b"
  shows "same_effect L ok eq (cmd_commit args a) (cmd_commit args b)"
proof -
  have "rel_prod (=) same_tm (commitTransaction t (draw (sys_clock a)) (tm a)) (commitTransaction t (draw (sys_clock b)) (tm b))" for t
    by (rule same_tm_commit) (use assms in \<open>simp add: alike_def\<close>)
  moreover have "txn_ids a = txn_ids b" using assms by (simp add: alike_def)
  ultimately show ?thesis using alike_print [OF assms] finish_tm_alike [OF assms]
    by (fastforce simp: cmd_commit_def case_prod_beta rel_prod_sel split: option.split bool.split)
qed

lemma cmd_abort_alike:
  assumes "alike L ok eq a b"
  shows "same_effect L ok eq (cmd_abort args a) (cmd_abort args b)"
proof -
  have "rel_prod (=) same_tm (abortTransaction t (draw (sys_clock a)) (tm a)) (abortTransaction t (draw (sys_clock b)) (tm b))" for t
    by (rule same_tm_abort) (use assms in \<open>simp add: alike_def\<close>)
  moreover have "txn_ids a = txn_ids b" using assms by (simp add: alike_def)
  ultimately show ?thesis using alike_print [OF assms] finish_tm_alike [OF assms]
    by (fastforce simp: cmd_abort_def case_prod_beta rel_prod_sel split: option.split bool.split)
qed

lemma cmd_begin_alike:
  assumes "alike L ok eq a b"
  shows "alike L ok eq (cmd_begin args a) (cmd_begin args b)"
proof -
  have "rel_prod same_txn same_tm
      (beginTransaction (draw (sys_clock a)) (draw (rest (sys_clock a))) (tm a))
      (beginTransaction (draw (sys_clock b)) (draw (rest (sys_clock b))) (tm b))"
    by (rule same_tm_begin) (use assms in \<open>simp add: alike_def\<close>)
  then obtain x y m n where x: "beginTransaction (draw (sys_clock a)) (draw (rest (sys_clock a))) (tm a) = (x, m)"
    "beginTransaction (draw (sys_clock b)) (draw (rest (sys_clock b))) (tm b) = (y, n)" "same_txn x y" "same_tm m n"
    by (auto elim: rel_prod.cases)
  let ?t = "Transactions.getTransactionId y"
  have ids: "txn_ids a = txn_ids b" using assms by (simp add: alike_def)
  have "alike L ok eq (a\<lparr>tm := m, sys_clock := c, txn_ids := fmupd l ?t (txn_ids b)\<rparr>)
      (b\<lparr>tm := n, sys_clock := d, txn_ids := fmupd l ?t (txn_ids b)\<rparr>)" for l c d
    using assms x by (simp add: alike_def)
  then show ?thesis
    using assms by (auto simp: cmd_begin_def case_prod_beta Let_def x ids same_txn_id [OF x(3)]
        intro!: alike_print alike_log)
qed

lemma cmd_show_alike:
  assumes "alike L ok eq a b" and "ok (fst (next_word args))"
  shows "same_effect L ok eq (cmd_show args a) (cmd_show args b)"
proof (rule alike_cases [OF ensureResource_alike [OF assms]])
  fix rid a1 b1
  assume e: "ensureResource (fst (next_word args)) a = Inr (rid, a1)" "ensureResource (fst (next_word args)) b = Inr (rid, b1)"
    and ab: "alike L ok eq a1 b1"
  show ?thesis using alike_value [OF ab, of rid] ab alike_print [OF assms(1)]
    by (simp add: cmd_show_def case_prod_beta e alike_print split: sum.split)
qed (use alike_print [OF assms(1)] in \<open>simp add: cmd_show_def case_prod_beta\<close>)

lemma cmd_status_alike:
  assumes "alike L ok eq a b"
  shows "alike L ok eq (cmd_status a) (cmd_status b)"
proof -
  have tm: "same_tm (tm a) (tm b)" and pending: "pending a = pending b" using assms by (simp_all add: alike_def)
  show ?thesis
    unfolding cmd_status_def same_tm_counts(2-4) [OF tm] pending using assms by (rule alike_print)
qed

lemma flush_alike: "alike L ok eq a b \<Longrightarrow> alike L ok eq (a\<lparr>log_mgr := flushLogs (log_mgr a)\<rparr>) (b\<lparr>log_mgr := flushLogs (log_mgr b)\<rparr>)"
  by (simp add: alike_def flushLogs_same)

lemma cmd_checkpoint_alike:
  assumes "alike L ok eq a b"
  shows "alike L ok eq (cmd_checkpoint a) (cmd_checkpoint b)"
  unfolding cmd_checkpoint_def Let_def by (rule alike_print [OF flush_alike [OF alike_log [OF assms]]])

lemma complete_all_alike: "alike L ok eq a b \<Longrightarrow> alike L ok eq (complete_all ts a) (complete_all ts b)"
proof (induction ts arbitrary: a b)
  case (Cons t ts)
  show ?case using Cons.IH [OF complete_alike [OF Cons.prems]] by simp
qed simp

end

end
