(* ===== verification/LockOrder.thy ===== *)
theory LockOrder
  imports LockProps
begin

text \<open>
  When the order of the lock objects does not matter. Without parents only SHARED and
  EXCLUSIVE locks are requested, and then no transaction has two locks on one resource,
  because the head of every queue waits behind a lock. On such flat tables the answers and
  the effects of the operations depend on the locks as a multiset only, not on the order in
  which the set of pointers is iterated.
\<close>

section \<open>Flat tables\<close>

definition flat_locks :: "Lock list \<Rightarrow> LockRequest list \<Rightarrow> bool" where
  "flat_locks ls qs \<longleftrightarrow> distinct (map lock_txn ls) \<and> distinct (map req_txn qs) \<and>
     lock_type ` set ls \<subseteq> {SHARED, EXCLUSIVE} \<and> req_type ` set qs \<subseteq> {SHARED, EXCLUSIVE} \<and>
     (EXCLUSIVE \<in> lock_type ` set ls \<longrightarrow> length ls = 1)"

definition head_blocked :: "Lock list \<Rightarrow> LockRequest list \<Rightarrow> bool" where
  "head_blocked ls qs \<longleftrightarrow> (qs \<noteq> [] \<longrightarrow> \<not> compatible_with ls (req_type (hd qs)))"

definition flat_table :: "LockManager \<Rightarrow> bool" where
  "flat_table m \<longleftrightarrow> resource_parent m = fmempty \<and>
     (\<forall>r. flat_locks (locks_on m r) (queue_on m r) \<and> head_blocked (locks_on m r) (queue_on m r))"

text \<open>Two tables with the same locks in any order.\<close>

definition same_table :: "LockManager \<Rightarrow> LockManager \<Rightarrow> bool" where
  "same_table m m' \<longleftrightarrow> (\<forall>r. mset (locks_on m r) = mset (locks_on m' r)) \<and> queue_on m = queue_on m' \<and>
     index_of m = index_of m' \<and> completed_txns m = completed_txns m' \<and> resource_parent m = resource_parent m'"

definition same_flat :: "LockManager \<Rightarrow> LockManager \<Rightarrow> bool" where
  "same_flat m m' \<longleftrightarrow> flat_table m \<and> same_table m m'"

text \<open>What is the same for two orders of the same locks.\<close>

lemma compatible_with_mset: "mset ls = mset ls' \<Longrightarrow> compatible_with ls ty = compatible_with ls' ty"
  by (metis compatible_with_iff set_mset_mset)

lemma upgrade_compatible_mset: "mset ls = mset ls' \<Longrightarrow> upgrade_compatible t ls ty = upgrade_compatible t ls' ty"
  by (metis upgrade_compatible_iff set_mset_mset)

lemma find_mset:
  assumes "distinct (map lock_txn ls)" and "mset ls = mset ls'"
  shows "find (\<lambda>l. lock_txn l = t) ls = find (\<lambda>l. lock_txn l = t) ls'"
proof -
  have d: "distinct (map lock_txn ls')" using assms by (metis mset_eq_imp_distinct_iff mset_map)
  have "find (\<lambda>l. lock_txn l = t) xs = Some l \<longleftrightarrow> l \<in> set xs \<and> lock_txn l = t" if "distinct (map lock_txn xs)" for xs l
    using that by (induction xs) auto
  from this [OF assms(1)] this [OF d] have "find (\<lambda>l. lock_txn l = t) ls = Some l \<longleftrightarrow> find (\<lambda>l. lock_txn l = t) ls' = Some l" for l
    using assms(2) by (metis set_mset_mset)
  then show ?thesis by (metis option.exhaust)
qed

lemma flat_locks_mset: "mset ls = mset ls' \<Longrightarrow> flat_locks ls qs = flat_locks ls' qs"
  unfolding flat_locks_def by (metis mset_eq_imp_distinct_iff mset_map set_mset_mset size_mset)

lemma flat_compatible:
  assumes "flat_locks ls qs" and "ty = SHARED \<or> ty = EXCLUSIVE"
  shows "compatible_with ls ty \<longleftrightarrow> ls = [] \<or> ty = SHARED \<and> EXCLUSIVE \<notin> lock_type ` set ls"
proof -
  have shared: "isCompatible x SHARED \<longleftrightarrow> x = SHARED" if "x \<in> {SHARED, EXCLUSIVE}" for x
    using that by (auto simp: isCompatible_def)
  have types: "lock_type l \<in> {SHARED, EXCLUSIVE}" if "l \<in> set ls" for l
    using assms(1) that by (auto simp: flat_locks_def)
  show ?thesis
  proof (cases "ty = SHARED")
    case True
    have all: "compatible_with ls ty \<longleftrightarrow> (\<forall>l\<in>set ls. lock_type l = SHARED)"
      unfolding compatible_with_iff True using shared types by (intro ball_cong) simp_all
    show ?thesis
    proof
      assume "compatible_with ls ty"
      then have "EXCLUSIVE \<notin> lock_type ` set ls" unfolding all by force
      then show "ls = [] \<or> ty = SHARED \<and> EXCLUSIVE \<notin> lock_type ` set ls" using True by blast
    next
      assume "ls = [] \<or> ty = SHARED \<and> EXCLUSIVE \<notin> lock_type ` set ls"
      then have "lock_type l = SHARED" if "l \<in> set ls" for l using types [OF that] that by force
      then show "compatible_with ls ty" unfolding all by blast
    qed
  next
    case False
    then show ?thesis using assms(2) by (cases ls) (auto simp: compatible_with_iff)
  qed
qed

section \<open>Granting\<close>

lemma flat_grant:
  assumes "flat_locks ls qs" and "compatible_with ls ty" and "ty = SHARED \<or> ty = EXCLUSIVE"
    and "t \<notin> lock_txn ` set ls"
  shows "flat_locks (insert_lock pos (new_Lock t ty) ls) qs"
proof -
  have m: "mset (insert_lock pos (new_Lock t ty) ls) = mset (new_Lock t ty # ls)" by (simp add: mset_insert_lock)
  have "flat_locks (new_Lock t ty # ls) qs"
    using assms flat_compatible [OF assms(1,3)] by (auto simp: flat_locks_def)
  then show ?thesis unfolding flat_locks_mset [OF m] .
qed

lemma blocked_grant: "head_blocked ls qs \<Longrightarrow> head_blocked (insert_lock pos l ls) qs"
  by (auto simp: head_blocked_def compatible_with_iff)

lemma grant_queue_flat:
  "flat_locks (locks_on m r) qs \<Longrightarrow>
     lock_txn ` set (locks_on m r) \<inter> req_txn ` set qs = {} \<or> head_blocked (locks_on m r) qs \<Longrightarrow>
     grant_queue r qs m = (qs', m') \<Longrightarrow>
     flat_locks (locks_on m' r) qs' \<and> head_blocked (locks_on m' r) qs'"
proof (induction qs arbitrary: m)
  case Nil
  then show ?case by (simp add: head_blocked_def)
next
  case (Cons q qs)
  show ?case
  proof (cases "compatible_with (locks_on m r) (req_type q)")
    case True
    let ?m = "grant_lock (req_txn q) r (req_type q) (locks_on m r) m"
    have free: "lock_txn ` set (locks_on m r) \<inter> req_txn ` set (q # qs) = {}"
      using Cons.prems(2) True by (auto simp: head_blocked_def)
    have flat: "flat_locks (locks_on m r) qs" and q: "req_type q = SHARED \<or> req_type q = EXCLUSIVE"
      using Cons.prems(1) by (auto simp: flat_locks_def)
    have "flat_locks (locks_on ?m r) qs"
      using flat_grant [OF flat True q] free by (auto simp: lock_obs)
    moreover have "lock_txn ` set (locks_on ?m r) \<inter> req_txn ` set qs = {}"
      using free Cons.prems(1) by (auto simp: lock_obs flat_locks_def)
    ultimately show ?thesis using Cons.IH [of ?m] Cons.prems(3) True by (simp add: grant_queue_step)
  next
    case False
    then show ?thesis using Cons.prems by (auto simp: grant_queue_step head_blocked_def)
  qed
qed

lemma grant_queue_same:
  "same_table m m' \<Longrightarrow> rel_prod (=) same_table (grant_queue r qs m) (grant_queue r qs m')"
proof (induction qs arbitrary: m m')
  case (Cons q qs)
  have c: "compatible_with (locks_on m r) ty = compatible_with (locks_on m' r) ty" for ty
    using Cons.prems by (intro compatible_with_mset) (simp add: same_table_def)
  have "same_table (grant_lock (req_txn q) r (req_type q) (locks_on m r) m)
      (grant_lock (req_txn q) r (req_type q) (locks_on m' r) m')"
    using Cons.prems by (simp add: same_table_def lock_obs mset_insert_lock)
  then show ?case using Cons by (simp add: grant_queue_step c)
qed simp

section \<open>Requests\<close>

lemma requestLock_flat:
  assumes "resource_parent m = fmempty"
  shows "requestLock t r ty m = requestLockOnResource t r ty m"
proof -
  have "collect_ancestors (resource_parent m) r [] = []" unfolding assms by (subst collect_ancestors.simps) simp
  then have "ensureAncestorIntentionLocks t r ty m = (True, m)" by (simp add: ensureAncestorIntentionLocks_def Let_def)
  then show ?thesis by (simp add: requestLock_def requestLockOnResource_def)
qed

lemma request_flat:
  assumes "flat_table m" and "ty = SHARED \<or> ty = EXCLUSIVE"
  shows "flat_table (snd (requestLockOnResource t r ty m))"
proof -
  let ?ls = "locks_on m r" and ?qs = "queue_on m r"
  have flat: "flat_locks ?ls ?qs" "head_blocked ?ls ?qs" using assms(1) by (simp_all add: flat_table_def)
  obtain g m' where m': "requestLockOnResource t r ty m = (g, m')" by fastforce
  then show ?thesis
  proof (cases rule: requestLockOnResource_cases)
    case refused
    then show ?thesis using assms(1) m' by simp
  next
    case (held l)
    then show ?thesis using assms(1) m' by (simp add: flat_table_def lock_obs)
  next
    case (upgraded l)
    have "lock_type l = SHARED" "ty = EXCLUSIVE" using upgraded(3,5,6) flat(1) assms(2) by (auto simp: flat_locks_def)
    then have others: "\<forall>l'\<in>set ?ls. lock_txn l' = t" using upgraded(7) by auto
    have "?ls = [l]"
      using others upgraded(3) flat(1) distinct_map [of lock_txn ?ls] by (cases ?ls; cases "tl ?ls") (auto simp: flat_locks_def)
    then have "locks_on m' = (locks_on m)(r := [new_Lock t EXCLUSIVE])" and "queue_on m' = queue_on m"
      and "resource_parent m' = resource_parent m"
      using upgraded(8) \<open>ty = EXCLUSIVE\<close> by (simp_all add: lock_obs insert_lock_def)
    then show ?thesis using assms(1) m' by (auto simp: flat_table_def flat_locks_def head_blocked_def compatible_with_iff)
  next
    case granted
    then have "compatible_with ?ls ty" "t \<notin> lock_txn ` set ?ls" by (auto simp: compatible_with_iff)
    then show ?thesis
      using flat_grant [OF flat(1) _ assms(2)] blocked_grant [OF flat(2)] assms(1) granted(4) m'
      by (simp add: flat_table_def lock_obs)
  next
    case (queued l)
    have "flat_locks ?ls (queue_on m' r)" using flat(1) assms(2) queued(6) by (auto simp: flat_locks_def lock_obs)
    moreover have "head_blocked ?ls (queue_on m' r)"
      using flat(2) queued(3,5,6) by (cases ?qs) (auto simp: head_blocked_def lock_obs compatible_with_iff)
    ultimately show ?thesis
      using assms(1) queued(6) m' by (auto simp: flat_table_def lock_obs split: if_splits)
  qed
qed

lemma request_same:
  assumes "same_flat m m'"
  shows "rel_prod (=) same_table (requestLockOnResource t r ty m) (requestLockOnResource t r ty m')"
proof -
  have same: "same_table m m'" and flat: "distinct (map lock_txn (locks_on m r))"
    using assms by (simp_all add: same_flat_def flat_table_def flat_locks_def)
  then have ms: "mset (locks_on m r) = mset (locks_on m' r)" by (simp add: same_table_def)
  have grant: "same_table (grant_lock t r ty ls (touch r m)) (grant_lock t r ty ls' (touch r m'))" if "mset ls = mset ls'" for ls ls'
    using same that by (simp add: same_table_def lock_obs mset_insert_lock)
  have queue: "same_table (enqueue_request t r ty (touch r m)) (enqueue_request t r ty (touch r m'))"
    using same by (simp add: same_table_def lock_obs)
  have touch: "same_table (touch r m) (touch r m')" using same by (simp add: same_table_def lock_obs)
  have removed: "mset (remove1 l (locks_on m r)) = mset (remove1 l (locks_on m' r))" for l using ms by simp
  have done_same: "completed_txns m = completed_txns m'" using same by (simp add: same_table_def)
  show ?thesis
    unfolding requestLockOnResource_unfold find_mset [OF flat ms] compatible_with_mset [OF ms] upgrade_compatible_mset [OF ms] done_same
    using grant [OF ms] grant [OF removed] queue touch same by (auto split: option.split)
qed

section \<open>Releases\<close>

lemma same_flat_release:
  assumes "same_flat m m'"
  shows "rel_prod (=) same_flat (releaseLock t r m) (releaseLock t r m')"
proof -
  have flat: "flat_table m" and same: "same_table m m'" using assms by (simp_all add: same_flat_def)
  have holds: "hasLock t r m = hasLock t r m'" and dones: "completed_txns m = completed_txns m'"
    using same unfolding hasLock_locks_on same_table_def by (metis set_mset_mset)+
  obtain b' n' where n': "releaseLock t r m' = (b', n')" by fastforce
  obtain b n where n: "releaseLock t r m = (b, n)" by fastforce
  then show ?thesis
  proof (cases rule: releaseLock_cases)
    case rejected
    have "\<not> b' \<and> n' = m'" using rejected(3) holds dones by (cases rule: releaseLock_cases [OF n']) auto
    then show ?thesis using rejected assms n n' by simp
  next
    case (released qs1 m1)
    let ?d = "touch r (drop_locks t r m)" and ?d' = "touch r (drop_locks t r m')"
    obtain qs1' m1' where released': "b'" "grant_queue r (queue_on m' r) ?d' = (qs1', m1')"
      "locks_on n' = locks_on m1'" "queue_on n' = (queue_on m')(r := qs1')" "index_of n' = index_of m1'"
      "completed_txns n' = completed_txns m'" "resource_parent n' = resource_parent m'"
      using released(1,3) holds dones by (cases rule: releaseLock_cases [OF n']) auto
    have "same_table ?d ?d'" using same by (simp add: same_table_def lock_obs)
    moreover have queue: "queue_on m' r = queue_on m r" using same by (simp add: same_table_def)
    ultimately have q: "qs1' = qs1" and s1: "same_table m1 m1'"
      using grant_queue_same [of ?d ?d' r "queue_on m r"] released(4) released'(2) by simp_all
    have same_n: "same_table n n'" using same s1 released(5-9) released'(3-7) q by (simp add: same_table_def)
    let ?ls = "locks_on m r" and ?qs = "queue_on m r"
    let ?kept = "filter (\<lambda>l. lock_txn l \<noteq> t) ?ls"
    have fr: "flat_locks ?ls ?qs" "head_blocked ?ls ?qs" using flat by (simp_all add: flat_table_def)
    have kept: "flat_locks ?kept ?qs"
      using fr(1) by (auto simp: flat_locks_def distinct_map_filter length_Suc_conv)
    have "lock_txn ` set ?kept \<inter> req_txn ` set ?qs = {} \<or> head_blocked ?kept ?qs"
    proof (cases "?kept = [] \<or> ?qs = []")
      case False
      then have "EXCLUSIVE \<notin> lock_type ` set ?ls"
        using fr(1) released(3) by (auto simp: flat_locks_def hasLock_locks_on length_Suc_conv)
      moreover have "req_type (hd ?qs) = SHARED \<or> req_type (hd ?qs) = EXCLUSIVE"
        using fr(1) hd_in_set [of ?qs] False unfolding flat_locks_def by blast
      ultimately have "req_type (hd ?qs) = EXCLUSIVE"
        using fr(2) flat_compatible [OF fr(1), of "req_type (hd ?qs)"] False unfolding head_blocked_def by blast
      then show ?thesis using False by (cases ?kept) (auto simp: head_blocked_def compatible_with_iff)
    next
      case True
      then show ?thesis by (cases "?kept = []") (simp_all del: filter_empty_conv)
    qed
    then have "flat_locks (locks_on m1 r) qs1 \<and> head_blocked (locks_on m1 r) qs1"
      using grant_queue_flat [OF _ _ released(4)] kept by (simp add: lock_obs)
    then have "flat_table n"
      using flat released(5,6,9) grant_queue_frame [OF released(4)] by (simp add: flat_table_def lock_obs)
    then show ?thesis using same_n released(2) released'(1) n n' by (simp add: same_flat_def)
  qed
qed

lemma same_flat_release_loop:
  "same_flat m m' \<Longrightarrow> rel_prod (=) same_flat (release_loop t rs x m) (release_loop t rs x m')"
proof (induction rs arbitrary: x m m')
  case (Cons r rs)
  obtain b n n' where "releaseLock t r m = (b, n)" "releaseLock t r m' = (b, n')" "same_flat n n'"
    using same_flat_release [OF Cons.prems, of t r] by (auto elim: rel_prod.cases)
  then show ?case using Cons.IH by simp
qed simp

text \<open>Completing a transaction is releasing the locks in its index.\<close>

definition same_locks_but :: "u32 \<Rightarrow> LockManager \<Rightarrow> LockManager \<Rightarrow> bool" where
  "same_locks_but t m m' \<longleftrightarrow> locks_on m' = locks_on m \<and> queue_on m' = queue_on m \<and>
     index_of m' = (index_of m)(t := {||}) \<and> completed_txns m' = completed_txns m \<and> resource_parent m' = resource_parent m"

lemma complete_released:
  obtains x n where "release_loop t (set_elems (index_of m t)) False (mark_completed t m) = (x, n)"
    and "same_locks_but t n (snd (completeTransaction t m))"
proof -
  obtain b m' where "completeTransaction t m = (b, m')" by fastforce
  then show ?thesis
  proof (cases rule: completeTransaction_cases)
    case idle
    have "same_locks_but t (mark_completed t m) m'"
      using idle(2,3) by (simp add: same_locks_but_def lock_obs fun_upd_idem)
    then show ?thesis using that [of False "mark_completed t m"] idle(2) \<open>completeTransaction t m = (b, m')\<close>
      by simp
  next
    case (held n)
    then show ?thesis using that [of b n] \<open>completeTransaction t m = (b, m')\<close> by (simp add: same_locks_but_def)
  qed
qed

lemma same_flat_complete:
  assumes "same_flat m m'"
  shows "same_flat (snd (completeTransaction t m)) (snd (completeTransaction t m'))"
proof -
  have marked: "same_flat (mark_completed t m) (mark_completed t m')"
    using assms unfolding same_flat_def flat_table_def same_table_def lock_obs by auto
  have index: "index_of m' t = index_of m t" using assms by (simp add: same_flat_def same_table_def)
  obtain x n where n: "release_loop t (set_elems (index_of m t)) False (mark_completed t m) = (x, n)"
    and nm: "same_locks_but t n (snd (completeTransaction t m))" by (rule complete_released)
  obtain y n' where n': "release_loop t (set_elems (index_of m t)) False (mark_completed t m') = (y, n')"
    and nm': "same_locks_but t n' (snd (completeTransaction t m'))"
    using complete_released [of t m'] unfolding index by blast
  have "same_flat n n'"
    using same_flat_release_loop [OF marked, of t "set_elems (index_of m t)" False] by (simp add: n n')
  then show ?thesis
    using nm nm' unfolding same_locks_but_def same_flat_def flat_table_def same_table_def by auto
qed

text \<open>What the operations of the program need of related lock tables.\<close>

lemma same_flat_request:
  assumes "same_flat m m'" and "ty = SHARED \<or> ty = EXCLUSIVE"
  shows "rel_prod (=) same_flat (requestLock t r ty m) (requestLock t r ty m')"
proof -
  have "resource_parent m = fmempty" "resource_parent m' = fmempty"
    using assms(1) by (auto simp: same_flat_def flat_table_def same_table_def)
  then show ?thesis
    using request_same [OF assms(1), of t r ty] request_flat [OF _ assms(2), of m t r] assms(1)
    by (auto simp: requestLock_flat same_flat_def rel_prod_sel)
qed

lemma same_flat_holds: "same_flat m m' \<Longrightarrow> hasLock t r m = hasLock t r m'"
  unfolding same_flat_def same_table_def hasLock_locks_on by (metis set_mset_mset)

lemma same_flat_new: "same_flat (new_LockManager order) (new_LockManager order')"
  by (simp add: same_flat_def flat_table_def same_table_def new_LockManager_def locks_on_def queue_on_def
      index_of_def map_at_def flat_locks_def head_blocked_def fun_eq_iff)

end
