(* ===== verification/AppDeterminism.thy ===== *)
theory AppDeterminism
  imports AppAlike LockOrder AppClaims
begin

text \<open>
  Whole runs side by side: RECOVER on alike states, the command loop by induction over the
  lines, and the program, for every relation of the lock managers that satisfies
  \<open>lock_view\<close>. The results are what the clocks (nothing but the stored times), the addresses
  of the lock objects (nothing when no name is dotted) and the logs of earlier runs (nothing
  but the reports of RECOVER) decide, and a session in which the addresses decide.
\<close>

section \<open>RECOVER\<close>

text \<open>What recovery computes from the log does not depend on the times in it.\<close>

definition incomplete_ids :: "LogRecord list \<Rightarrow> u32 list" where
  "incomplete_ids rs = sorted_list_of_set (log_incomplete rs)"

lemma filter_untimed:
  assumes "map untimed rs = map untimed rs'"
  shows "map untimed (filter (\<lambda>r. Q (untimed r)) rs) = map untimed (filter (\<lambda>r. Q (untimed r)) rs')"
proof -
  have "map untimed (filter (\<lambda>r. Q (untimed r)) xs) = filter Q (map untimed xs)" for xs
    by (simp add: filter_map comp_def)
  then show ?thesis using assms by simp
qed

lemma log_committed_untimed:
  assumes "map untimed rs = map untimed rs'"
  shows "log_committed rs = log_committed rs'"
proof -
  have "has_record ty t xs \<longleftrightarrow> (t, ty) \<in> set (map untimed xs)" for ty t xs
    by (auto simp: has_record_def untimed_def)
  from this [of COMMIT] show ?thesis unfolding log_committed_def by (simp only: assms)
qed

lemma control_untimed: "is_control t = (\<lambda>r. (\<lambda>(i, ty). i = t \<and> ty \<in> {BEGIN, COMMIT, ABORT}) (untimed r))"
  by (rule ext) (simp add: is_control_def untimed_def)

lemma last_untimed: "xs \<noteq> [] \<Longrightarrow> getLogType (last xs) = snd (last (map untimed xs))"
  by (simp add: last_map untimed_def)

lemma log_incomplete_untimed:
  assumes "map untimed rs = map untimed rs'"
  shows "log_incomplete rs = log_incomplete rs'"
proof -
  have f: "map untimed (filter (is_control t) rs) = map untimed (filter (is_control t) rs')" for t
    unfolding control_untimed by (rule filter_untimed [OF assms])
  have "log_incomplete xs = {t. map untimed (filter (is_control t) xs) \<noteq> [] \<and>
      snd (last (map untimed (filter (is_control t) xs))) = BEGIN}" for xs
    unfolding log_incomplete_def using last_untimed by (intro Collect_cong) (auto simp del: filter_empty_conv)
  from this [of rs] this [of rs'] show ?thesis by (simp only: f)
qed

lemma log_redo_untimed:
  assumes "map untimed rs = map untimed rs'"
  shows "length (log_redo rs) = length (log_redo rs')"
proof -
  have redo: "log_redo xs = filter (\<lambda>r. (\<lambda>(i, ty). i \<in> log_committed xs \<and> isDataModificationType ty) (untimed r)) xs" for xs
    unfolding log_redo_def untimed_def by simp
  have "map untimed (log_redo rs) = map untimed (log_redo rs')"
    unfolding redo [of rs] redo [of rs'] log_committed_untimed [OF assms] by (rule filter_untimed [OF assms])
  then show ?thesis by (metis length_map)
qed

lemma untimed_aborts: "map untimed (abort_records clk ts) = map (\<lambda>t. (t, ABORT)) ts"
  by (induction clk ts rule: abort_records.induct) (simp_all add: untimed_def)

text \<open>The state RECOVER leaves, apart from the clock, and the records it logs.\<close>

definition recovered :: "App \<Rightarrow> App" where
  "recovered a =
     (let ids = getActiveTransactionIds (tm a)
      in (complete_all ids (a\<lparr>tm := abortAllTransactions (sys_clock a) (tm a),
            sys_clock := (rest ^^ length ids) (sys_clock a)\<rparr>))\<lparr>pending := []\<rparr>)"

lemma recover_outcome:
  assumes "log_ok rs0 a"
  obtains m clk where "map untimed (log_buffer m) = map untimed (run_log a) @ map (\<lambda>t. (t, ABORT)) (incomplete_ids (rs0 @ run_log a))"
    and "cmd_recover a = Inr (println (''recovery complete: redo='' @ nat_to_string (length (log_redo (rs0 @ run_log a))) @
      '' undo='' @ nat_to_string (length (incomplete_ids (rs0 @ run_log a)))) ((recovered a)\<lparr>log_mgr := m, wall_clock := clk\<rparr>))"
proof -
  let ?m = "new_RecoveryManager (flushLogs (log_mgr a)) (wall_clock a)" and ?rs = "rs0 @ run_log a"
  have "readLogs (log_manager ?m) = Inr ?rs"
    using read_flushed [OF assms [unfolded log_ok_def]] by (simp add: new_RecoveryManager_def)
  then obtain m' where m': "performRecovery ?m = Inr m'"
    and i: "fset (incomplete_txns m') = log_incomplete ?rs"
    and r: "getRedoRecords m' = log_redo ?rs"
    and u: "getUndoRecords m' = aborts_of ?m (incomplete_txns m')"
    and l: "log_manager m' = (if log_incomplete ?rs = {} then log_manager ?m
      else flushLogs (write_all (getUndoRecords m') (log_manager ?m)))"
    by (rule performRecovery_ok)
  have ids: "set_elems (incomplete_txns m') = incomplete_ids ?rs"
    using i by (simp add: set_elems_def incomplete_ids_def sorted_list_of_fset.rep_eq)
  have aborts: "map untimed (getUndoRecords m') = map (\<lambda>t. (t, ABORT)) (incomplete_ids ?rs)"
    unfolding u ids by (rule untimed_aborts)
  have buf: "log_buffer (log_manager ?m) = run_log a" by (simp add: new_RecoveryManager_def run_log_def)
  have "map untimed (log_buffer (log_manager m')) = map untimed (run_log a) @ map (\<lambda>t. (t, ABORT)) (incomplete_ids ?rs)"
    using l buf aborts by (simp add: incomplete_ids_def)
  moreover have "length (getUndoRecords m') = length (incomplete_ids ?rs)"
    using aborts by (metis length_map)
  moreover have "recovered a = (complete_all (getActiveTransactionIds (tm a)) (a\<lparr>tm := abortAllTransactions (sys_clock a) (tm a),
            sys_clock := (rest ^^ length (getActiveTransactionIds (tm a))) (sys_clock a)\<rparr>))\<lparr>pending := []\<rparr>"
    unfolding recovered_def Let_def ..
  ultimately show ?thesis using that [of "log_manager m'" "rec_clock m'"] m' r
    by (simp add: cmd_recover_def Let_def complete_all_frame)
qed

text \<open>The characters of a line of the input are characters of the input.\<close>

lemma getline_chars: "getline d s = Some (f, s') \<Longrightarrow> set f \<subseteq> set s \<and> set s' \<subseteq> set s"
  by (auto simp: getline_def dest!: in_set_dropD set_takeWhileD set_dropWhileD split: if_splits)

lemma getlines_chars: "f \<in> set (getlines d s) \<Longrightarrow> set f \<subseteq> set s"
proof (induction d s rule: getlines.induct)
  case (1 d s)
  show ?case
  proof (cases "getline d s")
    case None
    then show ?thesis using 1(2) by (subst (asm) getlines.simps) simp
  next
    case (Some p)
    obtain g s' where p: "p = (g, s')" by fastforce
    have "f = g \<or> f \<in> set (getlines d s')" using 1(2) Some p by (subst (asm) getlines.simps) simp
    then show ?thesis using 1(1) [OF Some p [symmetric]] getline_chars [OF Some [unfolded p]] by blast
  qed
qed

context lock_view
begin

lemma recovered_alike:
  assumes "alike L ok eq a b"
  shows "alike L ok eq (recovered a) (recovered b)"
proof -
  have ids: "getActiveTransactionIds (tm a) = getActiveTransactionIds (tm b)"
    using assms by (intro same_tm_counts(1)) (simp add: alike_def)
  have "alike L ok eq (a\<lparr>tm := abortAllTransactions (sys_clock a) (tm a), sys_clock := c\<rparr>)
      (b\<lparr>tm := abortAllTransactions (sys_clock b) (tm b), sys_clock := d\<rparr>)" for c d
    using assms same_tm_abort_all by (simp add: alike_def)
  note complete_all_alike [OF this]
  moreover have "alike L ok eq c d \<Longrightarrow> alike L ok eq (c\<lparr>pending := []\<rparr>) (d\<lparr>pending := []\<rparr>)" for c d
    by (simp add: alike_def)
  ultimately show ?thesis unfolding recovered_def ids Let_def by blast
qed

lemma alike_logs:
  "alike L ok eq a b \<Longrightarrow> (eq \<Longrightarrow> same_log m n) \<Longrightarrow>
     alike L ok eq (a\<lparr>log_mgr := m, wall_clock := c\<rparr>) (b\<lparr>log_mgr := n, wall_clock := d\<rparr>)"
  by (simp add: alike_def)

lemma cmd_recover_alike:
  assumes "alike L ok eq a b" and "log_ok rs0 a" "log_ok rs0' b" and "eq \<longrightarrow> map untimed rs0 = map untimed rs0'"
  shows "same_effect L ok eq (cmd_recover a) (cmd_recover b)"
proof -
  let ?rs = "rs0 @ run_log a" and ?rs' = "rs0' @ run_log b"
  let ?report = "\<lambda>rs. ''recovery complete: redo='' @ nat_to_string (length (log_redo rs)) @
      '' undo='' @ nat_to_string (length (incomplete_ids rs))"
  have run: "eq \<Longrightarrow> map untimed (run_log a) = map untimed (run_log b)"
    using assms(1) by (simp add: alike_def same_log_def run_log_def)
  then have rs: "eq \<Longrightarrow> map untimed ?rs = map untimed ?rs'" using assms(4) by simp
  have ids: "eq \<Longrightarrow> incomplete_ids ?rs = incomplete_ids ?rs'"
    unfolding incomplete_ids_def using log_incomplete_untimed [OF rs] by simp
  have redo: "eq \<Longrightarrow> length (log_redo ?rs) = length (log_redo ?rs')" by (rule log_redo_untimed [OF rs])
  have line: "same_line eq (?report ?rs) (?report ?rs')"
  proof (cases eq)
    case True
    show ?thesis unfolding ids [OF True] redo [OF True] by (rule same_line_refl)
  next
    case False
    then show ?thesis unfolding same_line_def is_report_def by blast
  qed
  obtain m clk where m: "map untimed (log_buffer m) = map untimed (run_log a) @ map (\<lambda>t. (t, ABORT)) (incomplete_ids ?rs)"
    and a: "cmd_recover a = Inr (println (?report ?rs) ((recovered a)\<lparr>log_mgr := m, wall_clock := clk\<rparr>))"
    by (rule recover_outcome [OF assms(2)])
  obtain n clk' where n: "map untimed (log_buffer n) = map untimed (run_log b) @ map (\<lambda>t. (t, ABORT)) (incomplete_ids ?rs')"
    and b: "cmd_recover b = Inr (println (?report ?rs') ((recovered b)\<lparr>log_mgr := n, wall_clock := clk'\<rparr>))"
    by (rule recover_outcome [OF assms(3)])
  have "same_log m n" if eq unfolding same_log_def m n run [OF that] ids [OF that] ..
  from alike_print_lines [OF alike_logs [OF recovered_alike [OF assms(1)] this] line]
  show ?thesis unfolding a b rel_sum_simps .
qed

section \<open>The command loop\<close>

lemma results_if:
  "alike_results L ok eq x y \<Longrightarrow> alike_results L ok eq x' y' \<Longrightarrow>
     alike_results L ok eq (if P then x else x') (if P then y else y')"
  by simp

lemma effect_if:
  "same_effect L ok eq x y \<Longrightarrow> same_effect L ok eq x' y' \<Longrightarrow> same_effect L ok eq (if P then x else x') (if P then y else y')"
  by simp

lemma alike_inr: "alike L ok eq a b \<Longrightarrow> alike_results L ok eq (Inr (x, a)) (Inr (x, b))" "alike L ok eq a b \<Longrightarrow> same_effect L ok eq (Inr a) (Inr b)"
  by simp_all

lemma next_word_chars: "set (fst (next_word s)) \<subseteq> set s" "set (snd (next_word s)) \<subseteq> set s"
  by (auto simp: next_word_def Let_def dest!: set_takeWhileD set_dropWhileD)

lemma go_alike: "same_effect L ok eq r s \<Longrightarrow> alike_results L ok eq (map_sum id (Pair True) r) (map_sum id (Pair True) s)"
  by (auto elim: rel_sum.cases)

lemma read_line_alike:
  assumes "alike L ok eq a b" and "\<And>n. set n \<subseteq> set args \<Longrightarrow> ok n"
  shows "same_effect L ok eq (cmd_read args a) (cmd_read args b)" and "same_effect L ok eq (cmd_write args a) (cmd_write args b)"
proof -
  let ?n = "fst (next_word (snd (next_word args)))"
  have n: "ok ?n" using next_word_chars(1) [of "snd (next_word args)"] next_word_chars(2) [of args] by (intro assms(2)) blast
  have "same_effect L ok eq (submit cmd a) (submit cmd b)" if "resource_name cmd = ?n" for cmd
    using submit_alike [OF assms(1)] n that by simp
  then show "same_effect L ok eq (cmd_read args a) (cmd_read args b)" and "same_effect L ok eq (cmd_write args a) (cmd_write args b)"
    unfolding cmd_read_def cmd_write_def case_prod_beta Let_def
    by (intro effect_if alike_inr alike_print assms(1); simp only: Command.select_convs)+
qed

lemma process_line_alike:
  assumes "alike L ok eq a b" and "log_ok rs0 a" "log_ok rs0' b" and "eq \<longrightarrow> map untimed rs0 = map untimed rs0'"
    and "\<And>n. set n \<subseteq> set line \<Longrightarrow> ok n"
  shows "alike_results L ok eq (process_line line a) (process_line line b)"
proof -
  obtain op args where nw: "next_word line = (op, args)" by fastforce
  have args: "ok n" if "set n \<subseteq> set args" for n
    using that next_word_chars(2) [of line] assms(5) by (simp add: nw)
  have show_name: "ok (fst (next_word args))" by (rule args) (rule next_word_chars)
  have helped: "alike L ok eq (printHelp a) (printHelp b)" unfolding printHelp_def by (rule alike_print [OF assms(1)])
  note each = cmd_begin_alike cmd_status_alike cmd_checkpoint_alike cmd_commit_alike cmd_abort_alike read_line_alike
  show ?thesis
    unfolding process_line_def nw Let_def prod.case
    by (intro results_if alike_inr go_alike alike_print helped cmd_show_alike [OF assms(1) show_name]
        cmd_recover_alike [OF assms(1-4)] each [OF assms(1)] assms(1) args)
qed

lemma command_loop_alike:
  "alike L ok eq a b \<Longrightarrow> app_inv rs0 a \<Longrightarrow> app_inv rs0' b \<Longrightarrow> (eq \<longrightarrow> map untimed rs0 = map untimed rs0') \<Longrightarrow>
     unat (next_transaction_id (tm a)) + length lines < 2 ^ 32 \<Longrightarrow>
     (\<And>line n. line \<in> set lines \<Longrightarrow> set n \<subseteq> set line \<Longrightarrow> ok n) \<Longrightarrow>
     same_effect L ok eq (command_loop lines a) (command_loop lines b)"
proof (induction lines arbitrary: a b)
  case (Cons line lines)
  have n: "next_transaction_id (tm a) \<noteq> -1" by (rule room_not_max) (use Cons.prems(5) in simp)
  have next_b: "next_transaction_id (tm b) = next_transaction_id (tm a)"
    using Cons.prems(1) by (simp add: alike_def same_tm_def)
  have logs: "log_ok rs0 a" "log_ok rs0' b" using Cons.prems(2,3) by (simp_all add: app_inv_def)
  have "alike_results L ok eq (process_line line a) (process_line line b)"
    by (rule process_line_alike [OF Cons.prems(1) logs Cons.prems(4)]) (use Cons.prems(6) in auto)
  then show ?case
  proof (rule alike_cases)
    fix go a1 b1
    assume a1: "process_line line a = Inr (go, a1)" and b1: "process_line line b = Inr (go, b1)"
      and ab: "alike L ok eq a1 b1"
    have "app_inv rs0 a1" using program.steps_inv [OF process_line_steps [OF a1 n] Cons.prems(2)] .
    moreover have "app_inv rs0' b1"
      using program.steps_inv [OF process_line_steps [OF b1] Cons.prems(3)] n next_b by simp
    moreover have "unat (next_transaction_id (tm a1)) \<le> Suc (unat (next_transaction_id (tm a)))"
      using process_line_next [OF a1] unat_add_one [OF n] by auto
    ultimately have "same_effect L ok eq (command_loop lines a1) (command_loop lines b1)"
      using Cons.prems(4-6) by (intro Cons.IH [OF ab]) auto
    then show ?thesis using ab by (simp add: a1 b1)
  qed simp
qed simp

text \<open>Two whole runs from related lock managers.\<close>

lemma runs_alike:
  assumes "good_start rs0 env" and "good_start rs0' env'" and "eq \<longrightarrow> map untimed rs0 = map untimed rs0'"
    and "L (new_LockManager (env_alloc env)) (new_LockManager (env_alloc env'))"
    and "length (getlines (CHR 0x0A) input) + 1 < 2 ^ 32" and "\<And>n. set n \<subseteq> set input \<Longrightarrow> ok n"
  obtains a b where "main_program env input = Inr (a\<lparr>log_mgr := delete_LogManager (flushLogs (log_mgr a))\<rparr>)"
    and "main_program env' input = Inr (b\<lparr>log_mgr := delete_LogManager (flushLogs (log_mgr b))\<rparr>)"
    and "alike L ok eq a b" and "app_inv rs0 a" and "app_inv rs0' b"
proof -
  let ?a = "printHelp (start_app env)" and ?b = "printHelp (start_app env')" and ?lines = "getlines (CHR 0x0A) input"
  obtain a where a: "command_loop ?lines ?a = Inr a" and ia: "app_inv rs0 a" using run_returns [OF assms(1,5)] .
  obtain b where b: "command_loop ?lines ?b = Inr b" and ib: "app_inv rs0' b" using run_returns [OF assms(2,5)] .
  have "alike L ok eq (start_app env) (start_app env')"
    using assms(4) by (simp add: alike_def start_app_def same_tm_def new_TransactionManager_def same_log_def
        new_LogManager_def open_append_def same_store_def new_DataStore_def)
  then have "alike L ok eq ?a ?b" unfolding printHelp_def by (rule alike_print)
  moreover have "ok n" if "line \<in> set ?lines" "set n \<subseteq> set line" for line n
    using that getlines_chars [OF that(1)] by (intro assms(6)) blast
  ultimately have "same_effect L ok eq (command_loop ?lines ?a) (command_loop ?lines ?b)"
    using assms(5) start_next [of env]
    by (intro command_loop_alike [OF _ app_inv_start [OF assms(1)] app_inv_start [OF assms(2)] assms(3)]) auto
  then have "alike L ok eq a b" by (simp add: a b)
  then show ?thesis using that [of a b] a b ia ib by (simp add: main_program_def)
qed

end

section \<open>What clocks and addresses decide\<close>

interpretation same_order: lock_view "(=)" "\<lambda>_. True"
  by unfold_locales (simp_all add: prod.rel_eq)

interpretation any_order: lock_view same_flat "\<lambda>n. CHR ''.'' \<notin> set n"
  by unfold_locales (simp_all add: same_flat_request same_flat_holds same_flat_complete)

text \<open>
  Two finished runs with the same outcome: the same lines printed, the same data in every
  record, and log files whose new records agree in everything but the times.
\<close>

definition stored_data :: "App \<Rightarrow> u32 \<Rightarrow> bytes option" where
  "stored_data a rid = map_option getData (getRecord rid (data_store a))"

definition same_outcome :: "LogRecord list \<Rightarrow> LogRecord list \<Rightarrow> App \<Rightarrow> App \<Rightarrow> bool" where
  "same_outcome rs0 rs0' a b \<longleftrightarrow> out a = out b \<and> stored_data a = stored_data b \<and>
     (\<exists>us us'. log_disk (log_mgr a) = Some (log_text (rs0 @ us)) \<and>
        log_disk (log_mgr b) = Some (log_text (rs0' @ us')) \<and> map untimed us = map untimed us')"

lemma alike_data:
  assumes "alike L ok eq a b"
  shows "stored_data a = stored_data b"
proof
  fix rid
  show "stored_data a rid = stored_data b rid"
    using getRecord_same [of "data_store a" "data_store b" rid] assms
    by (auto simp: stored_data_def alike_def rel_option_iff same_record_def getData_def split: option.splits)
qed

lemma alike_outcome:
  assumes "alike L ok True a b" and "app_inv rs0 a" and "app_inv rs0' b"
  shows "same_outcome rs0 rs0' (a\<lparr>log_mgr := delete_LogManager (flushLogs (log_mgr a))\<rparr>)
    (b\<lparr>log_mgr := delete_LogManager (flushLogs (log_mgr b))\<rparr>)"
proof -
  have log: "map untimed (run_log a) = map untimed (run_log b)" and out: "out a = out b"
    using assms(1) by (simp_all add: alike_def same_log_def run_log_def list.rel_eq)
  have "log_holds (log_mgr a) (rs0 @ run_log a)" "log_holds (log_mgr b) (rs0' @ run_log b)"
    using assms(2,3) by (simp_all add: app_inv_def log_ok_def)
  from this [THEN closed_log] show ?thesis
    using alike_data [OF assms(1)] log out by (auto simp: same_outcome_def stored_data_def fun_eq_iff)
qed

text \<open>
  C6: the clocks decide nothing but the stored times. Two runs on the same input, with the
  same order of the lock objects and logs that differ at most in their times, both end, and
  whatever the two clocks returned and whenever the stream spilled its buffer, they print
  the same lines, leave the same data in the store and append records to the log that agree
  in everything but the times.
\<close>
theorem clocks_decide_nothing:
  assumes "good_start rs0 env" and "good_start rs0' env'" and "map untimed rs0 = map untimed rs0'"
    and "env_alloc env = env_alloc env'" and "length (getlines (CHR 0x0A) input) + 1 < 2 ^ 32"
  shows "\<exists>a b. main_program env input = Inr a \<and> main_program env' input = Inr b \<and> same_outcome rs0 rs0' a b"
proof -
  have locks: "new_LockManager (env_alloc env) = new_LockManager (env_alloc env')" using assms(4) by simp
  obtain a b where "main_program env input = Inr (a\<lparr>log_mgr := delete_LogManager (flushLogs (log_mgr a))\<rparr>)"
    and "main_program env' input = Inr (b\<lparr>log_mgr := delete_LogManager (flushLogs (log_mgr b))\<rparr>)"
    and "alike (=) (\<lambda>_. True) True a b" and "app_inv rs0 a" and "app_inv rs0' b"
    by (rule same_order.runs_alike [OF assms(1,2) impI [OF assms(3)] locks assms(5) TrueI])
  then show ?thesis using alike_outcome by blast
qed

definition busy_clocks :: "Environment \<Rightarrow> Environment" where
  "busy_clocks env = env\<lparr>env_sys_clock := (\<lambda>n. 5 * of_nat n), env_wall_clock := (\<lambda>n. 7 * word_of_nat n), env_spill := id\<rparr>"

lemma good_busy: "good_start rs0 env \<Longrightarrow> good_start rs0 (busy_clocks env)"
  by (simp add: good_start_def busy_clocks_def)

definition two_lines :: string where
  "two_lines = ''BEGIN T1'' @ [CHR 0x0A] @ ''WRITE T1 A 5''"

lemma two_lines_short: "length (getlines (CHR 0x0A) two_lines) + 1 < 2 ^ 32"
proof -
  have "length (getlines (CHR 0x0A) two_lines) = 2" by code_simp
  then show ?thesis by simp
qed

theorem clocks_decide_nothing_witness:
  "\<exists>a b. main_program (quiet_env None) two_lines = Inr a \<and> main_program (busy_clocks (quiet_env None)) two_lines = Inr b \<and>
     same_outcome [] [] a b"
proof -
  have "env_alloc (quiet_env None) = env_alloc (busy_clocks (quiet_env None))" by (simp add: busy_clocks_def)
  from clocks_decide_nothing [OF good_quiet_env(2) good_busy [OF good_quiet_env(2)] refl this two_lines_short]
  show ?thesis .
qed

text \<open>
  C4: sessions without dotted names are deterministic. When the input names no resource with
  a dot, so that no resource has a parent, the outcome of a run does not depend on the
  addresses of the lock objects either: whatever the clocks, the allocator and the stream's
  buffer do, two runs on the same input end with the same outcome.
\<close>
theorem flat_runs_deterministic:
  assumes "good_start rs0 env" and "good_start rs0' env'" and "map untimed rs0 = map untimed rs0'"
    and "CHR ''.'' \<notin> set input" and "length (getlines (CHR 0x0A) input) + 1 < 2 ^ 32"
  shows "\<exists>a b. main_program env input = Inr a \<and> main_program env' input = Inr b \<and> same_outcome rs0 rs0' a b"
proof -
  have names: "CHR ''.'' \<notin> set n" if "set n \<subseteq> set input" for n :: string using assms(4) that by blast
  obtain a b where "main_program env input = Inr (a\<lparr>log_mgr := delete_LogManager (flushLogs (log_mgr a))\<rparr>)"
    and "main_program env' input = Inr (b\<lparr>log_mgr := delete_LogManager (flushLogs (log_mgr b))\<rparr>)"
    and "alike same_flat (\<lambda>n. CHR ''.'' \<notin> set n) True a b" and "app_inv rs0 a" and "app_inv rs0' b"
    by (rule any_order.runs_alike [OF assms(1,2) impI [OF assms(3)] same_flat_new assms(5) names])
  then show ?thesis using alike_outcome by blast
qed

theorem flat_runs_deterministic_witness:
  "\<exists>a b. main_program (quiet_env None) two_lines = Inr a \<and>
     main_program (busy_clocks (quiet_env None)\<lparr>env_alloc := id\<rparr>) two_lines = Inr b \<and> same_outcome [] [] a b"
proof -
  have "CHR ''.'' \<notin> set two_lines" by code_simp
  moreover have "good_start [] (busy_clocks (quiet_env None)\<lparr>env_alloc := id\<rparr>)"
    using good_busy [OF good_quiet_env(2)] by (simp add: good_start_def)
  ultimately show ?thesis using flat_runs_deterministic [OF good_quiet_env(2) _ refl _ two_lines_short] by blast
qed

text \<open>
  C5: what earlier runs committed is never seen again. Started on any two logs, whatever
  transactions these record as committed, two runs on the same input with the same order of
  the lock objects leave the same data in the store and print the same lines, the reports of
  RECOVER apart: neither the start of the program nor RECOVER brings a logged update back.
\<close>
theorem log_decides_reports_only:
  assumes "good_start rs0 env" and "good_start rs0' env'" and "env_alloc env = env_alloc env'"
    and "length (getlines (CHR 0x0A) input) + 1 < 2 ^ 32"
  shows "\<exists>a b. main_program env input = Inr a \<and> main_program env' input = Inr b \<and>
    stored_data a = stored_data b \<and> list_all2 (same_line False) (out a) (out b)"
proof -
  have locks: "new_LockManager (env_alloc env) = new_LockManager (env_alloc env')" using assms(3) by simp
  have logs: "False \<longrightarrow> map untimed rs0 = map untimed rs0'" by simp
  obtain a b where m: "main_program env input = Inr (a\<lparr>log_mgr := delete_LogManager (flushLogs (log_mgr a))\<rparr>)"
    "main_program env' input = Inr (b\<lparr>log_mgr := delete_LogManager (flushLogs (log_mgr b))\<rparr>)"
    and ab: "alike (=) (\<lambda>_. True) False a b"
    by (rule same_order.runs_alike [OF assms(1,2) logs locks assms(4) TrueI])
  have "list_all2 (same_line False) (out a) (out b)" using ab by (simp add: alike_def)
  then show ?thesis using alike_data [OF ab] unfolding m by (simp add: stored_data_def fun_eq_iff)
qed

definition earlier_log :: "LogRecord list" where
  "earlier_log = [new_LogRecord 1 BEGIN 0, new_LogRecord 1 UPDATE 0, new_LogRecord 1 COMMIT 0]"

definition recover_lines :: string where
  "recover_lines = ''RECOVER'' @ [CHR 0x0A] @ ''SHOW A''"

theorem log_decides_reports_only_witness:
  "log_committed earlier_log = {1} \<and>
   (\<exists>a b. main_program (quiet_env (Some (log_text earlier_log))) recover_lines = Inr a \<and>
     main_program (quiet_env None) recover_lines = Inr b \<and>
     stored_data a = stored_data b \<and> list_all2 (same_line False) (out a) (out b))"
proof
  show "log_committed earlier_log = {1}" by (auto simp: log_committed_def has_record_def earlier_log_def)
  have "length (getlines (CHR 0x0A) recover_lines) = 2" by code_simp
  then have "length (getlines (CHR 0x0A) recover_lines) + 1 < 2 ^ 32" by simp
  from log_decides_reports_only [OF good_quiet_env(1) good_quiet_env(2) _ this]
  show "\<exists>a b. main_program (quiet_env (Some (log_text earlier_log))) recover_lines = Inr a \<and>
     main_program (quiet_env None) recover_lines = Inr b \<and>
     stored_data a = stored_data b \<and> list_all2 (same_line False) (out a) (out b)"
    by (simp add: quiet_env_def)
qed

text \<open>The next run after a committed write shows the initial value, before and after RECOVER.\<close>

definition second_run :: "string \<Rightarrow> string \<Rightarrow> string list option" where
  "second_run input input' =
     (case main_program (quiet_env None) input of Inl _ \<Rightarrow> None
      | Inr a \<Rightarrow> (case main_program (quiet_env (log_disk (log_mgr a))) input' of Inl _ \<Rightarrow> None
                | Inr b \<Rightarrow> Some (tl (out b))))"

theorem restart_loses_data:
  "second_run (two_lines @ [CHR 0x0A] @ ''COMMIT T1'') recover_lines =
     Some [''recovery complete: redo=1 undo=0'', ''A = 10'']"
  by code_simp

text \<open>
  With dotted names the addresses of two lock objects decide what the program prints: when
  T holds INTENTION_SHARED and, through the queue, INTENTION_EXCLUSIVE on P, its next read
  below P replaces the second lock or not, whichever the set of pointers lists first, and V
  may or may not read P while T has an uncommitted write below it.
\<close>

definition address_session :: "string list" where
  "address_session = [''BEGIN T'', ''BEGIN U'', ''BEGIN V'', ''READ T P.c'', ''READ U P'', ''WRITE T P.d 1'',
     ''COMMIT U'', ''READ T P.c'', ''READ V P'']"

definition printed :: "nat \<Rightarrow> string list \<Rightarrow> string list option" where
  "printed position lines =
     (case command_loop lines (printHelp (start_app (quiet_env None\<lparr>env_alloc := \<lambda>_. position\<rparr>))) of
        Inl _ \<Rightarrow> None | Inr a \<Rightarrow> Some (tl (out a)))"

theorem addresses_decide_output:
  "printed 0 address_session =
     Some [''T started'', ''U started'', ''V started'', ''T reads P.c = 0'', ''U reads P = 0'',
       ''T waiting for lock on P.d'', ''U committed'', ''T writes P.d = 1'', ''T reads P.c = 0'', ''V reads P = 0'']"
  "printed 1 address_session =
     Some [''T started'', ''U started'', ''V started'', ''T reads P.c = 0'', ''U reads P = 0'',
       ''T waiting for lock on P.d'', ''U committed'', ''T writes P.d = 1'', ''T reads P.c = 0'',
       ''V waiting for lock on P'']"
  by code_simp+

end
