(* ===== verification/RepoTests.thy ===== *)
theory RepoTests
  imports Transactions LockTable WaitForGraph Recovery
begin

text \<open>
  The test programs of the repository, \<^verbatim>\<open>test/test_deadlock.cpp\<close>,
  \<^verbatim>\<open>test/test_transactions.cpp\<close> and \<^verbatim>\<open>test/test_recovery.cpp\<close>. Each
  \<open>main\<close> is the conjunction of its assertions over the states the calls produce, with the
  clocks, the addresses of new locks and the file system as arguments; the theorems say that
  the tests pass whatever these are.
\<close>

section \<open>test\_deadlock\<close>

definition test_graph :: bool where
  "test_graph =
     (let graph = addEdge 2 3 (addEdge 1 2 new_WaitForGraph)
      in \<not> hasCycle graph \<and> hasCycle (addEdge 3 1 graph))"

definition test_shared_exclusive :: "nat oracle_seq \<Rightarrow> bool" where
  "test_shared_exclusive order =
     (let resource = 42;
          (g1, m1) = requestLock 1 resource SHARED (new_LockManager order);
          (g2, m2) = requestLock 2 resource SHARED m1;
          (g3, m3) = requestLock 3 resource EXCLUSIVE m2;
          (c1, m4) = completeTransaction 1 m3;
          (c2, m5) = completeTransaction 2 m4
      in g1 \<and> g2 \<and> hasLock 1 resource m2 \<and> hasLock 2 resource m2 \<and>
         \<not> g3 \<and> \<not> hasLock 3 resource m3 \<and>
         c1 \<and> \<not> hasLock 3 resource m4 \<and> c2 \<and> hasLock 3 resource m5 \<and>
         getLockType resource m5 = EXCLUSIVE)"

definition test_hierarchy :: "nat oracle_seq \<Rightarrow> bool" where
  "test_hierarchy order =
     (let table = 100; row = 101;
          (g1, m1) = requestLock 1 row EXCLUSIVE (setResourceParent row table (new_LockManager order));
          (g2, m2) = requestLock 2 table SHARED m1;
          (c1, m3) = completeTransaction 1 m2
      in g1 \<and> hasLock 1 row m1 \<and> hasLock 1 table m1 \<and> getLockType table m1 = INTENTION_EXCLUSIVE \<and>
         \<not> g2 \<and> c1 \<and> hasLock 2 table m3 \<and> getLockType table m3 = SHARED)"

definition test_deadlock :: "nat oracle_seq \<Rightarrow> nat oracle_seq \<Rightarrow> bool" where
  "test_deadlock order1 order2 \<longleftrightarrow> test_graph \<and> test_shared_exclusive order1 \<and> test_hierarchy order2"

text \<open>An oracle is its first two values and the rest.\<close>

lemma oracle_split: "(f :: nat oracle_seq) = case_nat (f 0) (case_nat (f 1) (\<lambda>n. f (Suc (Suc n))))"
  by (rule ext) (simp split: nat.split)

lemma test_shared_exclusive_first: "test_shared_exclusive (case_nat a (case_nat 0 f))"
  by code_simp

lemma test_shared_exclusive_second: "test_shared_exclusive (case_nat a (case_nat (Suc b) f))"
  by code_simp

lemma test_hierarchy_any: "test_hierarchy (case_nat a f)"
  by code_simp

theorem test_deadlock_passes: "test_deadlock order1 order2"
proof -
  have "test_shared_exclusive (case_nat a (case_nat b f))" for a b f
    using test_shared_exclusive_first test_shared_exclusive_second by (cases b) auto
  then have "test_shared_exclusive order1" by (subst oracle_split) blast
  moreover have "test_hierarchy order2" by (subst oracle_split) (rule test_hierarchy_any)
  moreover have test_graph by code_simp
  ultimately show ?thesis by (simp add: test_deadlock_def)
qed

section \<open>test\_transactions\<close>

text \<open>
  The test keeps the pointers that \<open>beginTransaction\<close> returns: an assertion about such an
  object is one about the transaction the manager holds under its id.
\<close>

definition object_satisfies :: "(Transaction \<Rightarrow> bool) \<Rightarrow> u32 \<Rightarrow> TransactionManager \<Rightarrow> bool" where
  "object_satisfies P tid m = (case getTransaction tid m of None \<Rightarrow> False | Some t \<Rightarrow> P t)"

definition test_metrics :: "time_point oracle_seq \<Rightarrow> u32 \<Rightarrow> TransactionManager \<Rightarrow> TransactionManager" where
  "test_metrics clock tid =
     fold (\<lambda>f. on_transaction f tid)
       [incrementReadCount (clock 0), incrementReadCount (clock 1), incrementWriteCount (clock 2),
        recordAccessedRecord 10 (clock 3), recordAccessedRecord 10 (clock 4), recordAccessedRecord 22 (clock 5),
        setErrorMessage ''synthetic error'']"

definition test_transactions :: "time_point oracle_seq \<Rightarrow> time_point oracle_seq \<Rightarrow> bool" where
  "test_transactions clock clock' =
     (let (txn1, m1) = beginTransaction (clock 0) (clock 1) new_TransactionManager;
          (txn2, m2) = beginTransaction (clock 2) (clock 3) m1;
          (txn3, m3) = beginTransaction (clock 4) (clock 5) m2;
          id1 = Transactions.getTransactionId txn1; id2 = Transactions.getTransactionId txn2; id3 = Transactions.getTransactionId txn3;
          m4 = test_metrics (\<lambda>n. clock (n + 6)) id1 m3;
          (committed, m5) = commitTransaction id1 (clock 12) m4;
          (aborted, m6) = abortTransaction id2 (clock 13) m5;
          (committed', m7) = commitTransaction 999999 (clock 14) m6;
          (aborted', m8) = abortTransaction 999999 (clock 15) m7;
          m9 = abortAllTransactions clock' m8;
          m10 = clearCompletedTransactions m9
      in id2 = id1 + 1 \<and> id3 = id2 + 1 \<and>
         getActiveTransactionCount m3 = 3 \<and> getTotalTransactionCount m3 = 3 \<and>
         object_satisfies (\<lambda>t. getReadCount t = 2 \<and> getWriteCount t = 1 \<and>
           length (getAccessedRecords t) = 2 \<and> getErrorMessage t = ''synthetic error'' \<and> \<not> isCompleted t) id1 m4 \<and>
         committed \<and> aborted \<and>
         object_satisfies (\<lambda>t. isCompleted t \<and> getState t = COMMITTED) id1 m6 \<and>
         object_satisfies (\<lambda>t. isCompleted t \<and> getState t = ABORTED) id2 m6 \<and>
         getCommittedCount m6 = 1 \<and> getAbortedCount m6 = 1 \<and> getActiveTransactionCount m6 = 1 \<and>
         getTotalTransactionCount m6 = 3 \<and> \<not> isTransactionActive id1 m6 \<and>
         \<not> isTransactionActive id2 m6 \<and> isTransactionActive id3 m6 \<and>
         getTransaction id1 m6 \<noteq> None \<and> getTransaction id2 m6 \<noteq> None \<and> getTransaction id3 m6 \<noteq> None \<and>
         getTransaction 999999 m6 = None \<and> \<not> committed' \<and> \<not> aborted' \<and>
         getActiveTransactionCount m9 = 0 \<and> getAbortedCount m9 = 2 \<and> getTotalTransactionCount m9 = 3 \<and>
         getTotalTransactionCount m10 = 0)"

theorem test_transactions_passes: "test_transactions clock clock'"
  unfolding test_transactions_def Let_def case_prod_beta by (intro conjI; code_simp)

section \<open>test\_recovery\<close>

text \<open>Five records of two transactions, one of them committed, written to an emptied log.\<close>

definition test_records :: "64 word oracle_seq \<Rightarrow> LogRecord list" where
  "test_records clock =
     [new_LogRecord 1 BEGIN (clock 0), new_LogRecord 1 INSERT (clock 1), new_LogRecord 1 COMMIT (clock 2),
      new_LogRecord 2 BEGIN (clock 3), new_LogRecord 2 UPDATE (clock 4)]"

definition test_recovery ::
  "string option \<Rightarrow> bool oracle_seq \<Rightarrow> nat oracle_seq \<Rightarrow> 64 word oracle_seq \<Rightarrow> 64 word oracle_seq \<Rightarrow> bool" where
  "test_recovery disk opens spill clock clock' =
     (let log = flushLogs (write_all (test_records clock) (clearLogs (new_LogManager disk opens spill)))
      in case readLogs log of Inl e \<Rightarrow> False
         | Inr before \<Rightarrow>
             (case performRecovery (new_RecoveryManager log clock') of Inl e \<Rightarrow> False
              | Inr m \<Rightarrow>
                  (case readLogs (log_manager m) of Inl e \<Rightarrow> False
                   | Inr after \<Rightarrow>
                       length before = 5 \<and> getRecoveryState m = COMPLETE \<and>
                       getCommittedTransactionIds m = [1] \<and> getIncompleteTransactionIds m = [2] \<and>
                       map getTransactionId (getRedoRecords m) = [1] \<and> map getLogType (getRedoRecords m) = [INSERT] \<and>
                       map getTransactionId (getUndoRecords m) = [2] \<and> map getLogType (getUndoRecords m) = [ABORT] \<and>
                       length after = 6 \<and> getTransactionId (last after) = 2 \<and> getLogType (last after) = ABORT)))"

lemma set_elems_singleton: "fset s = {x} \<Longrightarrow> set_elems s = [x]"
  by (metis distinct_set_elems length_set_elems set_set_elems sorted_set_elems fcard.rep_eq card_1_singleton_iff
      One_nat_def length_0_conv length_Suc_conv list.set_intros(1) singletonD)

theorem test_recovery_passes:
  assumes "\<And>n. opens n"
  shows "test_recovery disk opens spill clock clock'"
proof -
  let ?rs = "test_records clock" and ?m0 = "new_LogManager disk opens spill"
  let ?log = "flushLogs (write_all ?rs (clearLogs ?m0))"
  have "log_holds (clearLogs ?m0) []"
    by (rule clearLogs_holds) (simp_all add: new_LogManager_def open_append_def draw_def rest_def assms)
  then have all: "log_holds (write_all ?rs (clearLogs ?m0)) ?rs" using text_log.holds_appends by fastforce
  note before = read_flushed [OF all]
  have inc: "log_incomplete ?rs = {2}" "log_committed ?rs = {1}" "log_redo ?rs = [new_LogRecord 1 INSERT (clock 1)]"
    by (auto simp: log_incomplete_def log_committed_def log_redo_def has_record_def is_control_def test_records_def
        isDataModificationType_def split: if_splits)
  have read: "readLogs (log_manager (new_RecoveryManager ?log clock')) = Inr ?rs"
    using before by (simp add: new_RecoveryManager_def)
  obtain m where m: "performRecovery (new_RecoveryManager ?log clock') = Inr m" "getRecoveryState m = COMPLETE"
    "fset (committed_txns m) = log_committed ?rs" "fset (incomplete_txns m) = log_incomplete ?rs"
    "getRedoRecords m = log_redo ?rs"
    and u: "getUndoRecords m = abort_records (rec_clock (new_RecoveryManager ?log clock')) (set_elems (incomplete_txns m))"
    and l: "log_manager m = (if log_incomplete ?rs = {} then log_manager (new_RecoveryManager ?log clock')
      else flushLogs (write_all (getUndoRecords m) (log_manager (new_RecoveryManager ?log clock'))))"
    using performRecovery_ok [OF read] .
  have l: "log_manager m = flushLogs (write_all (getUndoRecords m) ?log)"
    using l unfolding inc by (simp add: new_RecoveryManager_def)
  note m = m [unfolded inc]
  have ids: "set_elems (committed_txns m) = [1]" "set_elems (incomplete_txns m) = [2]"
    using m(3,4) set_elems_singleton by blast+
  have "readLogs (log_manager m) = Inr (?rs @ getUndoRecords m)"
    unfolding l by (rule text_log.read_appends [OF log_holds_flush [OF all]])
  then show ?thesis
    using m before u ids
    by (simp add: test_recovery_def Let_def getCommittedTransactionIds_def getIncompleteTransactionIds_def test_records_def)
qed

end
