(* ===== verification/Spec2Isabelle.thy ===== *)
theory Spec2Isabelle
  imports LockClaims Serializability WaitForGraph AppClaims AppResources AppSessions AppSerial AppForm
    AppDurable AppCommands AppDeterminism RepoTests
begin

text \<open>
  A verification development for the transaction manager, a small C++17 database engine:
  an interactive program that runs transactions over an in-memory store of integers with
  strict two-phase locking, a write-ahead log file and a recovery pass.

  \<^bold>\<open>The program.\<close> \<^verbatim>\<open>src/main.cpp\<close> reads commands (BEGIN, READ, WRITE, COMMIT,
  ABORT, SHOW, STATUS, CHECKPOINT, RECOVER, HELP, EXIT) line by line. It owns a transaction
  manager (\<^verbatim>\<open>transaction/\<close>), a lock manager (\<^verbatim>\<open>concurrency/LockManager.cpp\<close>),
  a log (\<^verbatim>\<open>recovery/LogManager.cpp\<close>) and a data store (\<^verbatim>\<open>storage/\<close>). A READ or
  WRITE resolves the resource name to an id, asks for a SHARED or EXCLUSIVE lock and is put
  into a vector of waiting commands when that is refused; every COMMIT and ABORT completes
  the transaction at the lock manager, which hands its locks over to the wait queues, and
  then retries the waiting commands. RECOVER aborts what is active and runs
  \<^verbatim>\<open>recovery/RecoveryManager.cpp\<close> over the log. The wait-for graph
  (\<^verbatim>\<open>concurrency/WaitForGraph.cpp\<close>) is a component of its own that the program does
  not use.

  \<^bold>\<open>Theories, in the order of their imports.\<close>
  \<^item> \<open>Prelude\<close>: types (\<open>u32\<close>, \<open>bytes\<close>, oracle sequences), exceptions as values of a sum
    type, finite sets as sorted lists, the last id of a 32-bit counter, traces of labelled
    steps, and the interfaces \<open>safety\<close> (an inductive invariant) and \<open>stability\<close> (a property
    no step makes false).
  \<^item> \<open>Utils\<close>: the enumerations of \<^verbatim>\<open>utils/enums.h\<close> and the constants of
    \<^verbatim>\<open>utils/constants.h\<close>.
  \<^item> \<open>Storage\<close>: \<^verbatim>\<open>Record\<close> and \<^verbatim>\<open>DataStore\<close>. Every reachable store is well formed,
    the 64-bit size never wraps, what insertion, update and deletion do.
  \<^item> \<open>Transactions\<close>: \<^verbatim>\<open>Transaction\<close> and \<^verbatim>\<open>TransactionManager\<close>. Accounting,
    fresh ids, finality of outcomes, and a refinement of an abstract life cycle.
  \<^item> \<open>LockTable\<close> (the code of \<^verbatim>\<open>LockManager.cpp\<close> and \<^verbatim>\<open>Lock.cpp\<close>), \<open>LockSafety\<close>
    (case rules and the invariant of the lock table), \<open>LockProps\<close> (what each operation
    keeps, the interfaces \<open>lock_service\<close> and \<open>two_phase\<close> the engine relies on and their
    interpretation), \<open>LockClaims\<close> (its properties: compatibility, exclusion of writers
    and of readers, hierarchical coverage, waiting, hand-over in order, release at the end)
    and \<open>LockOrder\<close> (without parents no transaction has two locks on a resource, and the
    order of the lock objects does not matter).
  \<^item> \<open>Histories\<close>: histories apart from any program. The interface \<open>strict_locking\<close> of a
    labelled transition relation, from which conflicts follow the order of completion; and
    reads and writes, where a history whose conflicts follow that order can be sorted into a
    serial one with the same values.
  \<^item> \<open>Serializability\<close>: the lock manager's histories of granted accesses and completions.
    Every \<open>two_phase\<close> lock service is a \<open>strict_locking\<close> (a sublocale), so histories are
    conflict serializable.
  \<^item> \<open>WaitForGraph\<close>: the depth-first search with its colours finds exactly the cycles.
  \<^item> \<open>StdText\<close>: what the code uses of the C++ library on text: \<^verbatim>\<open>std::getline\<close>,
    \<^verbatim>\<open>std::to_string\<close>, \<^verbatim>\<open>std::stoi\<close>, \<^verbatim>\<open>std::stol\<close>, \<^verbatim>\<open>std::stoul\<close>.
  \<^item> \<open>LogRecord\<close>: printing and parsing of log lines; they are inverse, and what exactly is
    accepted, ignored or thrown on.
  \<^item> \<open>LogManager\<close>: the log file and the stream buffer in front of it; the interface
    \<open>durable_log\<close> and its interpretation; crashes that cut the file at any byte.
  \<^item> \<open>Recovery\<close>: analysis, redo and undo; what they compute, idempotence, durability of
    flushed commits across a crash, reuse of ids, torn lines.
  \<^item> \<open>App\<close> (the code of \<^verbatim>\<open>main.cpp\<close>), \<open>AppSteps\<close> (the program as a transition system
    whose steps carry the guards of the code; every input line is a sequence of steps),
    \<open>AppProps\<close> (what a step does to each component: the store holds printed numbers, live
    transactions are not completed, the log holds everything the run wrote and agrees with
    the transaction manager), \<open>AppInv\<close> (these as one invariant, by interpretation of the
    prelude's interfaces), \<open>AppTotal\<close> (no command throws), \<open>AppClaims\<close> (the properties
    over whole runs), \<open>AppResources\<close> (names and writes), \<open>AppCommands\<close> (the syntax of the
    command lines), \<open>AppSessions\<close> (sessions evaluated in the kernel, among them the
    repository's \<^verbatim>\<open>input.txt\<close> and those in which the program does not do what its
    documentation says).
  \<^item> \<open>AppHistory\<close> (functions that follow the control flow of \<^verbatim>\<open>main.cpp\<close> and collect
    which transaction read and wrote which value and when it ended, and the relation that
    says when the lock table, the store and the log allow such an action), \<open>AppTrace\<close> (every
    function of the program is a trace of the actions collected for it), \<open>AppSerial\<close> (the
    trace is a strict locking, so a whole run is equivalent to a serial one, with the same
    reads and the same final data), \<open>AppForm\<close> (well-formed states: names, labels, held
    resources and waiting commands), \<open>AppDurable\<close> (crashes at any step after a CHECKPOINT, and
    repeated runs on one log file).
  \<^item> \<open>AppAlike\<close> (states that differ in stored times only, the interface \<open>lock_view\<close> of related
    lock managers, and that every operation takes alike states to alike results) and
    \<open>AppDeterminism\<close> (two runs side by side: what the clocks, the addresses of the lock
    objects and the logs of earlier runs can and cannot decide).
  \<^item> \<open>RepoTests\<close>: the repository's test programs as functions of the clocks, the lock
    addresses and the file system; all pass.

  \<^bold>\<open>Correspondence.\<close> A class is a record with the class's name, a member function a
  definition with its name that takes and returns the record; constructors are
  \<open>new_\<close> and the class. Loops are structural recursions named after the function
  (\<open>redo_loop\<close>, \<open>release_loop\<close>); the ancestor walk, the depth-first search and the retry of
  waiting commands are recursions with termination proofs: the ancestors not yet visited,
  the nodes not yet coloured and the waiting commands decrease. No fuel is used anywhere.
  \<^verbatim>\<open>uint32_t\<close> and \<^verbatim>\<open>int\<close> are 32-bit words, \<^verbatim>\<open>size_t\<close>, \<^verbatim>\<open>time_t\<close> and
  \<^verbatim>\<open>unsigned long\<close> 64-bit words (an LP64 platform). Maps and sets are finite maps and
  finite sets; iteration over the ordered ones is in ascending order.

  \<^bold>\<open>Oracles.\<close> What the program cannot determine is an argument of the model, a sequence
  that each use draws from, and every theorem holds for all of them: the two clocks, the
  position at which a new lock object lands in the set ordered by addresses, whether opening
  a file for writing succeeds, and how many bytes of the output buffer reach the file at
  each write. A crash keeps what has reached the file. \<open>AppDeterminism\<close> shows which of these
  can be observed: the clocks and the spilling never, the addresses only when resources have
  parents, the logs of earlier runs only in the reports of RECOVER.

  \<^bold>\<open>Bounds.\<close> Ids are handed out by 32-bit counters. Properties of whole runs assume fewer
  input lines than ids (\<open>2 ^ 32 - 1\<close>), since an id is only used up by a line; reachable
  states of the transition system begin no transaction once the counter stands at its last
  value. Resource ids may wrap round in all properties of whole runs.

  \<^bold>\<open>What serializability covers.\<close> The history of a run holds the READs and WRITEs made under
  locks, those of transactions that abort later included, because ABORT restores no record.
  SHOW reads without a lock and belongs to no transaction, so it is not part of it. A
  resource starts with the value the program creates it with, 10 or 0.

  \<^bold>\<open>Not modelled.\<close> Failures of writing to an open file: the code never looks at the state of
  the stream after a write, and what its buffer then holds and whether a later flush or
  close tries again is left to the C++ library, so a model would be of that library and not
  of the program. Failures of reading a file that exists, for the same reason; the choice between \<^verbatim>\<open>input.txt\<close> and standard input (the input is a text) and the
  terminal (the output is a list of lines); threads (the program has none); the build files
  and scripts. The two getters of a lock are the
  selectors of its record. Records and transactions that the C++ code shares
  through pointers are values in the table that owns them: the program does not write
  through a pointer it obtained elsewhere, and updates by a caller that keeps one are a step
  of the transaction manager's transition system.
\<close>

end
